(* ===== verification/Prelude.thy ===== *)
theory Prelude
  imports Main "HOL-Library.Word"
begin

text \<open>
  Shared vocabulary of the development: the machine integers of \<^verbatim>\<open>nx88.h\<close> as fixed-width
  words, big-endian assembly of words from bytes, page arithmetic on 32-bit addresses, C's reading
  and writing of a file opened by the emulator, and the \<open>keyed_store\<close> interface that the
  memory, the interleaver RAM and the register file all implement.

  The collections \<open>page_arith\<close> and \<open>bytes\<close> gather the rewrite rules the
  component theories hand to the simplifier as a group.
\<close>

unbundle bit_operations_syntax

named_theorems page_arith \<open>page number and page offset of an address, over the naturals\<close>
named_theorems bytes \<open>assembling words from bytes and taking them apart\<close>

section \<open>Machine integers\<close>

type_synonym u8 = "8 word"
type_synonym u16 = "16 word"
type_synonym u32 = "32 word"
type_synonym u64 = "64 word"

text \<open>\<open>s16_to_s32\<close> and \<open>s8_to_s32\<close> are the casts \<open>(s32)(int16_t)v\<close> and
  \<open>(s32)(int8_t)v\<close> of the sign-extending loads, stored back into a register.\<close>

definition s16_to_s32 :: "u16 \<Rightarrow> u32" where
  "s16_to_s32 v = scast v"

definition s8_to_s32 :: "u8 \<Rightarrow> u32" where
  "s8_to_s32 v = scast v"

section \<open>Results of C functions\<close>

text \<open>A value, the error return, or a step that C leaves undefined because it runs over the end of an
  array or a buffer.\<close>

datatype 'a c_result = Ok 'a | Fail | Overrun

section \<open>Bytes and big-endian words\<close>

definition be32 :: "u8 \<Rightarrow> u8 \<Rightarrow> u8 \<Rightarrow> u8 \<Rightarrow> u32" where
  "be32 p0 p1 p2 p3 =
     push_bit 24 (ucast p0) OR push_bit 16 (ucast p1) OR push_bit 8 (ucast p2) OR ucast p3"

definition be16 :: "u8 \<Rightarrow> u8 \<Rightarrow> u16" where
  "be16 p0 p1 = push_bit 8 (ucast p0) OR ucast p1"

text \<open>\<open>byte_of i v\<close> is byte \<open>i\<close> of a big-endian word, the C expressions
  \<open>(u8)(v >> 24)\<close>, \<open>(u8)(v >> 16)\<close>, \<open>(u8)(v >> 8)\<close> and \<open>(u8)v\<close>.\<close>

definition byte_of :: "nat \<Rightarrow> u32 \<Rightarrow> u8" where
  "byte_of i v = ucast (drop_bit (8 * (3 - i)) v)"

definition hbyte_of :: "nat \<Rightarrow> u16 \<Rightarrow> u8" where
  "hbyte_of i v = ucast (drop_bit (8 * (1 - i)) v)"

lemma be32_byte_of [bytes, simp]:
  "be32 (byte_of 0 v) (byte_of (Suc 0) v) (byte_of 2 v) (byte_of 3 v) = v"
proof (rule bit_word_eqI)
  fix n assume "n < LENGTH(32)"
  then consider "n < 8" | "8 \<le> n" "n < 16" | "16 \<le> n" "n < 24" | "24 \<le> n" "n < 32"
    by fastforce
  then show "bit (be32 (byte_of 0 v) (byte_of (Suc 0) v) (byte_of 2 v) (byte_of 3 v)) n = bit v n"
    by cases (auto simp: be32_def byte_of_def bit_simps)
qed

lemma byte_of_be32 [bytes, simp]:
  "byte_of 0 (be32 a b c d) = a"
  "byte_of (Suc 0) (be32 a b c d) = b"
  "byte_of 2 (be32 a b c d) = c"
  "byte_of 3 (be32 a b c d) = d"
  by (rule bit_word_eqI; auto simp: be32_def byte_of_def bit_simps dest: bit_imp_le_length)+

lemma be32_inject [bytes]:
  "be32 a b c d = be32 a' b' c' d' \<longleftrightarrow> a = a' \<and> b = b' \<and> c = c' \<and> d = d'"
  by (metis byte_of_be32)

lemma be16_hbyte_of [bytes, simp]: "be16 (hbyte_of 0 v) (hbyte_of (Suc 0) v) = v"
proof (rule bit_word_eqI)
  fix n assume "n < LENGTH(16)"
  then consider "n < 8" | "8 \<le> n" "n < 16" by fastforce
  then show "bit (be16 (hbyte_of 0 v) (hbyte_of (Suc 0) v)) n = bit v n"
    by cases (auto simp: be16_def hbyte_of_def bit_simps)
qed

lemma hbyte_of_be16 [bytes, simp]:
  "hbyte_of 0 (be16 a b) = a"
  "hbyte_of (Suc 0) (be16 a b) = b"
  by (rule bit_word_eqI; auto simp: be16_def hbyte_of_def bit_simps dest: bit_imp_le_length)+

section \<open>Page arithmetic\<close>

text \<open>An address is a page number \<open>a >> 12\<close> and an offset \<open>a & 4095\<close>.\<close>

abbreviation page_no :: "u32 \<Rightarrow> u32" where
  "page_no a \<equiv> drop_bit 12 a"

abbreviation page_off :: "u32 \<Rightarrow> u32" where
  "page_off a \<equiv> a AND 4095"

lemma unat_and_mask: "unat (a AND mask n) = unat a mod 2 ^ n"
  by (simp only: take_bit_eq_mask[symmetric] unsigned_take_bit_eq) (simp add: take_bit_eq_mod)

lemma page_off_take_bit: "page_off a = take_bit 12 a"
  by (simp add: take_bit_eq_mask mask_eq_exp_minus_1)

lemma unat_page_no [page_arith]: "unat (page_no a) = unat a div 4096"
proof -
  have "unat (page_no a) = drop_bit 12 (unat a)" by (rule unat_drop_bit_eq)
  also have "\<dots> = unat a div 4096" by (subst drop_bit_eq_div) simp
  finally show ?thesis .
qed

lemma unat_page_off [page_arith]: "unat (page_off a) = unat a mod 4096"
  by (simp only: page_off_take_bit unsigned_take_bit_eq) (simp add: take_bit_eq_mod)

lemma unat_add_small:
  fixes a b :: u32
  assumes "unat a + unat b < 2 ^ 32"
  shows "unat (a + b) = unat a + unat b"
  using assms by (simp add: unat_word_ariths)

lemma unat_add_page_off [page_arith]:
  "unat (page_off (a + i)) = (unat a + unat i) mod 4096"
proof -
  have "unat (a + i) = (unat a + unat i) mod (4096 * 1048576)"
    by (simp add: unat_word_ariths)
  then show ?thesis
    by (simp only: unat_page_off mod_mod_cancel dvd_triv_left)
qed

lemma unat_u32_bound: "unat (a :: u32) < 4294967296"
  using unsigned_less[of a] by simp

lemma unat_of_nat_small: "n < 4294967296 \<Longrightarrow> unat (of_nat n :: u32) = n"
  by (simp add: unat_of_nat take_bit_nat_eq_self)

lemma page_bound: "unat (page_no a) < 1048576"
  using unat_u32_bound[of a] by (simp add: unat_page_no less_mult_imp_div_less)

text \<open>Within a page, the next three addresses have the same page number.\<close>

lemma page_step:
  assumes "page_off a \<le> 4092" and "unat i \<le> 3"
  shows "page_no (a + i) = page_no a" "page_off (a + i) = page_off a + i"
proof -
  define q r where "q = unat a div 4096" and "r = unat a mod 4096"
  have a: "unat a = 4096 * q + r" by (simp add: q_def r_def)
  have o: "r \<le> 4092"
    using assms(1) by (simp add: word_le_nat_alt unat_page_off r_def)
  have "q < 1048576" using page_bound[of a] by (simp add: unat_page_no q_def)
  with o assms(2) have s: "unat (a + i) = 4096 * q + (r + unat i)"
    by (subst unat_add_small) (simp_all add: a)
  show "page_no (a + i) = page_no a"
    using o assms(2) by (simp add: word_unat_eq_iff unat_page_no s a)
  have "unat (page_off a + i) = r + unat i"
    using o assms(2) by (subst unat_add_small) (simp_all add: unat_page_off r_def)
  then show "page_off (a + i) = page_off a + i"
    using o assms(2) by (simp add: word_unat_eq_iff unat_page_off s)
qed

text \<open>Consecutive addresses never share an offset, whichever pages they are on.\<close>

lemma mod_add_cancel_left:
  fixes x i j n :: nat
  assumes "i < n" "j < n" "(x + i) mod n = (x + j) mod n"
  shows "i = j"
  using assms
proof (induction i j rule: linorder_wlog)
  case (le i j)
  then have "n dvd (x + j) - (x + i)"
    by (metis add_le_cancel_left mod_eq_dvd_iff_nat)
  then have "n dvd j - i" by simp
  with le show ?case by (meson diff_is_0_eq le_antisym less_imp_diff_less nat_dvd_not_less not_gr0)
next
  case (sym i j)
  then show ?case by simp
qed

lemma page_off_add_neq:
  assumes "unat i < 4096" "unat j < 4096" "i \<noteq> j"
  shows "page_off (a + i) \<noteq> page_off (a + j)"
proof
  assume "page_off (a + i) = page_off (a + j)"
  then have "(unat a + unat i) mod 4096 = (unat a + unat j) mod 4096"
    by (metis unat_add_page_off)
  with assms(1,2) have "unat i = unat j" by (rule mod_add_cancel_left)
  with assms(3) show False by (simp add: word_unat_eq_iff)
qed

text \<open>The page masks of the C code, bit by bit.\<close>

lemma bit_page_masks [page_arith]:
  "bit (0xFFF :: u32) n \<longleftrightarrow> n < 12"
  "bit (0xFFFFF000 :: u32) n \<longleftrightarrow> 12 \<le> n \<and> n < 32"
  "bit (- 0x1000 :: u32) n \<longleftrightarrow> 12 \<le> n \<and> n < 32"
proof -
  have m: "(0xFFF :: u32) = mask 12" by (simp add: mask_eq_exp_minus_1)
  show a: "bit (0xFFF :: u32) n \<longleftrightarrow> n < 12"
    unfolding m by (auto simp: bit_mask_iff)
  have "(0xFFFFF000 :: u32) = NOT 0xFFF" by simp
  then show b: "bit (0xFFFFF000 :: u32) n \<longleftrightarrow> 12 \<le> n \<and> n < 32"
    using a by (simp only: bit_not_iff possible_bit_word) auto
  have c: "(- 0x1000 :: u32) = 0xFFFFF000" by simp
  show "bit (- 0x1000 :: u32) n \<longleftrightarrow> 12 \<le> n \<and> n < 32" unfolding c by (rule b)
qed

lemma minus_page: "(- 0x1000 :: u32) = 0xFFFFF000"
  by simp

lemma page_base_shift:
  "(a :: u32) AND 0xFFFFF000 = push_bit 12 (page_no a)"
  "(a :: u32) AND - 0x1000 = push_bit 12 (page_no a)"
proof -
  show "a AND 0xFFFFF000 = push_bit 12 (page_no a)"
    by (rule bit_word_eqI)
      (auto simp: bit_and_iff bit_push_bit_iff bit_drop_bit_eq bit_page_masks simp del: bit_numeral_word_iff)
  then show "a AND - 0x1000 = push_bit 12 (page_no a)" by (simp only: minus_page)
qed

lemma page_base_or_off [simp]:
  "((a :: u32) AND 0xFFFFF000) OR (a AND 0xFFF) = a"
  "((a :: u32) AND - 0x1000) OR (a AND 0xFFF) = a"
proof -
  show "(a AND 0xFFFFF000) OR (a AND 0xFFF) = a"
    by (rule bit_word_eqI)
      (auto simp: bit_and_iff bit_or_iff bit_page_masks simp del: bit_numeral_word_iff)
  then show "(a AND - 0x1000) OR (a AND 0xFFF) = a" by (simp only: minus_page)
qed

text \<open>A frame with an offset or a flag in its low bits gives the frame back.\<close>

lemma frame_masks [page_arith]:
  fixes x a :: u32
  shows "((x AND 0xFFFFF000) OR (a AND 0xFFF)) AND 0xFFFFF000 = x AND 0xFFFFF000"
    and "((x OR (a AND 0xFFF)) AND 0xFFFFF000) = x AND 0xFFFFF000"
    and "((x AND 0xFFFFF000) OR 1) AND 0xFFFFF000 = x AND 0xFFFFF000"
    and "((x AND 0xFFFFF000) OR 1) AND 1 = 1"
    and "(x AND 0xFFFFF000) AND 1 = 0"
    and "x AND 0xFFF = 0 \<Longrightarrow> x AND 0xFFFFF000 = x"
proof -
  note bits = bit_and_iff bit_or_iff bit_page_masks bit_1_iff
  show "((x AND 0xFFFFF000) OR (a AND 0xFFF)) AND 0xFFFFF000 = x AND 0xFFFFF000"
    by (rule bit_word_eqI) (auto simp: bits simp del: bit_numeral_word_iff)
  show "((x OR (a AND 0xFFF)) AND 0xFFFFF000) = x AND 0xFFFFF000"
    by (rule bit_word_eqI) (auto simp: bits simp del: bit_numeral_word_iff)
  show "((x AND 0xFFFFF000) OR 1) AND 0xFFFFF000 = x AND 0xFFFFF000"
    by (rule bit_word_eqI) (auto simp: bits simp del: bit_numeral_word_iff)
  show "((x AND 0xFFFFF000) OR 1) AND 1 = 1"
    by (rule bit_word_eqI) (auto simp: bits simp del: bit_numeral_word_iff)
  show "(x AND 0xFFFFF000) AND 1 = 0"
    by (rule bit_word_eqI) (auto simp: bits simp del: bit_numeral_word_iff)
  assume "x AND 0xFFF = 0"
  then show "x AND 0xFFFFF000 = x" using page_base_or_off(1)[of x] by simp
qed

section \<open>Stores\<close>

text \<open>
  What a client of a memory relies on: a cell is named by a \<open>key\<close> (several addresses may have
  one key, as the interleaved and the node-local view of a page do), \<open>put\<close> changes the cell of
  its address and no other, and \<open>put\<close> does not change what the addresses mean.
\<close>

locale keyed_store =
  fixes get :: "'s \<Rightarrow> 'a \<Rightarrow> 'v"
    and put :: "'s \<Rightarrow> 'a \<Rightarrow> 'v \<Rightarrow> 's"
    and key :: "'s \<Rightarrow> 'a \<Rightarrow> 'k"
  assumes get_put: "get (put s a v) b = (if key s a = key s b then v else get s b)"
    and key_put: "key (put s a v) = key s"
begin

lemma get_put_same: "get (put s a v) a = v"
  by (simp add: get_put)

lemma get_put_alias: "key s a = key s b \<Longrightarrow> get (put s a v) b = v"
  by (simp add: get_put)

lemma get_put_other: "key s a \<noteq> key s b \<Longrightarrow> get (put s a v) b = get s b"
  by (simp add: get_put)

lemma key_puts: "key (fold (\<lambda>(a, v) s. put s a v) avs s) = key s"
  by (induction avs arbitrary: s) (auto simp: key_put)

lemma get_puts_other:
  "key s b \<notin> (\<lambda>(a, v). key s a) ` set avs \<Longrightarrow>
   get (fold (\<lambda>(a, v) s. put s a v) avs s) b = get s b"
  by (induction avs arbitrary: s) (auto simp: key_put get_put)

lemma get_puts:
  assumes "distinct (map (\<lambda>(a, v). key s a) avs)" and "(a, v) \<in> set avs" and "key s b = key s a"
  shows "get (fold (\<lambda>(a, v) s. put s a v) avs s) b = v"
  using assms
proof (induction avs arbitrary: s)
  case Nil
  then show ?case by simp
next
  case (Cons av avs)
  obtain a' v' where av: "av = (a', v')" by fastforce
  show ?case
  proof (cases "(a, v) = (a', v')")
    case True
    have "key s b \<notin> (\<lambda>(a, v). key s a) ` set avs"
      using Cons.prems True av by (force simp: image_iff)
    then have "get (fold (\<lambda>(a, v) s. put s a v) avs (put s a' v')) b = get (put s a' v') b"
      by (intro get_puts_other) (simp add: key_put)
    then show ?thesis using Cons.prems True av by (simp add: get_put)
  next
    case False
    with Cons.prems av have "(a, v) \<in> set avs" by auto
    moreover have "distinct (map (\<lambda>(a, v). key (put s a' v') a) avs)"
      using Cons.prems(1) by (simp add: key_put av)
    ultimately have "get (fold (\<lambda>(a, v) s. put s a v) avs (put s a' v')) b = v"
      using Cons.prems(3) by (intro Cons.IH) (simp_all add: key_put)
    then show ?thesis by (simp add: av)
  qed
qed

end

section \<open>Caches\<close>

text \<open>
  What a client of a lookaside buffer relies on: a flushed cache answers nothing, a filled entry
  answers with what was filled, and filling disturbs another key at most by evicting it.  A cache
  that agrees with its reference stays in agreement when it is filled from the reference.
\<close>

locale lookaside =
  fixes hit :: "'s \<Rightarrow> 'k \<Rightarrow> bool"
    and val :: "'s \<Rightarrow> 'k \<Rightarrow> 'v"
    and fill :: "'s \<Rightarrow> 'k \<Rightarrow> 'v \<Rightarrow> 's"
    and flush :: "'s \<Rightarrow> 's"
  assumes flush_miss: "\<not> hit (flush s) k"
    and fill_hit: "hit (fill s k v) k"
    and fill_val: "val (fill s k v) k = v"
    and fill_other: "k' \<noteq> k \<Longrightarrow> hit (fill s k v) k' \<Longrightarrow> hit s k' \<and> val (fill s k v) k' = val s k'"
begin

definition agrees :: "('k \<Rightarrow> 'v option) \<Rightarrow> 's \<Rightarrow> bool" where
  "agrees ref s \<longleftrightarrow> (\<forall>k. hit s k \<longrightarrow> ref k = Some (val s k))"

lemma agrees_flush: "agrees ref (flush s)"
  by (simp add: agrees_def flush_miss)

lemma agrees_fill: "agrees ref s \<Longrightarrow> ref k = Some v \<Longrightarrow> agrees ref (fill s k v)"
  by (metis agrees_def fill_other fill_val)

lemma agrees_hit: "agrees ref s \<Longrightarrow> hit s k \<Longrightarrow> ref k = Some (val s k)"
  by (simp add: agrees_def)

end

end
