(* ===== verification/Memory.thy ===== *)
theory Memory
  imports Prelude
begin

text \<open>
  Physical memory (\<^verbatim>\<open>nx88.h\<close>, the inline accessors, and \<^verbatim>\<open>memory.c\<close>): 4 GiB of address
  space kept as sparse 4 KiB pages, with the folding of the interleaved view and of the
  per-node window onto the one node's RAM in \<open>cphys\<close>; and the interleaver's own RAM, a second
  sparse store addressed by the select register.

  \<open>flat\<close> is the abstraction: one byte per folded address.  The accessors refine it, the
  32-bit fast paths included, which is what every later theory uses.

  A page that was never touched is \<open>None\<close> and reads as zeros.  The code allocates the zeroed
  page already when it is read; an allocated page of zeros and an absent one are the same to
  every access, so reads leave the model's state alone.  The \<open>--pwatch\<close> commentary of
  \<open>mem_w8\<close> is output only and is left out.
\<close>

section \<open>State\<close>

type_synonym page = "u32 \<Rightarrow> u8"

record mem_state =
  mem_pages :: "u32 \<Rightarrow> page option"   \<comment> \<open>\<open>u8 **pages\<close>\<close>
  mem_cmram :: "u32 \<Rightarrow> page option"   \<comment> \<open>\<open>u8 **cmram_pages\<close>\<close>
  realmm :: bool

definition zero_page :: page where
  "zero_page = (\<lambda>_. 0)"

abbreviation (input) VV_WINDOW :: u32 where "VV_WINDOW \<equiv> 0xF9000000"
abbreviation (input) VV_STRIDE :: u32 where "VV_STRIDE \<equiv> 0x2000"
abbreviation (input) VV_TEMPLATE :: u32 where "VV_TEMPLATE \<equiv> 0xC0014000"

section \<open>Operations\<close>

text \<open>Fold interleaved and per-node-window physical addresses onto the single node's RAM.\<close>

definition cphys :: "mem_state \<Rightarrow> u32 \<Rightarrow> u32" where
  "cphys m a =
     (if realmm m \<and> a \<ge> 0x80000000 \<and> a < 0xC0000000 then a AND 0x7FFFFFFF
      else if a \<ge> VV_WINDOW \<and> a < VV_WINDOW + 64 * VV_STRIDE then
        (let off = (a - VV_WINDOW) mod VV_STRIDE;
             tpl = (if realmm m then VV_TEMPLATE - 0xC0000000 else VV_TEMPLATE)
         in tpl + off)
      else a)"

definition page_of :: "mem_state \<Rightarrow> u32 \<Rightarrow> page" where
  "page_of m a =
     (case mem_pages m (page_no (cphys m a)) of None \<Rightarrow> zero_page | Some p \<Rightarrow> p)"

definition set_page :: "mem_state \<Rightarrow> u32 \<Rightarrow> page \<Rightarrow> mem_state" where
  "set_page m a p = m\<lparr>mem_pages := (mem_pages m)(page_no (cphys m a) \<mapsto> p)\<rparr>"

definition mem_r8 :: "mem_state \<Rightarrow> u32 \<Rightarrow> u8" where
  "mem_r8 m a = page_of m a (page_off a)"

definition mem_w8 :: "mem_state \<Rightarrow> u32 \<Rightarrow> u8 \<Rightarrow> mem_state" where
  "mem_w8 m a v = set_page m a ((page_of m a)(page_off a := v))"

definition mem_r32 :: "mem_state \<Rightarrow> u32 \<Rightarrow> u32" where
  "mem_r32 m a =
     (if page_off a \<le> 4092 then
        (let p = page_of m a; o4 = page_off a
         in be32 (p o4) (p (o4 + 1)) (p (o4 + 2)) (p (o4 + 3)))
      else be32 (mem_r8 m a) (mem_r8 m (a + 1)) (mem_r8 m (a + 2)) (mem_r8 m (a + 3)))"

definition mem_w32 :: "mem_state \<Rightarrow> u32 \<Rightarrow> u32 \<Rightarrow> mem_state" where
  "mem_w32 m a v =
     (if page_off a \<le> 4092 then
        (let o4 = page_off a
         in set_page m a ((page_of m a)(o4 := byte_of 0 v, o4 + 1 := byte_of 1 v,
                                        o4 + 2 := byte_of 2 v, o4 + 3 := byte_of 3 v)))
      else
        (let m = mem_w8 m a (byte_of 0 v); m = mem_w8 m (a + 1) (byte_of 1 v);
             m = mem_w8 m (a + 2) (byte_of 2 v)
         in mem_w8 m (a + 3) (byte_of 3 v)))"

definition mem_r16 :: "mem_state \<Rightarrow> u32 \<Rightarrow> u16" where
  "mem_r16 m a = be16 (mem_r8 m a) (mem_r8 m (a + 1))"

definition mem_w16 :: "mem_state \<Rightarrow> u32 \<Rightarrow> u16 \<Rightarrow> mem_state" where
  "mem_w16 m a v = mem_w8 (mem_w8 m a (hbyte_of 0 v)) (a + 1) (hbyte_of 1 v)"

text \<open>\<open>mem_load\<close> copies a host buffer in, \<open>mem_zero\<close> clears a range, \<open>mem_cstr\<close> reads a
  NUL-terminated string of at most \<open>max - 1\<close> bytes.\<close>

fun mem_load :: "mem_state \<Rightarrow> u32 \<Rightarrow> u8 list \<Rightarrow> mem_state" where
  "mem_load m a [] = m"
| "mem_load m a (b # bs) = mem_load (mem_w8 m a b) (a + 1) bs"

fun mem_zero :: "mem_state \<Rightarrow> u32 \<Rightarrow> nat \<Rightarrow> mem_state" where
  "mem_zero m a 0 = m"
| "mem_zero m a (Suc n) = mem_zero (mem_w8 m a 0) (a + 1) n"

fun mem_cstr_upto :: "mem_state \<Rightarrow> u32 \<Rightarrow> nat \<Rightarrow> u8 list" where
  "mem_cstr_upto m a 0 = []"
| "mem_cstr_upto m a (Suc n) =
     (let c = mem_r8 m a in if c = 0 then [] else c # mem_cstr_upto m (a + 1) n)"

definition mem_cstr :: "mem_state \<Rightarrow> u32 \<Rightarrow> nat \<Rightarrow> u8 list" where
  "mem_cstr m a mx = mem_cstr_upto m a (mx - 1)"

text \<open>The interleaver's pool RAM: \<open>NPAGES\<close> is \<open>2 ^ 20\<close>, so the page index is the whole
  page number of the select value.\<close>

definition cmram_page_of :: "mem_state \<Rightarrow> u32 \<Rightarrow> page" where
  "cmram_page_of m sel =
     (case mem_cmram m (page_no sel AND 0xFFFFF) of None \<Rightarrow> zero_page | Some p \<Rightarrow> p)"

definition cmram_r32 :: "mem_state \<Rightarrow> u32 \<Rightarrow> u32" where
  "cmram_r32 m sel =
     (let p = cmram_page_of m sel; o4 = sel AND 4092
      in be32 (p o4) (p (o4 + 1)) (p (o4 + 2)) (p (o4 + 3)))"

definition cmram_w32 :: "mem_state \<Rightarrow> u32 \<Rightarrow> u32 \<Rightarrow> mem_state" where
  "cmram_w32 m sel v =
     (let o4 = sel AND 4092
      in m\<lparr>mem_cmram := (mem_cmram m)(page_no sel AND 0xFFFFF \<mapsto>
            (cmram_page_of m sel)(o4 := byte_of 0 v, o4 + 1 := byte_of 1 v,
                                  o4 + 2 := byte_of 2 v, o4 + 3 := byte_of 3 v))\<rparr>)"

section \<open>Folding of addresses\<close>

text \<open>The folding in plain arithmetic.\<close>

lemma unat_and_31: "unat (a AND 0x7FFFFFFF :: u32) = unat a mod 2147483648"
  using unat_and_mask[of a 31] by (simp add: mask_eq_exp_minus_1)

lemma unat_cphys [page_arith]:
  "unat (cphys m a) =
     (if realmm m \<and> 2147483648 \<le> unat a \<and> unat a < 3221225472 then unat a - 2147483648
      else if 4177526784 \<le> unat a \<and> unat a < 4178051072 then
        (if realmm m then 81920 else 3221307392) + unat a mod 8192
      else unat a)"
proof -
  have r: "2147483648 \<le> unat a \<Longrightarrow> unat (a AND 0x7FFFFFFF) = unat a - 2147483648"
    using unat_u32_bound[of a] by (simp add: unat_and_31 le_mod_geq)
  have v: "unat ((a - 0xF9000000) mod 0x2000) = unat a mod 8192" if "4177526784 \<le> unat a"
  proof -
    from that obtain d where d: "unat a = 4177526784 + d" by (auto simp: le_iff_add)
    have "(0xF9000000 :: u32) \<le> a" using that by (simp add: word_le_nat_alt)
    then have "unat (a - 0xF9000000) = d" by (simp add: unat_sub d)
    moreover have "unat a mod 8192 = d mod 8192"
    proof -
      have "unat a = d + 509952 * 8192" by (simp add: d)
      then show ?thesis by (simp only: mod_mult_self1)
    qed
    ultimately show ?thesis by (simp add: unat_mod_distrib)
  qed
  have s: "unat (t + (a - 0xF9000000) mod 0x2000) = unat t + unat a mod 8192"
    if "4177526784 \<le> unat a" "unat t < 4000000000" for t :: u32
    using that v by (subst unat_add_small) (auto simp: v intro: order_less_trans [OF add_less_le_mono])
  show ?thesis
    using r s by (auto simp: cphys_def word_le_nat_alt word_less_nat_alt)
qed

lemma cphys_off [simp]: "page_off (cphys m a) = page_off a"
proof -
  have "(unat a - 2147483648) mod 4096 = unat a mod 4096" if "2147483648 \<le> unat a"
    using that mod_eq_dvd_iff_nat[of "unat a - 2147483648" "unat a" 4096] by simp
  moreover have "(81920 + unat a mod 8192) mod 4096 = unat a mod 4096"
    by (simp add: mod_add_eq [symmetric] mod_mod_cancel)
  moreover have "(3221307392 + unat a mod 8192) mod 4096 = unat a mod 4096"
    by (simp add: mod_add_eq [symmetric] mod_mod_cancel)
  ultimately show ?thesis
    by (simp add: word_unat_eq_iff unat_page_off unat_cphys)
qed

lemma cphys_page:
  assumes "page_no a = page_no b"
  shows "page_no (cphys m a) = page_no (cphys m b)"
proof -
  have q: "unat a div 4096 = unat b div 4096"
    using assms by (simp add: word_unat_eq_iff unat_page_no)
  have r: "(4096 * c \<le> unat a) = (4096 * c \<le> unat b)" for c
  proof -
    have "(4096 * c \<le> x) = (c \<le> x div 4096)" for x
      by (simp add: less_eq_div_iff_mult_less_eq mult.commute)
    with q show ?thesis by simp
  qed
  have c: "(2147483648 \<le> unat a) = (2147483648 \<le> unat b)"
    "(3221225472 \<le> unat a) = (3221225472 \<le> unat b)"
    "(4177526784 \<le> unat a) = (4177526784 \<le> unat b)"
    "(4178051072 \<le> unat a) = (4178051072 \<le> unat b)"
    using r[of 524288] r[of 786432] r[of 1019904] r[of 1020032] by simp_all
  have sub: "(x - 2147483648) div 4096 = x div 4096 - 524288" for x :: nat
  proof (cases "2147483648 \<le> x")
    case True
    then obtain d where d: "x = d + 524288 * 4096" by (auto simp: le_iff_add)
    then have "x div 4096 = d div 4096 + 524288" by (simp only: div_mult_self1)
    with d show ?thesis by simp
  next
    case False
    then have "x div 4096 \<le> 524288" by (simp add: less_mult_imp_div_less order_less_imp_le)
    with False show ?thesis by simp
  qed
  have win: "(4096 * c + x mod 8192) div 4096 = c + (x div 4096) mod 2" for x c :: nat
  proof -
    have "(4096 * c + x mod 8192) div 4096 = c + (x mod 8192) div 4096" by simp
    also have "(x mod 8192) div 4096 = (x div 4096) mod 2"
      using mod_mult2_eq[of x 4096 2] by simp
    finally show ?thesis .
  qed
  show ?thesis
    using c q win[of 20] win[of 786452]
    by (simp add: word_unat_eq_iff unat_page_no unat_cphys sub linorder_not_le [symmetric])
qed

text \<open>Folding is idempotent: a folded address is already on the node.\<close>

lemma cphys_idem: "cphys m (cphys m a) = cphys m a"
proof -
  have "unat a mod 8192 < 8192" by simp
  then show ?thesis
    using unat_u32_bound[of a] by (auto simp: word_unat_eq_iff unat_cphys)
qed

lemma page_split: "page_no a = page_no b \<Longrightarrow> page_off a = page_off b \<Longrightarrow> a = b"
  by (metis div_mult_mod_eq unat_page_no unat_page_off word_unat_eq_iff)

lemma cphys_eq_iff: "cphys m a = cphys m b \<longleftrightarrow> page_no (cphys m a) = page_no (cphys m b) \<and> page_off a = page_off b"
  by (metis cphys_off page_split)

section \<open>The flat memory behind the pages\<close>

definition flat :: "mem_state \<Rightarrow> u32 \<Rightarrow> u8" where
  "flat m p = (case mem_pages m (page_no p) of None \<Rightarrow> 0 | Some pg \<Rightarrow> pg (page_off p))"

lemma mem_r8_flat: "mem_r8 m a = flat m (cphys m a)"
  by (simp add: mem_r8_def page_of_def flat_def zero_page_def split: option.split)

lemma cphys_set_page [simp]: "cphys (set_page m a p) = cphys m"
  by (simp add: fun_eq_iff cphys_def set_page_def)

lemma cphys_mem_w8 [simp]: "cphys (mem_w8 m a v) = cphys m"
  by (simp add: mem_w8_def)

lemma flat_mem_w8: "flat (mem_w8 m a v) = (flat m)(cphys m a := v)"
proof
  fix p
  show "flat (mem_w8 m a v) p = ((flat m)(cphys m a := v)) p"
    by (auto simp: flat_def mem_w8_def set_page_def page_of_def zero_page_def split: option.split
        dest: page_split)
qed

interpretation mem8: keyed_store mem_r8 mem_w8 cphys
  by unfold_locales (auto simp: mem_r8_flat flat_mem_w8)

section \<open>Words\<close>

text \<open>The in-page fast path of \<open>mem_r32\<close> and \<open>mem_w32\<close> is the four byte accesses.\<close>

lemma page_of_step:
  assumes "page_off a \<le> 4092" "unat i \<le> 3"
  shows "page_of m (a + i) = page_of m a"
  using cphys_page[OF page_step(1)[OF assms], of m] by (simp add: page_of_def)

lemma mem_r32_bytes:
  "mem_r32 m a = be32 (mem_r8 m a) (mem_r8 m (a + 1)) (mem_r8 m (a + 2)) (mem_r8 m (a + 3))"
proof (cases "page_off a \<le> 4092")
  case True
  then show ?thesis
    using page_of_step[OF True, of 1] page_of_step[OF True, of 2] page_of_step[OF True, of 3]
      page_step(2)[OF True, of 1] page_step(2)[OF True, of 2] page_step(2)[OF True, of 3]
    by (simp add: mem_r32_def mem_r8_def Let_def)
qed (simp add: mem_r32_def)

lemma page_of_set_page:
  "page_of (set_page m a p) b = (if page_no (cphys m a) = page_no (cphys m b) then p else page_of m b)"
  by (simp add: page_of_def) (simp add: set_page_def)

lemma set_page_twice:
  "page_no (cphys m a) = page_no (cphys m b) \<Longrightarrow> set_page (set_page m a p) b q = set_page m a q"
  by (simp add: set_page_def [of "set_page m a p"]) (simp add: set_page_def)

lemma mem_w32_bytes:
  "mem_w32 m a v =
     mem_w8 (mem_w8 (mem_w8 (mem_w8 m a (byte_of 0 v)) (a + 1) (byte_of 1 v))
                    (a + 2) (byte_of 2 v)) (a + 3) (byte_of 3 v)"
proof (cases "page_off a \<le> 4092")
  case True
  have pg: "page_no (cphys m (a + 1)) = page_no (cphys m a)"
    "page_no (cphys m (a + 2)) = page_no (cphys m a)"
    "page_no (cphys m (a + 3)) = page_no (cphys m a)"
    using page_step(1)[OF True, of 1] page_step(1)[OF True, of 2] page_step(1)[OF True, of 3]
    by (auto intro!: cphys_page)
  have off: "page_off (a + 1) = page_off a + 1" "page_off (a + 2) = page_off a + 2"
    "page_off (a + 3) = page_off a + 3"
    using page_step(2)[OF True, of 1] page_step(2)[OF True, of 2] page_step(2)[OF True, of 3] by auto
  show ?thesis
    using True
    by (simp add: mem_w32_def mem_w8_def Let_def page_of_set_page set_page_twice pg off)
qed (simp add: mem_w32_def Let_def)

lemma cphys_mem_w32 [simp]: "cphys (mem_w32 m a v) = cphys m"
  by (simp add: mem_w32_bytes)

lemma cphys_add_neq:
  assumes "unat i < 4096" "unat j < 4096" "i \<noteq> j"
  shows "cphys m (a + i) \<noteq> cphys m (a + j)"
  using page_off_add_neq[OF assms, of a] by (metis cphys_off)

lemma cphys_next_neq [simp]:
  "cphys m (a + 1) \<noteq> cphys m a" "cphys m (a + 2) \<noteq> cphys m a" "cphys m (a + 3) \<noteq> cphys m a"
  "cphys m (a + 2) \<noteq> cphys m (a + 1)" "cphys m (a + 3) \<noteq> cphys m (a + 1)"
  "cphys m (a + 3) \<noteq> cphys m (a + 2)"
  using cphys_add_neq[of _ 0 m a] cphys_add_neq[of _ _ m a] by auto

lemmas cphys_next_neq' [simp] = cphys_next_neq [symmetric]

lemma flat_mem_w32:
  "flat (mem_w32 m a v) =
     (flat m)(cphys m a := byte_of 0 v, cphys m (a + 1) := byte_of 1 v,
              cphys m (a + 2) := byte_of 2 v, cphys m (a + 3) := byte_of 3 v)"
  by (simp add: mem_w32_bytes flat_mem_w8)

lemma mem_r32_flat:
  "mem_r32 m a = be32 (flat m (cphys m a)) (flat m (cphys m (a + 1)))
                      (flat m (cphys m (a + 2))) (flat m (cphys m (a + 3)))"
  by (simp add: mem_r32_bytes mem_r8_flat)

text \<open>Reading back what was written, at every address, page-crossing and wrapping ones included.\<close>

lemma mem_r32_w32 [simp]: "mem_r32 (mem_w32 m a v) a = v"
  by (simp add: mem_r32_flat flat_mem_w32)

lemma mem_r16_w16 [simp]: "mem_r16 (mem_w16 m a v) a = v"
  by (simp add: mem_r16_def mem_w16_def mem_r8_flat flat_mem_w8)

definition cells32 :: "mem_state \<Rightarrow> u32 \<Rightarrow> u32 set" where
  "cells32 m a = {cphys m a, cphys m (a + 1), cphys m (a + 2), cphys m (a + 3)}"

lemma mem_r32_w32_other:
  "cells32 m a \<inter> cells32 m b = {} \<Longrightarrow> mem_r32 (mem_w32 m a v) b = mem_r32 m b"
  by (auto simp: mem_r32_flat flat_mem_w32 cells32_def)

text \<open>Two word-aligned addresses name the same four cells or none in common.\<close>

definition word_aligned :: "u32 \<Rightarrow> bool" where
  "word_aligned a \<longleftrightarrow> unat a mod 4 = 0"

lemma mod4_bound: "(x :: nat) < 4096 \<Longrightarrow> x mod 4 = 0 \<Longrightarrow> x \<le> 4092"
proof -
  assume x: "x < 4096" "x mod 4 = 0"
  have "x = 4 * (x div 4) + x mod 4" by simp
  moreover have "x div 4 < 1024" using x(1) by (intro less_mult_imp_div_less) simp
  ultimately show "x \<le> 4092" using x(2) by linarith
qed

lemma word_aligned_off:
  assumes "word_aligned a"
  shows "page_off a \<le> 4092" "unat (page_off a) mod 4 = 0"
proof -
  have "unat a mod 4096 mod 4 = unat a mod 4" by (rule mod_mod_cancel) simp
  then show m: "unat (page_off a) mod 4 = 0"
    using assms by (simp only: unat_page_off word_aligned_def)
  have "unat (page_off a) < 4096" by (simp add: unat_page_off)
  from mod4_bound[OF this m] show "page_off a \<le> 4092" by (simp add: word_le_nat_alt)
qed

lemma word_cell:
  assumes "word_aligned a" "unat i \<le> 3"
  shows "page_no (cphys m (a + i)) = page_no (cphys m a)"
    and "unat (page_off (a + i)) = unat (page_off a) + unat i"
proof -
  note s = page_step[OF word_aligned_off(1)[OF assms(1)] assms(2)]
  show "page_no (cphys m (a + i)) = page_no (cphys m a)" by (rule cphys_page[OF s(1)])
  have "unat (page_off a) \<le> 4092" using word_aligned_off(1)[OF assms(1)] by (simp add: word_le_nat_alt)
  then show "unat (page_off (a + i)) = unat (page_off a) + unat i"
    unfolding s(2) using assms(2) by (intro unat_add_small) simp
qed

lemma word_cells_disjoint:
  assumes "word_aligned a" "word_aligned b" "cphys m a \<noteq> cphys m b"
  shows "cells32 m a \<inter> cells32 m b = {}"
proof -
  have "cphys m (a + i) \<noteq> cphys m (b + j)" if ij: "unat i \<le> 3" "unat j \<le> 3" for i j
  proof
    assume eq: "cphys m (a + i) = cphys m (b + j)"
    then have p: "page_no (cphys m a) = page_no (cphys m b)"
      using word_cell(1)[OF assms(1) ij(1)] word_cell(1)[OF assms(2) ij(2)] by metis
    have "page_off (a + i) = page_off (b + j)" using eq by (metis cphys_off)
    then have o: "unat (page_off a) + unat i = unat (page_off b) + unat j"
      using word_cell(2)[OF assms(1) ij(1)] word_cell(2)[OF assms(2) ij(2)] by metis
    have "x = y" if "x + i = y + j" "x mod 4 = 0" "y mod 4 = 0" "i \<le> 3" "j \<le> 3" for x y i j :: nat
      using that by presburger
    from this[OF o word_aligned_off(2)[OF assms(1)] word_aligned_off(2)[OF assms(2)] ij]
    have "page_off a = page_off b" by (simp only: word_unat_eq_iff)
    with p assms(3) show False by (metis cphys_eq_iff)
  qed
  from this[of 0 0] this[of 0 1] this[of 0 2] this[of 0 3] this[of 1 0] this[of 1 1] this[of 1 2] this[of 1 3]
    this[of 2 0] this[of 2 1] this[of 2 2] this[of 2 3] this[of 3 0] this[of 3 1] this[of 3 2] this[of 3 3]
  show ?thesis by (simp add: cells32_def)
qed

lemma rd32_wr32:
  assumes "word_aligned a" "word_aligned b"
  shows "mem_r32 (mem_w32 m a v) b = (if cphys m a = cphys m b then v else mem_r32 m b)"
proof (cases "cphys m a = cphys m b")
  case True
  then have pq: "page_no (cphys m a) = page_no (cphys m b)" "page_off a = page_off b"
    by (simp_all only: cphys_eq_iff)
  have "cphys m (a + i) = cphys m (b + i)" if "unat i \<le> 3" for i
    unfolding cphys_eq_iff
    by (simp add: word_cell(1)[OF assms(1) that] word_cell(1)[OF assms(2) that] pq(1) word_unat_eq_iff
        word_cell(2)[OF assms(1) that] word_cell(2)[OF assms(2) that] pq(2))
  from this[of 1] this[of 2] this[of 3] True
  have "mem_r32 (mem_w32 m a v) b = mem_r32 (mem_w32 m a v) a"
    unfolding mem_r32_flat cphys_mem_w32 by simp
  with True show ?thesis by simp
next
  case False
  then show ?thesis
    using mem_r32_w32_other[OF word_cells_disjoint[OF assms False]] by simp
qed

lemma realmm_writes [simp]:
  "realmm (set_page m a p) = realmm m" "realmm (mem_w8 m a b) = realmm m"
  "realmm (mem_w16 m a h) = realmm m" "realmm (mem_w32 m a v) = realmm m"
  "realmm (cmram_w32 m a v) = realmm m"
  by (simp_all add: set_page_def mem_w8_def mem_w16_def mem_w32_def cmram_w32_def Let_def)

lemma realmm_load [simp]: "realmm (mem_load m a bs) = realmm m"
  by (induction bs arbitrary: m a) auto

lemma realmm_zero [simp]: "realmm (mem_zero m a n) = realmm m"
  by (induction n arbitrary: m a) auto

section \<open>Ranges\<close>

lemma cphys_mem_load [simp]: "cphys (mem_load m a bs) = cphys m"
  by (induction bs arbitrary: m a) auto

lemma mem_load_fold:
  "mem_load m a bs = fold (\<lambda>(a, b) m. mem_w8 m a b) (zip (map (\<lambda>i. a + of_nat i) [0..<length bs]) bs) m"
proof (induction bs arbitrary: m a)
  case (Cons b bs)
  have "map (\<lambda>i. a + of_nat i) [0..<Suc (length bs)] =
      a # map (\<lambda>i. a + 1 + of_nat i) [0..<length bs]"
    by (simp add: upt_conv_Cons map_Suc_upt [symmetric] comp_def add.assoc del: upt_Suc)
  then show ?case by (simp add: Cons.IH del: upt_Suc)
qed simp

lemma mem_load_other:
  "(\<forall>i < length bs. cphys m (a + of_nat i) \<noteq> cphys m b) \<Longrightarrow> mem_r8 (mem_load m a bs) b = mem_r8 m b"
  unfolding mem_load_fold
  by (intro mem8.get_puts_other) (force simp: set_zip)

text \<open>A buffer loaded where its bytes have distinct cells is read back byte for byte.\<close>

lemma mem_load_read:
  assumes "inj_on (\<lambda>i. cphys m (a + of_nat i)) {..<length bs}" "i < length bs"
  shows "mem_r8 (mem_load m a bs) (a + of_nat i) = bs ! i"
  unfolding mem_load_fold
proof (rule mem8.get_puts)
  let ?kvs = "zip (map (\<lambda>i. a + of_nat i) [0..<length bs]) bs"
  have "map (\<lambda>(a, v). cphys m a) ?kvs = map (\<lambda>i. cphys m (a + of_nat i)) [0..<length bs]"
    by (rule nth_equalityI) auto
  moreover have "distinct (map (\<lambda>i. cphys m (a + of_nat i)) [0..<length bs])"
    using assms(1) by (auto simp: distinct_map inj_on_def)
  ultimately show "distinct (map (\<lambda>(a, v). cphys m a) ?kvs)" by simp
  show "(a + of_nat i, bs ! i) \<in> set ?kvs"
    using assms(2) by (auto simp: set_zip intro!: exI[of _ i])
qed simp

lemma cphys_inj_page:
  assumes "n \<le> 4096"
  shows "inj_on (\<lambda>i. cphys m (a + of_nat i)) {..<n}"
proof (rule inj_onI)
  fix i j assume ij: "i \<in> {..<n}" "j \<in> {..<n}"
    and eq: "cphys m (a + of_nat i) = cphys m (a + of_nat j)"
  have u: "unat (of_nat k :: u32) = k" if "k < n" for k
    using that assms by (simp add: unat_of_nat_small)
  show "i = j"
  proof (rule ccontr)
    assume "i \<noteq> j"
    then have "(of_nat i :: u32) \<noteq> of_nat j" using u ij by (metis lessThan_iff)
    with cphys_add_neq[of "of_nat i" "of_nat j" m a] u ij assms eq show False by simp
  qed
qed

lemma mem_load_read_page:
  "length bs \<le> 4096 \<Longrightarrow> i < length bs \<Longrightarrow> mem_r8 (mem_load m a bs) (a + of_nat i) = bs ! i"
  by (rule mem_load_read[OF cphys_inj_page])

lemma mem_zero_load: "mem_zero m a n = mem_load m a (replicate n 0)"
  by (induction n arbitrary: m a) auto

lemma length_mem_cstr_upto: "length (mem_cstr_upto m a n) \<le> n"
  by (induction n arbitrary: a) (auto simp: Let_def)

section \<open>The interleaver RAM\<close>

text \<open>The select value names a 4-byte slot of storage separate from main memory.\<close>

lemma and_fffff: "page_no sel AND 0xFFFFF = page_no sel"
proof -
  have "page_no sel AND 0xFFFFF = take_bit 20 (page_no sel)"
    by (simp add: take_bit_eq_mask mask_eq_exp_minus_1)
  moreover have "unat (take_bit 20 (page_no sel)) = unat (page_no sel)"
    using page_bound[of sel] by (simp only: unsigned_take_bit_eq) (simp add: take_bit_eq_mod)
  ultimately show ?thesis by (simp add: word_unat_eq_iff)
qed

text \<open>The slot a select value names, as a page and a 4-byte cell in it.\<close>

definition cmram_key :: "u32 \<Rightarrow> u32 \<times> u32" where
  "cmram_key sel = (page_no sel, sel AND 4092)"

lemma cmram_slot_base:
  fixes x i :: u32
  assumes "i \<in> {0, 1, 2, 3}"
  shows "((x AND 4092) + i) AND 4092 = x AND 4092"
proof -
  have z: "(4092 :: u32) AND i = 0" using assms by auto
  have "(x AND 4092) AND i = x AND (4092 AND i)" by (simp only: and.assoc)
  then have "(x AND 4092) + i = (x AND 4092) OR i"
    by (intro disjunctive_add_eq_or) (simp add: z)
  moreover have "((x AND 4092) OR i) AND 4092 = x AND 4092"
    using z by (simp add: bit.conj_disj_distrib2 and.assoc and.commute[of i])
  ultimately show ?thesis by simp
qed

lemma cmram_slots_neq:
  fixes x y i j :: u32
  assumes "x AND 4092 \<noteq> y AND 4092" "i \<in> {0, 1, 2, 3}" "j \<in> {0, 1, 2, 3}"
  shows "(x AND 4092) + i \<noteq> (y AND 4092) + j"
  using assms cmram_slot_base by metis

lemma cmram_key_put: "cmram_page_of (cmram_w32 m sel v) = (\<lambda>s.
    if page_no s = page_no sel
    then (cmram_page_of m sel)((sel AND 4092) := byte_of 0 v, (sel AND 4092) + 1 := byte_of 1 v,
           (sel AND 4092) + 2 := byte_of 2 v, (sel AND 4092) + 3 := byte_of 3 v)
    else cmram_page_of m s)"
  by (rule ext) (auto simp: cmram_w32_def cmram_page_of_def Let_def and_fffff)

interpretation cmram: keyed_store cmram_r32 cmram_w32 "\<lambda>_. cmram_key"
proof
  fix s :: mem_state and a b v
  show "cmram_r32 (cmram_w32 s a v) b = (if cmram_key a = cmram_key b then v else cmram_r32 s b)"
  proof (cases "a AND 4092 = b AND 4092")
    case True
    then show ?thesis by (simp add: cmram_r32_def cmram_key_put cmram_key_def Let_def cmram_page_of_def)
  next
    case False
    have n: "\<forall>i \<in> {0, 1, 2, 3}. \<forall>j \<in> {0, 1, 2, 3}. (b AND 4092) + i \<noteq> (a AND 4092) + j"
      using cmram_slots_neq[OF False [symmetric]] by blast
    then show ?thesis
      using False by (simp add: cmram_r32_def cmram_key_put cmram_key_def Let_def) 
        (simp add: cmram_page_of_def)
  qed
qed simp

section \<open>Properties\<close>

text \<open>C15. The paged memory, its fast paths included, is a flat array of bytes seen through the folding:
  byte and word accesses at any address, aligned, page-crossing or wrapping, read and write the
  four cells of the big-endian word and no other.\<close>

theorem mem_refines_flat:
  "mem_r8 m a = flat m (cphys m a) \<and>
   flat (mem_w8 m a b) = (flat m)(cphys m a := b) \<and>
   mem_r32 m a = be32 (flat m (cphys m a)) (flat m (cphys m (a + 1)))
                      (flat m (cphys m (a + 2))) (flat m (cphys m (a + 3))) \<and>
   flat (mem_w32 m a v) = (flat m)(cphys m a := byte_of 0 v, cphys m (a + 1) := byte_of 1 v,
       cphys m (a + 2) := byte_of 2 v, cphys m (a + 3) := byte_of 3 v)"
  by (simp only: mem_r8_flat flat_mem_w8 mem_r32_flat flat_mem_w32)

text \<open>A stored word is read back, at every address, and a word whose cells are disjoint from the
  stored one is unchanged.\<close>

theorem mem_word_store:
  "mem_r32 (mem_w32 m a v) a = v \<and>
   (cells32 m a \<inter> cells32 m b = {} \<longrightarrow> mem_r32 (mem_w32 m a v) b = mem_r32 m b)"
  by (simp add: mem_r32_w32_other)

theorem mem_word_store_witness:
  "mem_r32 (mem_w32 \<lparr>mem_pages = (\<lambda>_. None), mem_cmram = (\<lambda>_. None), realmm = True\<rparr> 0x1FFE 7) 0x2004
   = mem_r32 \<lparr>mem_pages = (\<lambda>_. None), mem_cmram = (\<lambda>_. None), realmm = True\<rparr> 0x2004"
proof -
  let ?m = "\<lparr>mem_pages = (\<lambda>_. None), mem_cmram = (\<lambda>_. None), realmm = True\<rparr>"
  have "cells32 ?m 0x1FFE \<inter> cells32 ?m 0x2004 = {}" by (simp add: cells32_def cphys_def)
  then show ?thesis using mem_word_store[of ?m "0x1FFE" 7 "0x2004"] by simp
qed

text \<open>On the real memory map the interleaved view of RAM is the same storage as the node's own
  view: a word stored through either address is read back through the other.\<close>

theorem interleaved_alias:
  assumes "realmm m" "a < 0x3FFFFFFD"
  shows "mem_r32 (mem_w32 m a v) (a + 0x80000000) = v \<and>
         mem_r32 (mem_w32 m (a + 0x80000000) v) a = v"
proof -
  have a: "unat a < 1073741821" using assms(2) by (simp add: word_less_nat_alt)
  have c: "cphys m (a + i + 0x80000000) = cphys m (a + i)" if "unat i \<le> 3" for i
  proof -
    have i: "unat (a + i) = unat a + unat i" using a that by (subst unat_add_small) simp_all
    have "unat (a + i + 0x80000000) = unat a + unat i + 2147483648"
      using a that i by (subst unat_add_small) simp_all
    with i a that assms(1) show ?thesis by (simp add: word_unat_eq_iff unat_cphys)
  qed
  have "cphys m (a + 0x80000000) = cphys m a"
    "cphys m (a + 0x80000000 + 1) = cphys m (a + 1)"
    "cphys m (a + 0x80000000 + 2) = cphys m (a + 2)"
    "cphys m (a + 0x80000000 + 3) = cphys m (a + 3)"
    using c[of 0] c[of 1] c[of 2] c[of 3] by (simp_all add: ac_simps)
  then show ?thesis by (simp add: mem_r32_flat flat_mem_w32)
qed

theorem interleaved_alias_witness:
  "mem_r32 (mem_w32 \<lparr>mem_pages = (\<lambda>_. None), mem_cmram = (\<lambda>_. None), realmm = True\<rparr> 0x110000 9)
     0x80110000 = 9"
  using interleaved_alias[of "\<lparr>mem_pages = (\<lambda>_. None), mem_cmram = (\<lambda>_. None), realmm = True\<rparr>"
    "0x110000" 9] by simp

text \<open>A buffer of at most a page is read back byte for byte from where it was loaded, at any
  address, and nothing but its cells changes.\<close>

theorem mem_load_readback:
  assumes "length bs \<le> 4096"
  shows "(\<forall>i < length bs. mem_r8 (mem_load m a bs) (a + of_nat i) = bs ! i) \<and>
    (\<forall>b. (\<forall>i < length bs. cphys m (a + of_nat i) \<noteq> cphys m b) \<longrightarrow>
       mem_r8 (mem_load m a bs) b = mem_r8 m b)"
  using mem_load_read_page[OF assms] mem_load_other by blast

theorem mem_load_readback_witness:
  "mem_r8 (mem_load \<lparr>mem_pages = (\<lambda>_. None), mem_cmram = (\<lambda>_. None), realmm = True\<rparr> 0x80000FFF [1, 2, 3])
     (0x80000FFF + of_nat 2) = [1, 2, 3] ! 2"
proof -
  have "length [1, 2, 3 :: u8] \<le> 4096" by simp
  from conjunct1[OF mem_load_readback[OF this]] show ?thesis
    by (rule allE) (erule mp, simp)
qed

text \<open>The interleaver RAM is a store of its own: a select value names one 4-byte slot, writing
  it changes no other slot, and neither RAM is visible through the other.\<close>

theorem cmram_separate:
  "cmram_r32 (cmram_w32 m s v) t = (if cmram_key s = cmram_key t then v else cmram_r32 m t) \<and>
   mem_r32 (cmram_w32 m s v) a = mem_r32 m a \<and> cmram_r32 (mem_w32 m a v) t = cmram_r32 m t"
proof -
  have "cphys (cmram_w32 m s v) = cphys m"
    by (simp add: fun_eq_iff cphys_def)
  moreover have "flat (cmram_w32 m s v) = flat m"
    by (simp add: fun_eq_iff flat_def cmram_w32_def Let_def)
  moreover have "cmram_page_of (mem_w32 m a v) = cmram_page_of m"
    by (simp add: fun_eq_iff cmram_page_of_def mem_w32_bytes mem_w8_def set_page_def)
  ultimately show ?thesis
    by (simp add: mem_r32_flat cmram.get_put cmram_r32_def[of "mem_w32 m a v"] cmram_r32_def[of m])
qed

end
