(* ===== verification/Machine.thy ===== *)
theory Machine
  imports Memory
begin

text \<open>
  The machine state: the globals of \<^verbatim>\<open>globals.c\<close> that the emulated machine depends on, grouped by
  the subsystem that owns them, with the register accessors \<open>RD\<close> and \<open>WR\<close> of \<^verbatim>\<open>nx88.h\<close>.

  Globals that only steer printing are not here, since nothing the machine computes reads them; those of
  the instruments are in \<^verbatim>\<open>Diag\<close>.  C's \<open>int\<close> flags are \<open>bool\<close>, \<open>u64\<close> counters are
  64-bit words, and a \<open>FILE *\<close> opened on an image is the list of its bytes, \<open>None\<close> when it was
  not opened.
\<close>

section \<open>The processor\<close>

record cpu_state =
  cpu_r :: "u32 \<Rightarrow> u32"           \<comment> \<open>\<open>u32 r[32]\<close>\<close>
  cpu_cr :: "u32 \<Rightarrow> u32"          \<comment> \<open>\<open>u32 cr[64]\<close>\<close>
  cpu_pc :: u32
  cpu_pending :: u32              \<comment> \<open>delay-slot branch target\<close>
  cpu_has_pending :: bool
  cpu_count :: u64

section \<open>Address translation\<close>

record tlb_ent =
  tlb_tag :: u32
  tlb_pa :: u32

text \<open>The pending user page fault: \<open>ufault_pending\<close> and the five words that describe it.\<close>

record ufault_state =
  ufault_pending :: bool
  ufault_va :: u32
  ufault_pc :: u32
  ufault_code :: bool
  ufault_write :: bool
  ufault_width :: u32

record mmu_stats =
  kwalk_user :: u64
  cow_faults :: u64
  kdis_n :: u64
  kfall_n :: u64
  xlat_faults :: u64
  last_fault_va :: u32
  last_fault_pc :: u32
  probe_hits :: u64
  probe_misses :: u64

record mmu_state =
  translate_on :: bool
  kdata_va :: u32
  kdata_off :: u32
  ktab_bias :: u32
  ptpool_next :: u32
  devmap :: "(u32 \<times> u32) list"    \<comment> \<open>\<open>devmap[0..ndevmap)\<close>, VA and PA\<close>
  tlb :: "bool \<Rightarrow> u32 \<Rightarrow> tlb_ent"  \<comment> \<open>\<open>tlb[code][index]\<close>\<close>
  scratch_cached :: u32           \<comment> \<open>the static of \<open>scratch_base\<close>\<close>
  xlat_write :: bool
  ufault :: ufault_state
  stats :: mmu_stats

section \<open>Devices and configuration\<close>

record dev_state =
  irq_source :: u32
  sha_status :: u16
  sha_done_status :: u32
  sha_desc_clear :: u32
  cmmu_present :: "u32 list"      \<comment> \<open>\<open>cmmu_present[0..n_cmmu)\<close>\<close>
  cmram_sel :: u32
  cmram_reads :: u64
  cmram_writes :: u64
  tcs_mbox_pa :: u32
  tcs_commands :: u64
  tick_scale :: u32
  tick_div :: u32
  clock_deadline :: u32
  clock_irq :: bool
  clock_armed :: bool
  clock_enabled :: bool
  clock_period :: u64
  next_clock :: u64
  clock_ticks :: u64
  softint_period :: u64
  next_softint :: u64
  softint_ticks :: u64
  disk_img :: "u8 list option"
  root_img :: "u8 list option"
  root_dev_vp :: u32
  disk_wrote :: bool

record config =
  procexp :: bool
  sha_sync :: bool
  biowait_sync :: bool
  skip_synchrtc :: bool
  force_sig_pc :: u32
  force_sig_val :: u32
  fl_stride :: u32

record machine =
  mem :: mem_state
  cpu :: cpu_state
  mmu :: mmu_state
  dev :: dev_state
  cfg :: config
  sysmode :: bool
  in_kcall :: bool
  trap_taken :: bool
  trap_vector :: u32
  trap_pc :: u32

text \<open>The values at program start.\<close>

definition cpu0 :: cpu_state where
  "cpu0 = \<lparr>cpu_r = (\<lambda>_. 0), cpu_cr = (\<lambda>_. 0), cpu_pc = 0, cpu_pending = 0,
     cpu_has_pending = False, cpu_count = 0\<rparr>"

definition mem0 :: mem_state where
  "mem0 = \<lparr>mem_pages = (\<lambda>_. None), mem_cmram = (\<lambda>_. None), realmm = False\<rparr>"

definition mmu0 :: mmu_state where
  "mmu0 = \<lparr>translate_on = False, kdata_va = 0, kdata_off = 0, ktab_bias = 0,
     ptpool_next = 0xDF000000, devmap = [], tlb = (\<lambda>_ _. \<lparr>tlb_tag = 0, tlb_pa = 0\<rparr>),
     scratch_cached = 0, xlat_write = False,
     ufault = \<lparr>ufault_pending = False, ufault_va = 0, ufault_pc = 0, ufault_code = False,
       ufault_write = False, ufault_width = 0\<rparr>,
     stats = \<lparr>kwalk_user = 0, cow_faults = 0, kdis_n = 0, kfall_n = 0, xlat_faults = 0,
       last_fault_va = 0, last_fault_pc = 0, probe_hits = 0, probe_misses = 0\<rparr>\<rparr>"

definition dev0 :: dev_state where
  "dev0 = \<lparr>irq_source = 0, sha_status = 0, sha_done_status = 0x20, sha_desc_clear = 4,
     cmmu_present = [0xFFF7F000, 0xFFF7E000], cmram_sel = 0, cmram_reads = 0, cmram_writes = 0,
     tcs_mbox_pa = 0xFE001800, tcs_commands = 0, tick_scale = 2000, tick_div = 0,
     clock_deadline = 0, clock_irq = False, clock_armed = True, clock_enabled = False,
     clock_period = 100000, next_clock = 0, clock_ticks = 0, softint_period = 0,
     next_softint = 0, softint_ticks = 0, disk_img = None, root_img = None, root_dev_vp = 0,
     disk_wrote = False\<rparr>"

definition cfg0 :: config where
  "cfg0 = \<lparr>procexp = False, sha_sync = True, biowait_sync = True, skip_synchrtc = True,
     force_sig_pc = 0, force_sig_val = 0, fl_stride = 0x2000\<rparr>"

definition machine0 :: machine where
  "machine0 = \<lparr>mem = mem0, cpu = cpu0, mmu = mmu0, dev = dev0, cfg = cfg0, sysmode = False,
     in_kcall = False, trap_taken = False, trap_vector = 0, trap_pc = 0\<rparr>"

section \<open>Registers\<close>

text \<open>
  \<open>RD\<close> and \<open>WR\<close> hard-wire \<open>r0\<close> to zero.  The doubleword accesses name \<open>D + 1\<close>, which is 32 when
  \<open>D\<close> is 31: \<open>cpu.r[32]\<close> is one past the array, and in the \<open>CPU\<close> struct the word that follows
  \<open>r[31]\<close> is \<open>cr[0]\<close>.  The model resolves such an index the way that layout does.
\<close>

definition RD :: "machine \<Rightarrow> u32 \<Rightarrow> u32" where
  "RD m n = (if n = 0 then 0 else if n < 32 then cpu_r (cpu m) n else cpu_cr (cpu m) (n - 32))"

definition WR :: "machine \<Rightarrow> u32 \<Rightarrow> u32 \<Rightarrow> machine" where
  "WR m n v =
     (if n = 0 then m
      else if n < 32 then m\<lparr>cpu := (cpu m)\<lparr>cpu_r := (cpu_r (cpu m))(n := v)\<rparr>\<rparr>
      else m\<lparr>cpu := (cpu m)\<lparr>cpu_cr := (cpu_cr (cpu m))(n - 32 := v)\<rparr>\<rparr>)"

abbreviation CR :: "machine \<Rightarrow> u32 \<Rightarrow> u32" where
  "CR m i \<equiv> cpu_cr (cpu m) i"

abbreviation pc :: "machine \<Rightarrow> u32" where
  "pc m \<equiv> cpu_pc (cpu m)"

definition set_cr :: "machine \<Rightarrow> u32 \<Rightarrow> u32 \<Rightarrow> machine" where
  "set_cr m i v = m\<lparr>cpu := (cpu m)\<lparr>cpu_cr := (cpu_cr (cpu m))(i := v)\<rparr>\<rparr>"

definition set_pc :: "machine \<Rightarrow> u32 \<Rightarrow> machine" where
  "set_pc m v = m\<lparr>cpu := (cpu m)\<lparr>cpu_pc := v\<rparr>\<rparr>"

text \<open>Supervisor mode is bit 31 of the PSR, \<open>cr1\<close>.\<close>

definition supervisor :: "machine \<Rightarrow> bool" where
  "supervisor m \<longleftrightarrow> CR m 1 AND 0x80000000 \<noteq> 0"

text \<open>Physical memory of the whole machine.\<close>

abbreviation rd8 :: "machine \<Rightarrow> u32 \<Rightarrow> u8" where "rd8 m a \<equiv> mem_r8 (mem m) a"
abbreviation rd16 :: "machine \<Rightarrow> u32 \<Rightarrow> u16" where "rd16 m a \<equiv> mem_r16 (mem m) a"
abbreviation rd32 :: "machine \<Rightarrow> u32 \<Rightarrow> u32" where "rd32 m a \<equiv> mem_r32 (mem m) a"
abbreviation wr8 :: "machine \<Rightarrow> u32 \<Rightarrow> u8 \<Rightarrow> machine" where
  "wr8 m a v \<equiv> m\<lparr>mem := mem_w8 (mem m) a v\<rparr>"
abbreviation wr16 :: "machine \<Rightarrow> u32 \<Rightarrow> u16 \<Rightarrow> machine" where
  "wr16 m a v \<equiv> m\<lparr>mem := mem_w16 (mem m) a v\<rparr>"
abbreviation wr32 :: "machine \<Rightarrow> u32 \<Rightarrow> u32 \<Rightarrow> machine" where
  "wr32 m a v \<equiv> m\<lparr>mem := mem_w32 (mem m) a v\<rparr>"

section \<open>Register facts\<close>

text \<open>Everything but the processor is untouched by a register write.\<close>

lemma WR_frame [simp]:
  "mem (WR m n v) = mem m" "mmu (WR m n v) = mmu m" "dev (WR m n v) = dev m"
  "cfg (WR m n v) = cfg m" "sysmode (WR m n v) = sysmode m" "in_kcall (WR m n v) = in_kcall m"
  "trap_taken (WR m n v) = trap_taken m" "trap_vector (WR m n v) = trap_vector m"
  "trap_pc (WR m n v) = trap_pc m" "pc (WR m n v) = pc m"
  "cpu_pending (cpu (WR m n v)) = cpu_pending (cpu m)"
  "cpu_has_pending (cpu (WR m n v)) = cpu_has_pending (cpu m)"
  "cpu_count (cpu (WR m n v)) = cpu_count (cpu m)"
  by (simp_all add: WR_def)

lemma set_pc_frame [simp]:
  "mem (set_pc m v) = mem m" "mmu (set_pc m v) = mmu m" "dev (set_pc m v) = dev m"
  "cfg (set_pc m v) = cfg m" "sysmode (set_pc m v) = sysmode m" "in_kcall (set_pc m v) = in_kcall m"
  "pc (set_pc m v) = v" "cpu_r (cpu (set_pc m v)) = cpu_r (cpu m)"
  "cpu_cr (cpu (set_pc m v)) = cpu_cr (cpu m)"
  "cpu_has_pending (cpu (set_pc m v)) = cpu_has_pending (cpu m)"
  "cpu_pending (cpu (set_pc m v)) = cpu_pending (cpu m)"
  by (simp_all add: set_pc_def)

lemma set_cr_frame [simp]:
  "mem (set_cr m i v) = mem m" "mmu (set_cr m i v) = mmu m" "dev (set_cr m i v) = dev m"
  "cfg (set_cr m i v) = cfg m" "sysmode (set_cr m i v) = sysmode m"
  "in_kcall (set_cr m i v) = in_kcall m"
  "pc (set_cr m i v) = pc m" "cpu_r (cpu (set_cr m i v)) = cpu_r (cpu m)"
  "cpu_cr (cpu (set_cr m i v)) = (cpu_cr (cpu m))(i := v)"
  "cpu_has_pending (cpu (set_cr m i v)) = cpu_has_pending (cpu m)"
  "cpu_pending (cpu (set_cr m i v)) = cpu_pending (cpu m)"
  by (simp_all add: set_cr_def)

lemma RD_0 [simp]: "RD m 0 = 0"
  by (simp add: RD_def)

lemma WR_0 [simp]: "WR m 0 v = m"
  by (simp add: WR_def)

lemma RD_WR: "n \<noteq> 0 \<Longrightarrow> RD (WR m n v) k = (if k = n then v else RD m k)"
  by (auto simp: RD_def WR_def)

end
