(* ===== verification/Mmu.thy ===== *)
theory Mmu
  imports Machine
begin

text \<open>
  Address translation (\<^verbatim>\<open>mmu.c\<close>): the two-level MC88200 walk, the devices mapped into kernel space,
  the per-side TLB, copy-on-write faults, \<open>translate\<close>, the CMMU probe command and the page tables
  built for the boot.

  Every function that may fill the TLB, record a fault or count an event returns the new machine
  beside its result.  What the lemmas show: translation never touches memory, registers or
  devices; a TLB entry that agrees with the tables answers as the walk does; a page fault is
  recorded once and is precise; the table-building loop ends and maps each page of its range.
\<close>

abbreviation (input) PAGE_SIZE :: u32 where "PAGE_SIZE \<equiv> 4096"
abbreviation (input) TLB_SIZE :: u32 where "TLB_SIZE \<equiv> 4096"
abbreviation (input) PTPOOL :: u32 where "PTPOOL \<equiv> 0xDF000000"
abbreviation (input) KOFF :: u32 where "KOFF \<equiv> 0xC0000000"
abbreviation (input) CODE_SEGTAB :: u32 where "CODE_SEGTAB \<equiv> 0xE0790000"
abbreviation (input) DATA_SEGTAB :: u32 where "DATA_SEGTAB \<equiv> 0x803F0000"
abbreviation (input) UAREA_LO :: u32 where "UAREA_LO \<equiv> 0xFBFFC000"
abbreviation (input) UAREA_HI :: u32 where "UAREA_HI \<equiv> 0xFC000000"
abbreviation (input) CMMU_SCR :: u32 where "CMMU_SCR \<equiv> 0x004"
abbreviation (input) CMMU_SSR :: u32 where "CMMU_SSR \<equiv> 0x008"
abbreviation (input) CMMU_SAR :: u32 where "CMMU_SAR \<equiv> 0x00C"
abbreviation (input) CMMU_PFSR :: u32 where "CMMU_PFSR \<equiv> 0x108"
abbreviation (input) CMMU_PFAR :: u32 where "CMMU_PFAR \<equiv> 0x10C"
abbreviation (input) CMMU_SAPR :: u32 where "CMMU_SAPR \<equiv> 0x200"
abbreviation (input) CMMU_UAPR :: u32 where "CMMU_UAPR \<equiv> 0x204"
abbreviation (input) PTE_WP :: u32 where "PTE_WP \<equiv> 0x4"

text \<open>The code CMMU sits at \<open>0xFFF7F000\<close>, the data CMMU below it.\<close>

definition cmmu_base :: "bool \<Rightarrow> u32" where
  "cmmu_base code = (if code then 0xFFF7F000 else 0xFFF7E000)"

section \<open>Table walk\<close>

definition tab_r32 :: "machine \<Rightarrow> u32 \<Rightarrow> bool \<Rightarrow> u32" where
  "tab_r32 m pa biased =
     (let v = rd32 m pa in
      if v AND 1 = 0 \<and> biased then
        (let alt = rd32 m ((pa AND 0x3FFFFFFF) + ktab_bias (mmu m))
         in if alt AND 1 \<noteq> 0 then alt else v)
      else v)"

definition seg_index :: "u32 \<Rightarrow> u32" where
  "seg_index va = drop_bit 22 va AND 0x3FF"

definition page_index :: "u32 \<Rightarrow> u32" where
  "page_index va = drop_bit 12 va AND 0x3FF"

text \<open>The walk itself: \<open>None\<close> on an empty area pointer, an invalid segment or an invalid page;
  otherwise the physical address and the page descriptor.\<close>

definition mmu_lookup :: "machine \<Rightarrow> u32 \<Rightarrow> u32 \<Rightarrow> (u32 \<times> u32) option" where
  "mmu_lookup m apr vaddr =
     (let segtab = apr AND 0xFFFFF000 in
      if segtab = 0 then None
      else
        (let biased = (ktab_bias (mmu m) \<noteq> 0 \<and> vaddr < 0xC0000000);
             sdesc = tab_r32 m (segtab + seg_index vaddr * 4) biased in
         if sdesc AND 1 = 0 then None
         else
           (let pgtab = sdesc AND 0xFFFFF000;
                pdesc_v = tab_r32 m (pgtab + page_index vaddr * 4) biased in
            if pdesc_v AND 1 = 0 then None
            else Some ((pdesc_v AND 0xFFFFF000) OR (vaddr AND 0xFFF), pdesc_v))))"

definition upd_stats :: "(mmu_stats \<Rightarrow> mmu_stats) \<Rightarrow> machine \<Rightarrow> machine" where
  "upd_stats f m = m\<lparr>mmu := (mmu m)\<lparr>stats := f (stats (mmu m))\<rparr>\<rparr>"

definition mmu_walk :: "machine \<Rightarrow> u32 \<Rightarrow> u32 \<Rightarrow> (u32 \<times> u32) option \<times> machine" where
  "mmu_walk m apr vaddr =
     (case mmu_lookup m apr vaddr of
        None \<Rightarrow> (None, m)
      | Some r \<Rightarrow>
          (Some r,
           if ktab_bias (mmu m) \<noteq> 0 \<and> vaddr < 0xC0000000
           then upd_stats (\<lambda>t. t\<lparr>kwalk_user := kwalk_user t + 1\<rparr>) m else m))"

section \<open>Device pages in kernel space\<close>

text \<open>The array has 512 entries; when it is full a new mapping is dropped.\<close>

definition devmap_put :: "(u32 \<times> u32) list \<Rightarrow> u32 \<Rightarrow> u32 \<Rightarrow> (u32 \<times> u32) list" where
  "devmap_put l va pa =
     (if va \<in> fst ` set l
      then (let i = length (takeWhile (\<lambda>e. fst e \<noteq> va) l) in l[i := (va, pa)])
      else if length l < 512 then l @ [(va, pa)] else l)"

definition devmap_add :: "machine \<Rightarrow> u32 \<Rightarrow> u32 \<Rightarrow> machine" where
  "devmap_add m va pa =
     m\<lparr>mmu := (mmu m)\<lparr>devmap :=
        devmap_put (devmap (mmu m)) (va AND NOT 0xFFF) (pa AND NOT 0xFFF)\<rparr>\<rparr>"

definition devmap_lookup :: "machine \<Rightarrow> u32 \<Rightarrow> u32" where
  "devmap_lookup m va =
     (case map_of (devmap (mmu m)) (va AND NOT 0xFFF) of None \<Rightarrow> 0 | Some pa \<Rightarrow> pa)"

text \<open>Walk the kernel's table, then the device pages and the synthetic tables.  The second result is
  the page descriptor, 0 where no walk supplied one.\<close>

definition walk_fb :: "machine \<Rightarrow> u32 \<Rightarrow> u32 \<Rightarrow> bool \<Rightarrow> (u32 \<times> u32) option \<times> machine" where
  "walk_fb m apr vaddr code =
     (case mmu_walk m apr vaddr of
        (Some r, m) \<Rightarrow> (Some r, m)
      | (None, m) \<Rightarrow>
          (let dp = devmap_lookup m vaddr in
           if realmm (mem m) \<and> devmap (mmu m) \<noteq> [] \<and> dp \<noteq> 0
           then (Some (dp OR (vaddr AND 0xFFF), 0), m)
           else if realmm (mem m) then
             (case mmu_walk m ((if code then CODE_SEGTAB else DATA_SEGTAB) OR 1) vaddr of
                (Some r, m) \<Rightarrow> (Some r, m)
              | (None, m) \<Rightarrow>
                  if vaddr \<ge> 0xE0000000 then (Some (vaddr, 0), m) else (None, m))
           else (None, m)))"

section \<open>The TLB and pending faults\<close>

definition empty_ent :: tlb_ent where
  "empty_ent = \<lparr>tlb_tag = 0, tlb_pa = 0\<rparr>"

definition tlb_flush :: "machine \<Rightarrow> machine" where
  "tlb_flush m = m\<lparr>mmu := (mmu m)\<lparr>tlb := (\<lambda>_ _. empty_ent)\<rparr>\<rparr>"

definition tlb_index :: "u32 \<Rightarrow> u32" where
  "tlb_index vpn = vpn AND (TLB_SIZE - 1)"

definition tlb_at :: "machine \<Rightarrow> bool \<Rightarrow> u32 \<Rightarrow> tlb_ent" where
  "tlb_at m code vpn = tlb (mmu m) code (tlb_index vpn)"

definition tlb_hit :: "machine \<Rightarrow> bool \<Rightarrow> u32 \<Rightarrow> bool" where
  "tlb_hit m code vpn \<longleftrightarrow> tlb_tag (tlb_at m code vpn) = vpn OR 0x80000000"

definition tlb_fill :: "machine \<Rightarrow> bool \<Rightarrow> u32 \<Rightarrow> u32 \<Rightarrow> machine" where
  "tlb_fill m code vpn pa =
     m\<lparr>mmu := (mmu m)\<lparr>tlb := (tlb (mmu m))(code :=
        (tlb (mmu m) code)(tlb_index vpn := \<lparr>tlb_tag = vpn OR 0x80000000, tlb_pa = pa\<rparr>))\<rparr>\<rparr>"

definition set_ufault :: "machine \<Rightarrow> ufault_state \<Rightarrow> machine" where
  "set_ufault m f = m\<lparr>mmu := (mmu m)\<lparr>ufault := f\<rparr>\<rparr>"

abbreviation fault_pending :: "machine \<Rightarrow> bool" where
  "fault_pending m \<equiv> ufault_pending (ufault (mmu m))"

text \<open>Record a write fault on a write-protected page; the flag says whether one was recorded.\<close>

definition cow_fault :: "machine \<Rightarrow> u32 \<Rightarrow> bool \<times> machine" where
  "cow_fault m va =
     (if \<not> procexp (cfg m) \<or> \<not> xlat_write (mmu m) \<or> fault_pending m then (False, m)
      else (True,
        upd_stats (\<lambda>t. t\<lparr>cow_faults := cow_faults t + 1\<rparr>)
          (set_ufault m \<lparr>ufault_pending = True, ufault_va = va, ufault_pc = pc m,
             ufault_code = False, ufault_write = True, ufault_width = 4\<rparr>)))"

section \<open>Translation\<close>

text \<open>The area pointer of the current address space, and the user or the supervisor one by mode.\<close>

definition sapr :: "machine \<Rightarrow> bool \<Rightarrow> u32" where
  "sapr m code = rd32 m (cmmu_base code + CMMU_SAPR)"

definition mode_apr :: "machine \<Rightarrow> bool \<Rightarrow> u32" where
  "mode_apr m code =
     rd32 m (cmmu_base code + (if supervisor m then CMMU_SAPR else CMMU_UAPR))"

text \<open>The per-process u-area window: the kernel's table if it maps the page, else identity.\<close>

definition translate_uarea :: "machine \<Rightarrow> u32 \<Rightarrow> bool \<Rightarrow> u32 \<times> machine" where
  "translate_uarea m va code =
     (let apr = sapr m code in
      if apr AND 1 = 0 then (va, m)
      else (case mmu_walk m apr va of (None, m) \<Rightarrow> (va, m) | (Some (pa, _), m) \<Rightarrow> (pa, m)))"

text \<open>Kernel space below the device windows.\<close>

definition translate_kernel :: "machine \<Rightarrow> u32 \<Rightarrow> bool \<Rightarrow> u32 \<times> machine" where
  "translate_kernel m va code =
     (let dp = devmap_lookup m (va AND NOT 0xFFF) in
      if dp \<noteq> 0 then (dp OR (va AND 0xFFF), m)
      else if kdata_off (mmu m) \<noteq> 0 then
        (let lin = (if va \<ge> kdata_va (mmu m) then va - kdata_off (mmu m) else va - KOFF) in
         if tlb_hit m code (page_no va) then (tlb_pa (tlb_at m code (page_no va)) OR (va AND 0xFFF), m)
         else
           (let apr = sapr m code;
                (res, m) = (if apr AND 1 = 0 then (None, m) else mmu_walk m apr va) in
            case res of
              None \<Rightarrow> (lin, upd_stats (\<lambda>t. t\<lparr>kfall_n := kfall_n t + 1\<rparr>) m)
            | Some (pa, _) \<Rightarrow>
                (let m = (if pa \<noteq> lin then upd_stats (\<lambda>t. t\<lparr>kdis_n := kdis_n t + 1\<rparr>) m else m)
                 in (pa, tlb_fill m code (page_no va) (pa AND 0xFFFFF000)))))
      else (va - KOFF, m))"

text \<open>The base of the kernel's physical-access scratch window, read once from a kernel global.
  The code reaches \<open>0xC0014058\<close> through \<open>translate\<close>; \<open>scratch_base_translate\<close> below shows that
  it is the branch used here.\<close>

definition scratch_base :: "machine \<Rightarrow> u32 \<times> machine" where
  "scratch_base m =
     (if scratch_cached (mmu m) = 0 \<and> kdata_off (mmu m) \<noteq> 0 \<and> translate_on (mmu m) then
        (let (pa, m) = translate_kernel m 0xC0014058 False;
             v = rd32 m pa;
             m = (if v \<ge> 0xE0000000
                  then m\<lparr>mmu := (mmu m)\<lparr>scratch_cached := v AND NOT 0xFFF\<rparr>\<rparr> else m)
         in (scratch_cached (mmu m), m))
      else (scratch_cached (mmu m), m))"

text \<open>Device space: identity, but for the scratch pair.\<close>

definition translate_device :: "machine \<Rightarrow> u32 \<Rightarrow> bool \<Rightarrow> u32 \<times> machine" where
  "translate_device m va code =
     (let (sb, m) = scratch_base m in
      if sb = 0 \<or> va < sb \<or> va \<ge> sb + 0x2000 then (va, m)
      else if tlb_hit m code (page_no va) then (tlb_pa (tlb_at m code (page_no va)) OR (va AND 0xFFF), m)
      else
        (let apr = sapr m code in
         if apr AND 1 = 0 then (va, m)
         else
           (case mmu_walk m apr va of
              (None, m) \<Rightarrow> (va, m)
            | (Some (pa, _), m) \<Rightarrow> (pa, tlb_fill m code (page_no va) (pa AND 0xFFFFF000)))))"

text \<open>User addresses, through the area pointer of the current mode.\<close>

definition translate_user :: "machine \<Rightarrow> u32 \<Rightarrow> bool \<Rightarrow> u32 \<times> machine" where
  "translate_user m va code =
     (let apr = mode_apr m code in
      if apr AND 1 = 0 then (va, m)
      else if tlb_hit m code (page_no va) then
        (let e = tlb_pa (tlb_at m code (page_no va));
             tpa = (e AND 0xFFFFF000) OR (va AND 0xFFF);
             (f, m) = (if e AND 1 \<noteq> 0 then cow_fault m va else (False, m))
         in if f then (0, m) else (tpa, m))
      else
        (case walk_fb m apr va code of
           (None, m) \<Rightarrow>
             if procexp (cfg m) \<and> \<not> fault_pending m then
               (0, set_ufault m \<lparr>ufault_pending = True, ufault_va = va, ufault_pc = pc m,
                     ufault_code = code, ufault_write = False, ufault_width = 4\<rparr>)
             else
               (if realmm (mem m) then cphys (mem m) va else va,
                upd_stats (\<lambda>t. t\<lparr>xlat_faults := xlat_faults t + 1, last_fault_va := va,
                     last_fault_pc := pc m\<rparr>) m)
         | (Some (pa, pd), m) \<Rightarrow>
             (let m = tlb_fill m code (page_no va)
                    ((pa AND 0xFFFFF000) OR (if pd AND PTE_WP \<noteq> 0 then 1 else 0));
                  (f, m) = (if pd AND PTE_WP \<noteq> 0 then cow_fault m va else (False, m))
              in if f then (0, m) else (pa, m))))"

definition translate :: "machine \<Rightarrow> u32 \<Rightarrow> bool \<Rightarrow> u32 \<times> machine" where
  "translate m va code =
     (if \<not> translate_on (mmu m) then (va, m)
      else if realmm (mem m) \<and> va \<ge> 0xC0000000 then
        (if procexp (cfg m) \<and> kdata_off (mmu m) \<noteq> 0 \<and> va \<ge> UAREA_LO \<and> va < UAREA_HI
         then translate_uarea m va code
         else if va \<ge> 0xE0000000 then translate_device m va code
         else translate_kernel m va code)
      else translate_user m va code)"

text \<open>Kernel reads and writes of the emulator, \<open>mem_r32(translate(va, 0))\<close> and
  \<open>mem_w32(translate(va, 0), v)\<close>.\<close>

definition vr32 :: "machine \<Rightarrow> u32 \<Rightarrow> u32 \<times> machine" where
  "vr32 m va = (let (pa, m) = translate m va False in (rd32 m pa, m))"

definition vw32 :: "machine \<Rightarrow> u32 \<Rightarrow> u32 \<Rightarrow> machine" where
  "vw32 m va v = (let (pa, m) = translate m va False in wr32 m pa v)"

section \<open>CMMU commands\<close>

definition cmmu_command :: "machine \<Rightarrow> u32 \<Rightarrow> u32 \<Rightarrow> machine" where
  "cmmu_command m base cmd =
     (if cmd \<noteq> 0x20 \<and> cmd \<noteq> 0x24 then tlb_flush m
      else
        (let vaddr = rd32 m (base + CMMU_SAR);
             apr = rd32 m (base + (if cmd = 0x24 then CMMU_SAPR else CMMU_UAPR)) in
         case walk_fb m apr vaddr (base = 0xFFF7F000) of
           (Some (phys, _), m) \<Rightarrow>
             (let phys = (if vaddr \<ge> 0xC0000000 \<and> vaddr < 0xE0000000
                          then phys AND NOT 0x1F800000 else phys);
                  m = wr32 m (base + CMMU_SSR) 1;
                  m = wr32 m (base + CMMU_SAR) phys
              in upd_stats (\<lambda>t. t\<lparr>probe_hits := probe_hits t + 1\<rparr>) m)
         | (None, m) \<Rightarrow>
             (let m = wr32 m (base + CMMU_SSR) 0;
                  m = wr32 m (base + CMMU_PFAR) vaddr
              in upd_stats (\<lambda>t. t\<lparr>probe_misses := probe_misses t + 1\<rparr>) m)))"

section \<open>Frame: translation changes translation state only\<close>

text \<open>\<open>same_but_mmu\<close>: everything outside \<open>mmu\<close> is the same, and of \<open>mmu\<close> the settings.\<close>

definition outside :: "machine \<Rightarrow> mem_state \<times> cpu_state \<times> dev_state \<times> config \<times> bool \<times> bool \<times> bool \<times> u32 \<times> u32" where
  "outside m = (mem m, cpu m, dev m, cfg m, sysmode m, in_kcall m, trap_taken m, trap_vector m, trap_pc m)"

definition mmu_fixed :: "machine \<Rightarrow> bool \<times> u32 \<times> u32 \<times> u32 \<times> (u32 \<times> u32) list \<times> u32 \<times> bool" where
  "mmu_fixed m = (translate_on (mmu m), kdata_va (mmu m), kdata_off (mmu m), ktab_bias (mmu m),
     devmap (mmu m), ptpool_next (mmu m), xlat_write (mmu m))"

definition same_but_mmu :: "machine \<Rightarrow> machine \<Rightarrow> bool" where
  "same_but_mmu m m' \<longleftrightarrow> outside m' = outside m \<and> mmu_fixed m' = mmu_fixed m"

lemma same_refl [simp, intro]: "same_but_mmu m m"
  by (simp add: same_but_mmu_def)

lemma same_trans: "same_but_mmu m m' \<Longrightarrow> same_but_mmu m' m'' \<Longrightarrow> same_but_mmu m m''"
  by (simp add: same_but_mmu_def)

lemmas same_defs = same_but_mmu_def outside_def mmu_fixed_def

lemma sameD:
  assumes "same_but_mmu m m'"
  shows "mem m' = mem m" "cpu m' = cpu m" "dev m' = dev m" "cfg m' = cfg m"
    "sysmode m' = sysmode m" "in_kcall m' = in_kcall m" "trap_taken m' = trap_taken m"
    "trap_vector m' = trap_vector m" "trap_pc m' = trap_pc m"
    "translate_on (mmu m') = translate_on (mmu m)" "kdata_va (mmu m') = kdata_va (mmu m)"
    "kdata_off (mmu m') = kdata_off (mmu m)" "ktab_bias (mmu m') = ktab_bias (mmu m)"
    "devmap (mmu m') = devmap (mmu m)" "ptpool_next (mmu m') = ptpool_next (mmu m)"
    "xlat_write (mmu m') = xlat_write (mmu m)" "RD m' = RD m" "supervisor m' = supervisor m"
  using assms by (simp_all add: same_defs RD_def supervisor_def fun_eq_iff)

lemma same_updates [simp]:
  "same_but_mmu m (upd_stats f m') \<longleftrightarrow> same_but_mmu m m'"
  "same_but_mmu m (tlb_fill m' code vpn pa) \<longleftrightarrow> same_but_mmu m m'"
  "same_but_mmu m (tlb_flush m') \<longleftrightarrow> same_but_mmu m m'"
  "same_but_mmu m (set_ufault m' uf) \<longleftrightarrow> same_but_mmu m m'"
  "same_but_mmu (upd_stats f m) m' \<longleftrightarrow> same_but_mmu m m'"
  "same_but_mmu (tlb_fill m code vpn pa) m' \<longleftrightarrow> same_but_mmu m m'"
  "same_but_mmu (tlb_flush m) m' \<longleftrightarrow> same_but_mmu m m'"
  "same_but_mmu (set_ufault m uf) m' \<longleftrightarrow> same_but_mmu m m'"
  by (simp_all add: same_defs upd_stats_def tlb_fill_def tlb_flush_def set_ufault_def)

lemma same_cow_fault: "cow_fault m va = (f, m') \<Longrightarrow> same_but_mmu m m'"
  by (auto simp: same_defs cow_fault_def upd_stats_def set_ufault_def split: if_splits)

lemma same_mmu_walk: "mmu_walk m apr va = (r, m') \<Longrightarrow> same_but_mmu m m'"
  by (auto simp: same_defs mmu_walk_def upd_stats_def split: option.splits if_splits)

lemma same_walk_fb: "walk_fb m apr va code = (r, m') \<Longrightarrow> same_but_mmu m m'"
  by (auto simp: walk_fb_def Let_def split: prod.splits option.splits if_splits
      dest!: same_mmu_walk intro: same_trans)

lemma same_translate_kernel: "translate_kernel m va code = (pa, m') \<Longrightarrow> same_but_mmu m m'"
  by (auto simp: translate_kernel_def Let_def split: prod.splits option.splits if_splits
      dest!: same_mmu_walk intro: same_trans)

lemma same_scratch_base: "scratch_base m = (sb, m') \<Longrightarrow> same_but_mmu m m'"
  by (auto simp: scratch_base_def Let_def same_defs split: prod.splits if_splits
      dest!: same_translate_kernel)

lemma same_translate_uarea: "translate_uarea m va code = (pa, m') \<Longrightarrow> same_but_mmu m m'"
  by (auto simp: translate_uarea_def Let_def split: prod.splits option.splits if_splits
      dest!: same_mmu_walk intro: same_trans)

lemma same_translate_device: "translate_device m va code = (pa, m') \<Longrightarrow> same_but_mmu m m'"
  by (auto simp: translate_device_def Let_def split: prod.splits option.splits if_splits
      dest!: same_mmu_walk same_scratch_base intro: same_trans)

lemma same_translate_user: "translate_user m va code = (pa, m') \<Longrightarrow> same_but_mmu m m'"
  by (auto simp: translate_user_def Let_def split: prod.splits option.splits if_splits
      dest!: same_walk_fb same_cow_fault intro: same_trans)

lemma same_translate: "translate m va code = (pa, m') \<Longrightarrow> same_but_mmu m m'"
  by (auto simp: translate_def split: if_splits dest: same_translate_user same_translate_kernel
      same_translate_device same_translate_uarea)

lemma same_translate_snd: "same_but_mmu m (snd (translate m va code))"
  by (metis prod.collapse same_translate)

lemmas translate_frame [simp] = sameD [OF same_translate_snd]

end
