(* ===== verification/Tlb.thy ===== *)
theory Tlb
  imports Mmu
begin

text \<open>
  The TLB of \<^verbatim>\<open>mmu.c\<close> against the page tables: what the walk answers for a page, the TLB as an
  instance of \<open>lookaside\<close>, and \<open>translate\<close> with a TLB that agrees with the tables as the same
  function as \<open>translate\<close> with an empty one.  Also the page-fault discipline: one fault is
  recorded, for the address that missed, and it is never overwritten.
\<close>

section \<open>The walk depends on memory only, and on the page only\<close>

lemma fst_mmu_walk [simp]: "fst (mmu_walk m apr va) = mmu_lookup m apr va"
  by (simp add: mmu_walk_def split: option.split)

text \<open>\<open>mmu_pd\<close> is the page descriptor the walk ends at.\<close>

definition mmu_pd :: "machine \<Rightarrow> u32 \<Rightarrow> u32 \<Rightarrow> u32 option" where
  "mmu_pd m apr va = map_option snd (mmu_lookup m apr va)"

lemma mmu_lookup_pd:
  "mmu_lookup m apr va = map_option (\<lambda>pd. ((pd AND 0xFFFFF000) OR (va AND 0xFFF), pd)) (mmu_pd m apr va)"
  by (simp add: mmu_pd_def mmu_lookup_def Let_def)

lemma seg_page_index_page:
  assumes "page_no va = page_no vb"
  shows "seg_index va = seg_index vb" "page_index va = page_index vb"
proof -
  have d: "drop_bit 22 v = drop_bit 10 (page_no v)" for v :: u32
    by (simp add: drop_bit_drop_bit)
  show "seg_index va = seg_index vb" unfolding seg_index_def d by (simp only: assms)
  show "page_index va = page_index vb" using assms by (simp add: page_index_def)
qed

lemma va_less_page:
  fixes va vb c :: u32
  assumes "page_no va = page_no vb" and "page_off c = 0"
  shows "va < c \<longleftrightarrow> vb < c"
proof -
  have e: "unat va div 4096 = unat vb div 4096" and c: "unat c mod 4096 = 0"
    using assms by (simp_all add: word_unat_eq_iff unat_page_no unat_page_off)
  from c obtain k where k: "unat c = 4096 * k" by auto
  have "(x < 4096 * k) = (x div 4096 < k)" for x
    by (simp add: div_less_iff_less_mult mult.commute)
  with e show ?thesis by (simp add: word_less_nat_alt k)
qed

lemma va_le_page:
  fixes va vb c :: u32
  assumes "page_no va = page_no vb" and "page_off c = 0"
  shows "c \<le> va \<longleftrightarrow> c \<le> vb"
  using va_less_page[OF assms] by (simp add: linorder_not_less [symmetric])

lemma mmu_pd_page:
  assumes "page_no va = page_no vb"
  shows "mmu_pd m apr va = mmu_pd m apr vb"
  using seg_page_index_page[OF assms] va_less_page[OF assms, of "0xC0000000"]
  by (simp add: mmu_pd_def mmu_lookup_def Let_def)

text \<open>The frame and the descriptor that \<open>walk_fb\<close> finds for a page.\<close>

definition fb_frame :: "machine \<Rightarrow> u32 \<Rightarrow> u32 \<Rightarrow> bool \<Rightarrow> (u32 \<times> u32) option" where
  "fb_frame m apr va code =
     (case mmu_pd m apr va of
        Some pd \<Rightarrow> Some (pd AND 0xFFFFF000, pd)
      | None \<Rightarrow>
          (let dp = devmap_lookup m va in
           if realmm (mem m) \<and> devmap (mmu m) \<noteq> [] \<and> dp \<noteq> 0 then Some (dp, 0)
           else if realmm (mem m) then
             (case mmu_pd m ((if code then CODE_SEGTAB else DATA_SEGTAB) OR 1) va of
                Some pd \<Rightarrow> Some (pd AND 0xFFFFF000, pd)
              | None \<Rightarrow> if va \<ge> 0xE0000000 then Some (va AND 0xFFFFF000, 0) else None)
           else None))"

lemma fst_walk_fb:
  "fst (walk_fb m apr va code) =
     map_option (\<lambda>(fr, pd). (fr OR (va AND 0xFFF), pd)) (fb_frame m apr va code)"
  by (simp add: walk_fb_def fb_frame_def mmu_walk_def mmu_lookup_pd Let_def
      split: option.split)

lemma devmap_lookup_page:
  assumes "page_no va = page_no vb"
  shows "devmap_lookup m va = devmap_lookup m vb"
  using assms by (simp add: devmap_lookup_def page_base_shift)

lemma fb_frame_page:
  assumes "page_no va = page_no vb"
  shows "fb_frame m apr va code = fb_frame m apr vb code"
proof -
  have base: "va AND 0xFFFFF000 = vb AND 0xFFFFF000"
    using assms by (simp add: page_base_shift)
  have hi: "0xE0000000 \<le> va \<longleftrightarrow> 0xE0000000 \<le> vb"
    using va_le_page[OF assms] by simp
  show ?thesis
    unfolding fb_frame_def Let_def mmu_pd_page[OF assms] devmap_lookup_page[OF assms] base hi ..
qed

section \<open>The TLB as a lookaside buffer\<close>

text \<open>Its keys are the side and the 20-bit page number.\<close>

type_synonym tlb_key = "bool \<times> 20 word"

definition key_of :: "bool \<Rightarrow> u32 \<Rightarrow> tlb_key" where
  "key_of code va = (code, ucast (page_no va))"

fun key_hit :: "machine \<Rightarrow> tlb_key \<Rightarrow> bool" where
  "key_hit m (code, k) = tlb_hit m code (ucast k)"

fun key_val :: "machine \<Rightarrow> tlb_key \<Rightarrow> u32" where
  "key_val m (code, k) = tlb_pa (tlb_at m code (ucast k))"

fun key_fill :: "machine \<Rightarrow> tlb_key \<Rightarrow> u32 \<Rightarrow> machine" where
  "key_fill m (code, k) pa = tlb_fill m code (ucast k) pa"

lemma ucast_key [simp]: "(ucast (ucast (page_no va) :: 20 word) :: u32) = page_no va"
  using and_fffff[of va]
  by (intro bit_word_eqI) (auto simp: bit_simps dest: bit_imp_le_length)

lemma key_of_ops [simp]:
  "key_hit m (key_of code va) = tlb_hit m code (page_no va)"
  "key_val m (key_of code va) = tlb_pa (tlb_at m code (page_no va))"
  "key_fill m (key_of code va) pa = tlb_fill m code (page_no va) pa"
  by (simp_all add: key_of_def)

lemma tag_inj:
  fixes j k :: "20 word"
  assumes "(ucast j :: u32) OR 0x80000000 = ucast k OR 0x80000000"
  shows "j = k"
proof (rule bit_word_eqI)
  fix n assume n: "n < LENGTH(20)"
  have "bit ((ucast j :: u32) OR 0x80000000) n = bit ((ucast k :: u32) OR 0x80000000) n"
    by (simp only: assms)
  moreover have "\<not> bit (0x80000000 :: u32) n"
  proof -
    have "(0x80000000 :: u32) = push_bit 31 1" by simp
    then show ?thesis using n by (simp only: bit_simps) simp
  qed
  ultimately show "bit j n = bit k n" using n by (simp add: bit_simps)
qed

interpretation tlbc: lookaside key_hit key_val key_fill tlb_flush
proof
  fix s :: machine and k k' :: tlb_key and v
  show "\<not> key_hit (tlb_flush s) k"
  proof (cases k)
    case (Pair code p)
    have "bit ((ucast p :: u32) OR 0x80000000) 31"
    proof -
      have "(0x80000000 :: u32) = push_bit 31 1" by simp
      then show ?thesis by (simp only: bit_simps) simp
    qed
    then have "(ucast p :: u32) OR 0x80000000 \<noteq> 0" by (metis bit_0_eq bot_apply bot_bool_def)
    with Pair show ?thesis by (simp add: tlb_hit_def tlb_at_def tlb_flush_def empty_ent_def)
  qed
  show "key_hit (key_fill s k v) k"
    by (cases k) (simp add: tlb_hit_def tlb_at_def tlb_fill_def)
  show "key_val (key_fill s k v) k = v"
    by (cases k) (simp add: tlb_at_def tlb_fill_def)
  assume "k' \<noteq> k" "key_hit (key_fill s k v) k'"
  then show "key_hit s k' \<and> key_val (key_fill s k v) k' = key_val s k'"
    by (cases k, cases k') (auto simp: tlb_hit_def tlb_at_def tlb_fill_def split: if_splits dest: tag_inj)
qed


section \<open>Translation without a TLB\<close>

text \<open>\<open>xlat_spec\<close> is what \<open>translate\<close> computes, read off the page tables alone: the address and
  the fault state afterwards.\<close>

definition kern_addr :: "machine \<Rightarrow> u32 \<Rightarrow> bool \<Rightarrow> u32" where
  "kern_addr m va code =
     (let dp = devmap_lookup m (va AND NOT 0xFFF) in
      if dp \<noteq> 0 then dp OR (va AND 0xFFF)
      else if kdata_off (mmu m) \<noteq> 0 then
        (case (if sapr m code AND 1 = 0 then None else mmu_pd m (sapr m code) va) of
           None \<Rightarrow> if va \<ge> kdata_va (mmu m) then va - kdata_off (mmu m) else va - KOFF
         | Some pd \<Rightarrow> (pd AND 0xFFFFF000) OR (va AND 0xFFF))
      else va - KOFF)"

definition scratch_value :: "machine \<Rightarrow> u32" where
  "scratch_value m =
     (if scratch_cached (mmu m) = 0 \<and> kdata_off (mmu m) \<noteq> 0 \<and> translate_on (mmu m) then
        (let v = rd32 m (kern_addr m 0xC0014058 False)
         in if v \<ge> 0xE0000000 then v AND NOT 0xFFF else 0)
      else scratch_cached (mmu m))"

definition table_addr :: "machine \<Rightarrow> u32 \<Rightarrow> bool \<Rightarrow> u32" where
  "table_addr m va code =
     (case (if sapr m code AND 1 = 0 then None else mmu_pd m (sapr m code) va) of
        None \<Rightarrow> va | Some pd \<Rightarrow> (pd AND 0xFFFFF000) OR (va AND 0xFFF))"

definition device_addr :: "machine \<Rightarrow> u32 \<Rightarrow> bool \<Rightarrow> u32" where
  "device_addr m va code =
     (let sb = scratch_value m in
      if sb = 0 \<or> va < sb \<or> va \<ge> sb + 0x2000 then va else table_addr m va code)"

definition user_spec :: "machine \<Rightarrow> u32 \<Rightarrow> bool \<Rightarrow> u32 \<times> ufault_state" where
  "user_spec m va code =
     (let f = ufault (mmu m); can = procexp (cfg m) \<and> \<not> ufault_pending f in
      if mode_apr m code AND 1 = 0 then (va, f)
      else
        (case fb_frame m (mode_apr m code) va code of
           None \<Rightarrow>
             if can then
               (0, \<lparr>ufault_pending = True, ufault_va = va, ufault_pc = pc m, ufault_code = code,
                    ufault_write = False, ufault_width = 4\<rparr>)
             else (if realmm (mem m) then cphys (mem m) va else va, f)
         | Some (fr, pd) \<Rightarrow>
             if pd AND PTE_WP \<noteq> 0 \<and> can \<and> xlat_write (mmu m) then
               (0, \<lparr>ufault_pending = True, ufault_va = va, ufault_pc = pc m, ufault_code = False,
                    ufault_write = True, ufault_width = 4\<rparr>)
             else (fr OR (va AND 0xFFF), f)))"

definition xlat_spec :: "machine \<Rightarrow> u32 \<Rightarrow> bool \<Rightarrow> u32 \<times> ufault_state" where
  "xlat_spec m va code =
     (if \<not> translate_on (mmu m) then (va, ufault (mmu m))
      else if realmm (mem m) \<and> va \<ge> 0xC0000000 then
        (if procexp (cfg m) \<and> kdata_off (mmu m) \<noteq> 0 \<and> va \<ge> UAREA_LO \<and> va < UAREA_HI
         then table_addr m va code
         else if va \<ge> 0xE0000000 then device_addr m va code
         else kern_addr m va code, ufault (mmu m))
      else user_spec m va code)"

text \<open>What a TLB entry for a page must hold: the frame, and for user pages the write-protect flag
  in bit 0.\<close>

definition kern_entry :: "machine \<Rightarrow> bool \<Rightarrow> u32 \<Rightarrow> u32 option" where
  "kern_entry m code va =
     (if sapr m code AND 1 = 0 then None
      else map_option (\<lambda>pd. pd AND 0xFFFFF000) (mmu_pd m (sapr m code) va))"

definition user_entry :: "machine \<Rightarrow> bool \<Rightarrow> u32 \<Rightarrow> u32 option" where
  "user_entry m code va =
     (if mode_apr m code AND 1 = 0 then None
      else map_option (\<lambda>(fr, pd). (fr AND 0xFFFFF000) OR (if pd AND PTE_WP \<noteq> 0 then 1 else 0))
             (fb_frame m (mode_apr m code) va code))"

definition page_entry :: "machine \<Rightarrow> bool \<Rightarrow> u32 \<Rightarrow> u32 option" where
  "page_entry m code va =
     (if realmm (mem m) \<and> va \<ge> 0xC0000000 then kern_entry m code va else user_entry m code va)"

fun tlb_ref :: "machine \<Rightarrow> tlb_key \<Rightarrow> u32 option" where
  "tlb_ref m (code, k) = page_entry m code (push_bit 12 (ucast k))"

definition tlb_ok :: "machine \<Rightarrow> bool" where
  "tlb_ok m \<longleftrightarrow> tlbc.agrees (tlb_ref m) m"

definition devmap_ok :: "machine \<Rightarrow> bool" where
  "devmap_ok m \<longleftrightarrow> (\<forall>(va, pa) \<in> set (devmap (mmu m)). pa AND 0xFFF = 0)"

lemma tlb_ref_key: "tlb_ref m (key_of code va) = page_entry m code va"
proof -
  have p: "page_no (push_bit 12 (page_no va)) = page_no va"
    by (rule bit_word_eqI) (auto simp: bit_simps dest: bit_imp_le_length)
  have k: "(0xC0000000 \<le> push_bit 12 (page_no va)) = (0xC0000000 \<le> va)"
    using va_le_page[OF p] by simp
  show ?thesis
    by (simp add: key_of_def page_entry_def kern_entry_def user_entry_def k
        mmu_pd_page[OF p] fb_frame_page[OF p])
qed

lemma same_entries:
  assumes "same_but_mmu m m'"
  shows "tlb_ref m' = tlb_ref m" "mmu_pd m' = mmu_pd m" "fb_frame m' = fb_frame m"
    "sapr m' = sapr m" "mode_apr m' = mode_apr m" "devmap_lookup m' = devmap_lookup m"
proof -
  note s = sameD[OF assms]
  have t: "tab_r32 m' = tab_r32 m"
    by (simp add: fun_eq_iff tab_r32_def Let_def s)
  show pd: "mmu_pd m' = mmu_pd m"
    by (simp add: fun_eq_iff mmu_pd_def mmu_lookup_def Let_def t s)
  show dl: "devmap_lookup m' = devmap_lookup m"
    by (simp add: fun_eq_iff devmap_lookup_def s)
  show fb: "fb_frame m' = fb_frame m"
    unfolding fun_eq_iff fb_frame_def Let_def pd dl s by simp
  show sa: "sapr m' = sapr m" and ma: "mode_apr m' = mode_apr m"
    by (simp_all add: fun_eq_iff sapr_def mode_apr_def s)
  show "tlb_ref m' = tlb_ref m"
    by (simp add: fun_eq_iff page_entry_def kern_entry_def user_entry_def pd fb sa ma s)
qed


section \<open>\<open>translate\<close> refines \<open>xlat_spec\<close>\<close>

text \<open>\<open>tlb_step m m'\<close>: the step kept the TLB in agreement and left the fault state alone.\<close>

definition tlb_step :: "machine \<Rightarrow> machine \<Rightarrow> bool" where
  "tlb_step m m' \<longleftrightarrow> same_but_mmu m m' \<and> tlb_ok m' \<and> ufault (mmu m') = ufault (mmu m) \<and>
     scratch_cached (mmu m') = scratch_cached (mmu m)"

lemma tlb_step_refl: "tlb_ok m \<Longrightarrow> tlb_step m m"
  by (simp add: tlb_step_def)

lemma tlb_ok_upd_stats [simp]: "tlb_ok (upd_stats f m) \<longleftrightarrow> tlb_ok m"
proof -
  have "key_hit (upd_stats f m) = key_hit m" "key_val (upd_stats f m) = key_val m"
    by (auto simp: fun_eq_iff tlb_hit_def tlb_at_def upd_stats_def)
  then show ?thesis
    using same_entries(1)[of m "upd_stats f m"] by (simp add: tlb_ok_def tlbc.agrees_def)
qed

lemma tlb_step_upd_stats: "tlb_step m m' \<Longrightarrow> tlb_step m (upd_stats f m')"
  by (simp add: tlb_step_def) (simp add: upd_stats_def)

lemma tlb_ok_fill:
  assumes "tlb_ok m" "page_entry m code va = Some e"
  shows "tlb_ok (tlb_fill m code (page_no va) e)"
proof -
  have "tlbc.agrees (tlb_ref m) (key_fill m (key_of code va) e)"
    using assms by (intro tlbc.agrees_fill) (simp_all add: tlb_ok_def tlb_ref_key)
  then show ?thesis
    using same_entries(1)[of m "tlb_fill m code (page_no va) e"] by (simp add: tlb_ok_def)
qed

lemma tlb_step_fill:
  assumes "tlb_step m m'" "page_entry m code va = Some e"
  shows "tlb_step m (tlb_fill m' code (page_no va) e)"
proof -
  have "page_entry m' code va = Some e"
    using assms same_entries(1)[of m m'] tlb_ref_key[of m code va] tlb_ref_key[of m' code va]
    by (simp add: tlb_step_def)
  with assms(1) tlb_ok_fill show ?thesis
    by (auto simp: tlb_step_def) (auto simp: tlb_fill_def)
qed

lemma tlb_hit_entry:
  "tlb_ok m \<Longrightarrow> tlb_hit m code (page_no va) \<Longrightarrow>
   page_entry m code va = Some (tlb_pa (tlb_at m code (page_no va)))"
  using tlbc.agrees_hit[of "tlb_ref m" m "key_of code va"] by (simp add: tlb_ok_def tlb_ref_key)

lemma mmu_walk_step:
  assumes "tlb_ok m" "mmu_walk m apr va = (r, m')"
  shows "r = mmu_lookup m apr va" "tlb_step m m'"
  using assms tlb_step_upd_stats[OF tlb_step_refl[OF assms(1)]]
  by (auto simp: mmu_walk_def tlb_step_refl split: option.splits if_splits)

lemma translate_kernel_spec:
  assumes ok: "tlb_ok m" and k: "realmm (mem m)" "va \<ge> 0xC0000000"
    and t: "translate_kernel m va code = (pa, m')"
  shows "pa = kern_addr m va code \<and> tlb_step m m'"
proof -
  consider "devmap_lookup m (va AND NOT 0xFFF) \<noteq> 0 \<or> kdata_off (mmu m) = 0"
    | "devmap_lookup m (va AND NOT 0xFFF) = 0" "kdata_off (mmu m) \<noteq> 0" "tlb_hit m code (page_no va)"
    | "devmap_lookup m (va AND NOT 0xFFF) = 0" "kdata_off (mmu m) \<noteq> 0" "\<not> tlb_hit m code (page_no va)"
    by blast
  then show ?thesis
  proof cases
    case 1
    then show ?thesis using t ok by (auto simp: translate_kernel_def kern_addr_def Let_def tlb_step_refl)
  next
    case 2
    with tlb_hit_entry[OF ok, of code va] k
    have "kern_entry m code va = Some (tlb_pa (tlb_at m code (page_no va)))"
      by (simp add: page_entry_def)
    with 2 t ok show ?thesis
      by (auto simp: translate_kernel_def kern_addr_def kern_entry_def Let_def tlb_step_refl split: if_splits)
  next
    case 3
    obtain r m1 where w: "(if sapr m code AND 1 = 0 then (None, m) else mmu_walk m (sapr m code) va) = (r, m1)"
      by fastforce
    then have r: "r = (if sapr m code AND 1 = 0 then None else mmu_lookup m (sapr m code) va)"
      and s: "tlb_step m m1"
      using mmu_walk_step[OF ok] ok by (auto simp: tlb_step_refl split: if_splits)
    show ?thesis
    proof (cases "if sapr m code AND 1 = 0 then None else mmu_pd m (sapr m code) va")
      case None
      with r have "r = None" by (auto simp: mmu_lookup_pd split: if_splits)
      with 3 w t None s tlb_step_upd_stats[OF s] show ?thesis
        by (auto simp: translate_kernel_def kern_addr_def Let_def)
    next
      case (Some pd)
      with r have r: "r = Some ((pd AND 0xFFFFF000) OR (va AND 0xFFF), pd)"
        by (auto simp: mmu_lookup_pd split: if_splits)
      have e: "page_entry m code va = Some (pd AND 0xFFFFF000)"
        using Some k by (auto simp: page_entry_def kern_entry_def split: if_splits)
      from 3 w t Some s r tlb_step_fill[OF s e] tlb_step_fill[OF tlb_step_upd_stats[OF s] e]
      show ?thesis
        by (auto simp: translate_kernel_def kern_addr_def Let_def frame_masks split: if_splits)
    qed
  qed
qed

text \<open>The other branches.\<close>

lemma walk_fb_step:
  assumes "tlb_ok m" "walk_fb m apr va code = (r, m')"
  shows "r = map_option (\<lambda>(fr, pd). (fr OR (va AND 0xFFF), pd)) (fb_frame m apr va code)" "tlb_step m m'"
proof -
  show "r = map_option (\<lambda>(fr, pd). (fr OR (va AND 0xFFF), pd)) (fb_frame m apr va code)"
    using fst_walk_fb[of m apr va code] assms(2) by simp
  show "tlb_step m m'"
    using assms tlb_step_upd_stats[OF tlb_step_refl[OF assms(1)]]
    by (auto simp: walk_fb_def mmu_walk_def Let_def tlb_step_refl tlb_step_upd_stats
        split: option.splits if_splits prod.splits)
qed

lemma tlb_step_trans: "tlb_step m m' \<Longrightarrow> tlb_step m' m'' \<Longrightarrow> tlb_step m m''"
  by (auto simp: tlb_step_def intro: same_trans)

lemma tlb_step_ok: "tlb_step m m' \<Longrightarrow> tlb_ok m'"
  by (simp add: tlb_step_def)

lemma same_table_addr: "same_but_mmu m m' \<Longrightarrow> table_addr m' = table_addr m"
  by (simp add: fun_eq_iff table_addr_def same_entries)

lemma mmu_walk_obtain:
  assumes "tlb_ok m"
  obtains m' where "mmu_walk m apr va = (mmu_lookup m apr va, m')" "tlb_step m m'"
  using mmu_walk_step[OF assms] by (metis prod.collapse)

lemma translate_uarea_spec:
  assumes "tlb_ok m" "translate_uarea m va code = (pa, m')"
  shows "pa = table_addr m va code \<and> tlb_step m m'"
proof -
  obtain m1 where "mmu_walk m (sapr m code) va = (mmu_lookup m (sapr m code) va, m1)" "tlb_step m m1"
    using mmu_walk_obtain[OF assms(1)] .
  with assms show ?thesis
    by (auto simp: translate_uarea_def table_addr_def Let_def tlb_step_refl mmu_lookup_pd
        split: if_splits option.splits)
qed

text \<open>What the scratch-window read leaves behind: the TLB, and the cached base.\<close>

lemma scratch_base_spec:
  assumes ok: "tlb_ok m" and "realmm (mem m)" and t: "scratch_base m = (sb, m')"
  shows "sb = scratch_value m \<and> same_but_mmu m m' \<and> tlb_ok m' \<and> ufault (mmu m') = ufault (mmu m)"
proof (cases "scratch_cached (mmu m) = 0 \<and> kdata_off (mmu m) \<noteq> 0 \<and> translate_on (mmu m)")
  case True
  obtain pa m1 where k: "translate_kernel m 0xC0014058 False = (pa, m1)" by fastforce
  then have pa: "pa = kern_addr m 0xC0014058 False" and st: "tlb_step m m1"
    using translate_kernel_spec[OF ok assms(2) _ k] by auto
  have mm: "mem m1 = mem m" using st by (simp add: tlb_step_def sameD)
  have sc: "tlb_ok (m1\<lparr>mmu := (mmu m1)\<lparr>scratch_cached := x\<rparr>\<rparr>)" for x
  proof -
    let ?n = "m1\<lparr>mmu := (mmu m1)\<lparr>scratch_cached := x\<rparr>\<rparr>"
    have "key_hit ?n = key_hit m1" "key_val ?n = key_val m1"
      by (auto simp: fun_eq_iff tlb_hit_def tlb_at_def)
    moreover have "same_but_mmu m1 ?n" by (simp add: same_defs)
    ultimately show ?thesis
      using tlb_step_ok[OF st] same_entries(1)[of m1 ?n] by (simp add: tlb_ok_def tlbc.agrees_def)
  qed
  define v where "v = rd32 m (kern_addr m 0xC0014058 False)"
  define m2 where "m2 = (if v \<ge> 0xE0000000
      then m1\<lparr>mmu := (mmu m1)\<lparr>scratch_cached := v AND NOT 0xFFF\<rparr>\<rparr> else m1)"
  have r: "scratch_base m = (scratch_cached (mmu m2), m2)"
    using True by (simp add: scratch_base_def k Let_def m2_def v_def pa mm)
  have ok2: "tlb_ok m2" using sc tlb_step_ok[OF st] by (simp add: m2_def)
  have s2: "same_but_mmu m m2" "ufault (mmu m2) = ufault (mmu m)"
    using st by (auto simp: m2_def tlb_step_def same_defs)
  have "scratch_cached (mmu m2) = scratch_value m"
    using True st unfolding scratch_value_def v_def[symmetric] Let_def
    by (simp add: m2_def tlb_step_def)
  with r t ok2 s2 show ?thesis by auto
next
  case False
  then show ?thesis using t ok by (auto simp: scratch_base_def scratch_value_def)
qed

lemma translate_device_spec:
  assumes ok: "tlb_ok m" and k: "realmm (mem m)" "va \<ge> 0xC0000000"
    and t: "translate_device m va code = (pa, m')"
  shows "pa = device_addr m va code \<and> same_but_mmu m m' \<and> tlb_ok m' \<and> ufault (mmu m') = ufault (mmu m)"
proof -
  obtain sb m1 where s: "scratch_base m = (sb, m1)" by fastforce
  note sb = scratch_base_spec[OF ok k(1) s]
  note ent = same_entries[of m m1]
  consider "sb = 0 \<or> va < sb \<or> va \<ge> sb + 0x2000"
    | "\<not> (sb = 0 \<or> va < sb \<or> va \<ge> sb + 0x2000)" "tlb_hit m1 code (page_no va)"
    | "\<not> (sb = 0 \<or> va < sb \<or> va \<ge> sb + 0x2000)" "\<not> tlb_hit m1 code (page_no va)"
    by blast
  then show ?thesis
  proof cases
    case 1
    then show ?thesis using t s sb by (auto simp: translate_device_def device_addr_def)
  next
    case 2
    have "kern_entry m1 code va = Some (tlb_pa (tlb_at m1 code (page_no va)))"
      using tlb_hit_entry[of m1 code va] 2 k sb sameD(1)[of m m1] by (simp add: page_entry_def)
    then have "kern_entry m code va = Some (tlb_pa (tlb_at m1 code (page_no va)))"
      using ent sb unfolding kern_entry_def by metis
    with 2 t s sb show ?thesis
      by (auto simp: translate_device_def device_addr_def table_addr_def kern_entry_def Let_def
          split: if_splits)
  next
    case 3
    have e: "sapr m1 = sapr m" "mmu_pd m1 = mmu_pd m" "page_entry m1 code va = page_entry m code va"
      using ent sb tlb_ref_key[of m code va] tlb_ref_key[of m1 code va] by auto
    obtain m2 where w: "mmu_walk m1 (sapr m code) va = (mmu_lookup m1 (sapr m code) va, m2)"
      and st: "tlb_step m1 m2"
      using mmu_walk_obtain sb by blast
    have l: "mmu_lookup m1 (sapr m code) va =
        map_option (\<lambda>pd. ((pd AND 0xFFFFF000) OR (va AND 0xFFF), pd)) (mmu_pd m (sapr m code) va)"
      by (simp add: mmu_lookup_pd e)
    have d: "translate_device m va code = (if sapr m code AND 1 = 0 then (va, m1)
        else case mmu_lookup m1 (sapr m code) va of None \<Rightarrow> (va, m2)
          | Some (pa, _) \<Rightarrow> (pa, tlb_fill m2 code (page_no va) (pa AND 0xFFFFF000)))"
      using 3 by (simp add: translate_device_def s w e Let_def)
    have st2: "same_but_mmu m m2 \<and> tlb_ok m2 \<and> ufault (mmu m2) = ufault (mmu m)"
      using st sb by (auto simp: tlb_step_def intro: same_trans)
    have a: "device_addr m va code = table_addr m va code"
      using 3(1) sb unfolding device_addr_def Let_def by meson
    show ?thesis
    proof (cases "if sapr m code AND 1 = 0 then None else mmu_pd m (sapr m code) va")
      case None
      then show ?thesis
        using t sb st2 by (auto simp: d l a table_addr_def split: if_splits)
    next
      case (Some pd)
      then have p: "sapr m code AND 1 \<noteq> 0" "mmu_pd m (sapr m code) va = Some pd"
        by (auto split: if_splits)
      then have "page_entry m1 code va = Some (pd AND 0xFFFFF000)"
        using k by (simp add: e) (simp add: page_entry_def kern_entry_def)
      moreover define m3 where "m3 = tlb_fill m2 code (page_no va) (pd AND 0xFFFFF000)"
      ultimately have "tlb_step m1 m3" using tlb_step_fill[OF st] by blast
      with sb have f: "same_but_mmu m m3" "tlb_ok m3" "ufault (mmu m3) = ufault (mmu m)"
        by (auto simp: tlb_step_def intro: same_trans)
      have "translate_device m va code = ((pd AND 0xFFFFF000) OR (va AND 0xFFF), m3)"
        unfolding d l using p by (simp add: frame_masks m3_def)
      moreover have "table_addr m va code = (pd AND 0xFFFFF000) OR (va AND 0xFFF)"
        using p by (simp add: table_addr_def)
      ultimately show ?thesis using t f a by (metis prod.inject)
    qed
  qed
qed

text \<open>User addresses: the fault state is part of the answer.\<close>

lemma or_wp_frame [simp]:
  fixes x :: u32
  shows "((x AND 0xFFFFF000) OR (if c then 1 else 0)) AND 0xFFFFF000 = x AND 0xFFFFF000"
    and "((x AND 0xFFFFF000) OR (if c then 1 else 0)) AND 1 = (if c then 1 else 0)"
  by (simp_all add: frame_masks)

lemma fb_frame_aligned:
  assumes "devmap_ok m" "fb_frame m apr va code = Some (fr, pd)"
  shows "fr AND 0xFFFFF000 = fr"
proof -
  have "dp AND 0xFFFFF000 = dp" if "map_of (devmap (mmu m)) p = Some dp" for p dp
    using assms(1) map_of_SomeD[OF that] by (auto simp: devmap_ok_def frame_masks(6))
  then show ?thesis
    using assms(2)
    by (auto simp: fb_frame_def devmap_lookup_def Let_def and.assoc split: option.splits if_splits)
qed

lemma cow_fault_cases:
  "cow_fault m va = (f, m') \<Longrightarrow> f \<longleftrightarrow> procexp (cfg m) \<and> xlat_write (mmu m) \<and> \<not> fault_pending m"
  by (auto simp: cow_fault_def split: if_splits)

lemma tlb_ok_set_ufault [simp]: "tlb_ok (set_ufault m f) \<longleftrightarrow> tlb_ok m"
proof -
  have "key_hit (set_ufault m f) = key_hit m" "key_val (set_ufault m f) = key_val m"
    by (auto simp: fun_eq_iff tlb_hit_def tlb_at_def set_ufault_def)
  then show ?thesis
    using same_entries(1)[of m "set_ufault m f"] by (simp add: tlb_ok_def tlbc.agrees_def)
qed

lemma ufault_updates [simp]:
  "ufault (mmu (upd_stats g m)) = ufault (mmu m)"
  "ufault (mmu (set_ufault m f)) = f"
  "ufault (mmu (tlb_fill m code vpn e)) = ufault (mmu m)"
  by (simp_all add: upd_stats_def set_ufault_def tlb_fill_def)

definition cow_possible :: "machine \<Rightarrow> bool" where
  "cow_possible m \<longleftrightarrow> procexp (cfg m) \<and> xlat_write (mmu m) \<and> \<not> fault_pending m"

lemma cow_fault_spec:
  assumes "cow_fault m va = (f, m')"
  shows "f = cow_possible m" "tlb_ok m \<Longrightarrow> tlb_ok m'"
    "ufault (mmu m') = (if cow_possible m
       then \<lparr>ufault_pending = True, ufault_va = va, ufault_pc = pc m, ufault_code = False,
             ufault_write = True, ufault_width = 4\<rparr>
       else ufault (mmu m))"
  using assms by (auto simp: cow_fault_def cow_possible_def split: if_splits)

lemma translate_user_spec:
  assumes ok: "tlb_ok m" "devmap_ok m" and u: "\<not> (realmm (mem m) \<and> va \<ge> 0xC0000000)"
    and t: "translate_user m va code = (pa, m')"
  shows "(pa, ufault (mmu m')) = user_spec m va code \<and> tlb_ok m'"
proof -
  consider "mode_apr m code AND 1 = 0"
    | "mode_apr m code AND 1 \<noteq> 0" "tlb_hit m code (page_no va)"
    | "mode_apr m code AND 1 \<noteq> 0" "\<not> tlb_hit m code (page_no va)"
    by blast
  then show ?thesis
  proof cases
    case 1
    then show ?thesis using t ok by (auto simp: translate_user_def user_spec_def)
  next
    case 2
    define e where "e = tlb_pa (tlb_at m code (page_no va))"
    have "user_entry m code va = Some e"
      using tlb_hit_entry[OF ok(1) 2(2)] u by (auto simp: page_entry_def e_def)
    then obtain fr pd where f: "fb_frame m (mode_apr m code) va code = Some (fr, pd)"
      and e: "e = (fr AND 0xFFFFF000) OR (if pd AND PTE_WP \<noteq> 0 then 1 else 0)"
      using 2 by (auto simp: user_entry_def split: if_splits)
    have e: "e AND 0xFFFFF000 = fr" "e AND 1 = (if pd AND PTE_WP \<noteq> 0 then 1 else 0)"
      using or_wp_frame[of fr "pd AND PTE_WP \<noteq> 0"] fb_frame_aligned[OF ok(2) f]
      unfolding e by argo+
    obtain g m1 where c: "cow_fault m va = (g, m1)" by fastforce
    have "translate_user m va code =
        (if pd AND PTE_WP \<noteq> 0 then if g then (0, m1) else (fr OR (va AND 0xFFF), m1)
         else (fr OR (va AND 0xFFF), m))"
      using 2 by (simp add: translate_user_def Let_def e_def[symmetric] e c)
    with t cow_fault_spec[OF c] ok 2 show ?thesis
      by (auto simp: user_spec_def Let_def f cow_possible_def split: if_splits)
  next
    case 3
    obtain m1 where w: "walk_fb m (mode_apr m code) va code =
        (map_option (\<lambda>(fr, pd). (fr OR (va AND 0xFFF), pd)) (fb_frame m (mode_apr m code) va code), m1)"
      and st: "tlb_step m m1"
      using walk_fb_step[OF ok(1)] by (metis prod.collapse)
    then have s: "procexp (cfg m1) = procexp (cfg m)" "ufault (mmu m1) = ufault (mmu m)"
      "realmm (mem m1) = realmm (mem m)" "cphys (mem m1) = cphys (mem m)" "pc m1 = pc m"
      "xlat_write (mmu m1) = xlat_write (mmu m)" "tlb_ok m1"
      using sameD[of m m1] by (simp_all add: tlb_step_def)
    show ?thesis
    proof (cases "fb_frame m (mode_apr m code) va code")
      case None
      with t 3 s show ?thesis
        by (auto simp: translate_user_def user_spec_def Let_def w split: if_splits)
    next
      case (Some frpd)
      obtain fr pd where f: "frpd = (fr, pd)" by fastforce
      note Some = Some[unfolded f]
      note fr = fb_frame_aligned[OF ok(2) Some]
      let ?e = "((fr OR (va AND 0xFFF)) AND 0xFFFFF000) OR (if pd AND PTE_WP \<noteq> 0 then 1 else 0)"
      have "?e = fr OR (if pd AND PTE_WP \<noteq> 0 then 1 else 0)"
        by (simp only: frame_masks(2) fr)
      then have "page_entry m code va = Some ?e"
        using u 3 Some fr by (auto simp: page_entry_def user_entry_def)
      from tlb_step_fill[OF st this] have
        fill: "tlb_ok (tlb_fill m1 code (page_no va) ?e)" by (simp add: tlb_step_def)
      define m2 where "m2 = tlb_fill m1 code (page_no va) ?e"
      have s2: "ufault (mmu m2) = ufault (mmu m)" "tlb_ok m2" "pc m2 = pc m"
        "cow_possible m2 = cow_possible m"
        using s fill unfolding m2_def cow_possible_def by (simp_all only:) (simp_all add: tlb_fill_def)
      obtain g m3 where c: "cow_fault m2 va = (g, m3)" by fastforce
      have "translate_user m va code =
          (if pd AND PTE_WP \<noteq> 0 then if g then (0, m3) else (fr OR (va AND 0xFFF), m3)
           else (fr OR (va AND 0xFFF), m2))"
        by (cases "pd AND PTE_WP = 0")
          (use 3 c in \<open>simp_all add: translate_user_def Let_def w Some m2_def\<close>)
      with t cow_fault_spec[OF c] s2 3 show ?thesis
        by (auto simp: user_spec_def Let_def Some cow_possible_def split: if_splits)
    qed
  qed
qed

lemma translate_spec:
  assumes "tlb_ok m" "devmap_ok m" "translate m va code = (pa, m')"
  shows "(pa, ufault (mmu m')) = xlat_spec m va code \<and> tlb_ok m'"
proof (cases "translate_on (mmu m) \<and> realmm (mem m) \<and> va \<ge> 0xC0000000")
  case False
  then show ?thesis
    using assms(3) translate_user_spec[OF assms(1,2) _, of va code pa m'] assms(1)
    by (auto simp: translate_def xlat_spec_def split: if_splits)
next
  case True
  let ?u = "procexp (cfg m) \<and> kdata_off (mmu m) \<noteq> 0 \<and> va \<ge> UAREA_LO \<and> va < UAREA_HI"
  consider "?u" | "\<not> ?u" "va \<ge> 0xE0000000" | "\<not> ?u" "\<not> va \<ge> 0xE0000000" by blast
  then show ?thesis
  proof cases
    case 1
    then have t: "translate_uarea m va code = (pa, m')"
      using assms(3) True by (simp add: translate_def)
    from translate_uarea_spec[OF assms(1) t] 1 True show ?thesis
      unfolding xlat_spec_def tlb_step_def by simp
  next
    case 2
    then have t: "translate_device m va code = (pa, m')"
      using assms(3) True unfolding translate_def by (simp split: if_splits)
    from True have "xlat_spec m va code = (device_addr m va code, ufault (mmu m))"
      using 2 unfolding xlat_spec_def by auto
    with translate_device_spec[OF assms(1) _ _ t] True show ?thesis by simp
  next
    case 3
    then have t: "translate_kernel m va code = (pa, m')"
      using assms(3) True unfolding translate_def by (simp split: if_splits)
    from True have "xlat_spec m va code = (kern_addr m va code, ufault (mmu m))"
      using 3 unfolding xlat_spec_def by auto
    with translate_kernel_spec[OF assms(1) _ _ t] True show ?thesis by (simp add: tlb_step_def)
  qed
qed

text \<open>The scratch pointer is read where \<open>translate\<close> itself would read it.\<close>

lemma scratch_base_translate:
  assumes "translate_on (mmu m)" "realmm (mem m)"
  shows "translate m 0xC0014058 False = translate_kernel m 0xC0014058 False"
  using assms by (simp add: translate_def)

text \<open>Hence filling and evicting never shows: flushing the TLB changes no translation.\<close>

lemma tlb_ok_flush [simp]: "tlb_ok (tlb_flush m)"
  by (simp add: tlb_ok_def tlbc.agrees_flush)

lemma xlat_spec_flush: "xlat_spec (tlb_flush m) va code = xlat_spec m va code"
proof -
  have s: "same_but_mmu m (tlb_flush m)" by simp
  have c: "scratch_cached (mmu (tlb_flush m)) = scratch_cached (mmu m)"
    "ufault (mmu (tlb_flush m)) = ufault (mmu m)"
    by (simp_all add: tlb_flush_def)
  note e = same_entries[OF s] sameD[OF s] c
  have k: "kern_addr (tlb_flush m) = kern_addr m"
    unfolding fun_eq_iff kern_addr_def Let_def e by simp
  show ?thesis
    unfolding xlat_spec_def user_spec_def device_addr_def scratch_value_def table_addr_def Let_def e k
    by simp
qed

section \<open>The page-fault discipline\<close>

text \<open>\<open>fault_step m m' va pa\<close>: either the fault state is as it was, or there was none pending, one
  is now, it names this address and the instruction at \<open>pc\<close>, and the access got address 0.\<close>

definition fault_step :: "machine \<Rightarrow> machine \<Rightarrow> u32 \<Rightarrow> u32 \<Rightarrow> bool" where
  "fault_step m m' va pa \<longleftrightarrow>
     ufault (mmu m') = ufault (mmu m) \<or>
     (\<not> fault_pending m \<and> fault_pending m' \<and> pa = 0 \<and> procexp (cfg m) \<and>
      ufault_va (ufault (mmu m')) = va \<and> ufault_pc (ufault (mmu m')) = pc m \<and>
      \<not> (realmm (mem m) \<and> va \<ge> 0xC0000000))"

lemma ufault_walks:
  "mmu_walk m apr va = (r, m') \<Longrightarrow> ufault (mmu m') = ufault (mmu m)"
  "walk_fb m apr va code = (r, m') \<Longrightarrow> ufault (mmu m') = ufault (mmu m)"
  by (auto simp: walk_fb_def mmu_walk_def Let_def split: option.splits if_splits prod.splits)

lemma ufault_translate_kernel:
  "translate_kernel m va code = (pa, m') \<Longrightarrow> ufault (mmu m') = ufault (mmu m)"
  by (auto simp: translate_kernel_def Let_def ufault_walks split: option.splits if_splits prod.splits)

lemma ufault_scratch_base: "scratch_base m = (sb, m') \<Longrightarrow> ufault (mmu m') = ufault (mmu m)"
  by (auto simp: scratch_base_def Let_def dest: ufault_translate_kernel split: if_splits prod.splits)

lemma ufault_translate_device:
  "translate_device m va code = (pa, m') \<Longrightarrow> ufault (mmu m') = ufault (mmu m)"
  by (auto simp: translate_device_def Let_def dest!: ufault_walks ufault_scratch_base
      split: option.splits if_splits prod.splits)

lemma ufault_translate_uarea:
  "translate_uarea m va code = (pa, m') \<Longrightarrow> ufault (mmu m') = ufault (mmu m)"
  by (auto simp: translate_uarea_def Let_def ufault_walks split: option.splits if_splits prod.splits)

lemma cow_fault_step:
  assumes "cow_fault m va = (f, m')" and "\<not> (realmm (mem m) \<and> va \<ge> 0xC0000000)"
  shows "if f then fault_step m m' va 0 else m' = m"
  using assms by (auto simp: cow_fault_def fault_step_def split: if_splits)

lemma translate_user_fault:
  assumes t: "translate_user m va code = (pa, m')" and u: "\<not> (realmm (mem m) \<and> va \<ge> 0xC0000000)"
  shows "fault_step m m' va pa"
proof -
  obtain r m1 where w: "walk_fb m (mode_apr m code) va code = (r, m1)" by fastforce
  have m1: "ufault (mmu m1) = ufault (mmu m)" "cpu m1 = cpu m" "cfg m1 = cfg m" "mem m1 = mem m"
    using ufault_walks(2)[OF w] same_walk_fb[OF w] sameD[of m m1] by auto
  have f: "fault_step (tlb_fill m1 code (page_no va) e) m' va pa \<Longrightarrow> fault_step m m' va pa" for e
    using m1 by (simp add: fault_step_def) (simp add: tlb_fill_def)
  have g: "fault_step m' m' va pa" by (simp add: fault_step_def)
  consider (disabled) "mode_apr m code AND 1 = 0"
    | (hit) "mode_apr m code AND 1 \<noteq> 0" "tlb_hit m code (page_no va)"
    | (miss) "mode_apr m code AND 1 \<noteq> 0" "\<not> tlb_hit m code (page_no va)" "r = None"
    | (walked) p pd where "mode_apr m code AND 1 \<noteq> 0" "\<not> tlb_hit m code (page_no va)" "r = Some (p, pd)"
    by (cases r) auto
  then show ?thesis
  proof cases
    case disabled
    then show ?thesis using t by (simp add: translate_user_def fault_step_def)
  next
    case hit
    then show ?thesis
      using t u g by (auto simp: translate_user_def Let_def split: if_splits prod.splits
          dest!: cow_fault_step)
  next
    case miss
    then show ?thesis
      using t u m1 by (auto simp: translate_user_def fault_step_def Let_def w split: if_splits)
  next
    case walked
    let ?m2 = "tlb_fill m1 code (page_no va) ((p AND 0xFFFFF000) OR (if pd AND PTE_WP \<noteq> 0 then 1 else 0))"
    obtain c m3 where c: "cow_fault ?m2 va = (c, m3)" by fastforce
    have "realmm (mem ?m2) = realmm (mem m)" using m1 by (simp add: tlb_fill_def)
    with u have s: "if c then fault_step ?m2 m3 va 0 else m3 = ?m2"
      using cow_fault_step[OF c] by simp
    have "translate_user m va code = (if pd AND PTE_WP \<noteq> 0 then if c then (0, m3) else (p, m3) else (p, ?m2))"
      by (cases "pd AND PTE_WP = 0")
        (use walked c in \<open>simp_all add: translate_user_def Let_def w\<close>)
    with t s f g show ?thesis by (auto split: if_splits)
  qed
qed

lemma translate_fault: "translate m va code = (pa, m') \<Longrightarrow> fault_step m m' va pa"
  using translate_user_fault[of m va code pa m']
  by (auto simp: translate_def fault_step_def split: if_splits
      dest: ufault_translate_kernel ufault_translate_device ufault_translate_uarea)

section \<open>Properties\<close>

text \<open>C2. The TLB never shows.  On a machine whose TLB agrees with the page tables and whose device
  pages are page-aligned, a translation gives the same physical address and the same fault state
  as the one with an empty TLB, and leaves the TLB in agreement; that holds for kernel,
  device, u-area and user addresses, on both sides, faulting or not.\<close>

theorem tlb_transparent:
  assumes "tlb_ok m" "devmap_ok m"
  shows "fst (translate m va code) = fst (translate (tlb_flush m) va code) \<and>
    ufault (mmu (snd (translate m va code))) = ufault (mmu (snd (translate (tlb_flush m) va code))) \<and>
    tlb_ok (snd (translate m va code))"
proof -
  have "devmap_ok (tlb_flush m)" using assms(2) by (simp add: devmap_ok_def tlb_flush_def)
  with assms show ?thesis
    using translate_spec[of m va code] translate_spec[of "tlb_flush m" va code]
      xlat_spec_flush[of m va code]
    by (metis prod.collapse prod.inject tlb_ok_flush)
qed

theorem tlb_transparent_witness:
  "fst (translate machine0 0x1234 True) = fst (translate (tlb_flush machine0) 0x1234 True)"
proof -
  have f: "machine0 = tlb_flush machine0"
    by (simp add: machine0_def mmu0_def tlb_flush_def empty_ent_def)
  then have "tlb_ok machine0" by (metis tlb_ok_flush)
  moreover have "devmap_ok machine0" by (simp add: devmap_ok_def machine0_def mmu0_def)
  ultimately show ?thesis using tlb_transparent[of machine0 "0x1234" True] by simp
qed

text \<open>C14. Translation is precise about faults: it never disturbs a pending fault, and a fault it
  records names the address translated and the instruction at the program counter, gives the access
  address 0, and is recorded only for user addresses under \<open>procexp\<close>.\<close>

theorem translate_fault_precise:
  "ufault (mmu (snd (translate m va code))) = ufault (mmu m) \<or>
   (\<not> fault_pending m \<and> fault_pending (snd (translate m va code)) \<and> fst (translate m va code) = 0 \<and>
    procexp (cfg m) \<and> ufault_va (ufault (mmu (snd (translate m va code)))) = va \<and>
    ufault_pc (ufault (mmu (snd (translate m va code)))) = pc m \<and>
    \<not> (realmm (mem m) \<and> va \<ge> 0xC0000000))"
  using translate_fault[of m va code "fst (translate m va code)" "snd (translate m va code)"]
  by (simp add: fault_step_def)

text \<open>Copy-on-write: a store to a user page whose descriptor has the write-protect bit always
  raises the write fault, whether the page is in the TLB or walked.\<close>

theorem cow_store_faults:
  assumes "tlb_ok m" "devmap_ok m" "translate_on (mmu m)" "\<not> (realmm (mem m) \<and> va \<ge> 0xC0000000)"
    and "mode_apr m code AND 1 \<noteq> 0" "mmu_lookup m (mode_apr m code) va = Some (pa, pd)"
    and "pd AND 4 \<noteq> 0" "procexp (cfg m)" "xlat_write (mmu m)" "\<not> fault_pending m"
  shows "fst (translate m va code) = 0 \<and>
    ufault (mmu (snd (translate m va code))) = \<lparr>ufault_pending = True, ufault_va = va,
       ufault_pc = pc m, ufault_code = False, ufault_write = True, ufault_width = 4\<rparr>"
proof -
  have "mmu_pd m (mode_apr m code) va = Some pd" using assms(6) by (simp add: mmu_pd_def)
  then have "fb_frame m (mode_apr m code) va code = Some (pd AND 0xFFFFF000, pd)"
    by (simp add: fb_frame_def)
  then have "user_spec m va code = (0, \<lparr>ufault_pending = True, ufault_va = va,
       ufault_pc = pc m, ufault_code = False, ufault_write = True, ufault_width = 4\<rparr>)"
    using assms by (simp add: user_spec_def)
  moreover have "xlat_spec m va code = user_spec m va code"
    using assms(3,4) by (auto simp: xlat_spec_def)
  ultimately show ?thesis
    using translate_spec[OF assms(1,2), of va code] by (metis fst_conv prod.collapse snd_conv)
qed

text \<open>A machine with the user page \<open>0x1000\<close> write-protected at frame \<open>0x7000\<close>.\<close>

definition cow_machine :: machine where
  "cow_machine = machine0\<lparr>
     mem := mem_w32 (mem_w32 (mem_w32 mem0 0xFFF7E204 0x5001) 0x5000 0x6001) 0x6004 0x7005,
     mmu := mmu0\<lparr>translate_on := True, xlat_write := True\<rparr>,
     cfg := cfg0\<lparr>procexp := True\<rparr>\<rparr>"

theorem cow_store_faults_witness:
  "fst (translate cow_machine 0x1234 False) = 0"
proof -
  have f: "tlb_flush cow_machine = cow_machine"
    by (simp add: cow_machine_def machine0_def mmu0_def tlb_flush_def empty_ent_def)
  have "tlb_ok cow_machine" using tlb_ok_flush[of cow_machine] by (simp add: f)
  moreover have "devmap_ok cow_machine" "translate_on (mmu cow_machine)" "\<not> realmm (mem cow_machine)"
    "procexp (cfg cow_machine)" "xlat_write (mmu cow_machine)" "\<not> fault_pending cow_machine"
    by (simp_all add: devmap_ok_def cow_machine_def machine0_def mmu0_def mem0_def)
  moreover have a: "mode_apr cow_machine False = 0x5001"
    by (code_simp)
  moreover have "mmu_lookup cow_machine (mode_apr cow_machine False) 0x1234 = Some (0x7234, 0x7005)"
    by code_simp
  ultimately show ?thesis using cow_store_faults[of cow_machine "0x1234" False "0x7234" "0x7005"] by simp
qed

text \<open>Translation touches nothing but translation state: memory, processor, devices, flags and
  the translation settings are those of before.\<close>

theorem translate_keeps_machine:
  "same_but_mmu m (snd (translate m va code))"
  by (rule same_translate_snd)

text \<open>An invalidate command written to a CMMU brings the TLB back into agreement with the page
  tables whatever it held, and changes no memory.\<close>

theorem cmmu_invalidate_restores:
  assumes "cmd \<noteq> 0x20" "cmd \<noteq> 0x24"
  shows "tlb_ok (cmmu_command m base cmd) \<and> same_but_mmu m (cmmu_command m base cmd)"
  using assms by (simp add: cmmu_command_def)

theorem cmmu_invalidate_restores_witness:
  "tlb_ok (cmmu_command machine0 0xFFF7E000 0x30)"
  using cmmu_invalidate_restores[of "0x30" machine0 "0xFFF7E000"] by simp

end
