(* ===== verification/Devices.thy ===== *)
theory Devices
  imports Tlb
begin

text \<open>
  The devices of \<^verbatim>\<open>devices.c\<close>: \<open>memop\<close>, the dispatch every load, store and exchange goes through;
  the device registers behind \<open>dev_read32\<close> and \<open>dev_write32\<close>; the front-end mailbox; the SCSI
  target and its label.  The host's image files are byte lists.

  \<open>memop\<close> gives \<open>None\<close> where the C loop that drains the diagnostic ring does not end; the lemmas
  say exactly when that is.  They also show that a faulting access leaves memory, registers and
  devices alone, that an access to plain memory is a memory access, that an area-pointer write
  brings the TLB back into agreement, and that the label is checksummed and written once.
\<close>

definition upd_dev :: "(dev_state \<Rightarrow> dev_state) \<Rightarrow> machine \<Rightarrow> machine" where
  "upd_dev f m = m\<lparr>dev := f (dev m)\<rparr>"

abbreviation (input) TIMER_ADDR :: u32 where "TIMER_ADDR \<equiv> 0xE07E8018"
abbreviation (input) TIMER_CMP_REG :: u32 where "TIMER_CMP_REG \<equiv> 0xE07E0004"
abbreviation (input) TIMER_ENA_REG :: u32 where "TIMER_ENA_REG \<equiv> 0xE07E0000"
abbreviation (input) CMRAM_SELECT :: u32 where "CMRAM_SELECT \<equiv> 0xE07EA00C"
abbreviation (input) CMRAM_DATA :: u32 where "CMRAM_DATA \<equiv> 0xE07EB000"
abbreviation (input) IRQ_SOURCE_REG :: u32 where "IRQ_SOURCE_REG \<equiv> 0xE0780018"
abbreviation (input) SHA_BASE :: u32 where "SHA_BASE \<equiv> 0xFC008800"
abbreviation (input) SHA_STATUS :: u32 where "SHA_STATUS \<equiv> 0xFC008800"
abbreviation (input) SHA_CMD :: u32 where "SHA_CMD \<equiv> 0xFC008802"
abbreviation (input) HPS_RING_CONS :: u32 where "HPS_RING_CONS \<equiv> 0xFE001802"
abbreviation (input) HPS_RING_PROD :: u32 where "HPS_RING_PROD \<equiv> 0xFE001803"

section \<open>Registers of the node\<close>

definition timer_now :: "machine \<Rightarrow> u32" where
  "timer_now m =
     (if tick_div (dev m) \<noteq> 0 then ucast (cpu_count (cpu m) div ucast (tick_div (dev m)))
      else ucast (cpu_count (cpu m) * ucast (tick_scale (dev m))))"

definition is_cmmu_id :: "machine \<Rightarrow> u32 \<Rightarrow> bool" where
  "is_cmmu_id m a \<longleftrightarrow> a \<in> set (cmmu_present (dev m))"

definition cmmu_id_for :: "u32 \<Rightarrow> u32" where
  "cmmu_id_for a = push_bit 24 (drop_bit 12 a AND 0xFF) OR 0x00A00000"

definition dev_read32 :: "machine \<Rightarrow> u32 \<Rightarrow> u32 \<times> machine" where
  "dev_read32 m a =
     (if sysmode m \<and> a = TIMER_ADDR then (timer_now m, m)
      else if sysmode m \<and> is_cmmu_id m a then (cmmu_id_for a, m)
      else if sysmode m \<and> a = CMRAM_DATA then
        (cmram_r32 (mem m) (cmram_sel (dev m) AND NOT 3),
         upd_dev (\<lambda>d. d\<lparr>cmram_reads := cmram_reads d + 1\<rparr>) m)
      else if sysmode m \<and> a = IRQ_SOURCE_REG then (irq_source (dev m), m)
      else if sysmode m \<and> (a = 0xE07EA008 \<or> a = 0xE07EA010 \<or> a = 0xE07EA028) then (0, m)
      else (rd32 m a, m))"

definition tcs_poke :: "machine \<Rightarrow> u32 \<Rightarrow> machine" where
  "tcs_poke m a =
     (let box = tcs_mbox_pa (dev m) in
      if a \<noteq> box then m
      else if rd8 m box = 0 then m
      else
        (let m = wr8 m box 0; m = wr8 m (box + 5) 1
         in upd_dev (\<lambda>d. d\<lparr>tcs_commands := tcs_commands d + 1\<rparr>) m))"

definition cmmu_base_of :: "machine \<Rightarrow> u32 \<Rightarrow> u32 option" where
  "cmmu_base_of m a = List.find (\<lambda>b. b \<le> a \<and> a < b + 0x1000) (cmmu_present (dev m))"

definition dev_write32 :: "machine \<Rightarrow> u32 \<Rightarrow> u32 \<Rightarrow> machine" where
  "dev_write32 m a v =
     (if sysmode m \<and> a = CMRAM_SELECT then upd_dev (\<lambda>d. d\<lparr>cmram_sel := v\<rparr>) m
      else if sysmode m \<and> a = CMRAM_DATA then
        upd_dev (\<lambda>d. d\<lparr>cmram_writes := cmram_writes d + 1\<rparr>)
          (m\<lparr>mem := cmram_w32 (mem m) (cmram_sel (dev m) AND NOT 3) v\<rparr>)
      else if sysmode m \<and> a = IRQ_SOURCE_REG then upd_dev (\<lambda>d. d\<lparr>irq_source := v\<rparr>) m
      else
        (let m = (if sysmode m \<and> a = TIMER_CMP_REG
                  then upd_dev (\<lambda>d. d\<lparr>clock_deadline := v, clock_armed := True\<rparr>) m else m);
             m = (if sysmode m \<and> a = TIMER_ENA_REG
                  then upd_dev (\<lambda>d. d\<lparr>clock_enabled := (v \<noteq> 0)\<rparr>) m else m);
             m = wr32 m a v
         in if \<not> sysmode m then m
            else
              (let m = tcs_poke m a in
               case cmmu_base_of m a of
                 None \<Rightarrow> m
               | Some base \<Rightarrow>
                   (let off = a - base in
                    if off = CMMU_SCR then cmmu_command m base v
                    else if off = CMMU_SAPR \<or> off = CMMU_UAPR then tlb_flush m
                    else m))))"

section \<open>The load/store dispatch\<close>

definition memop_scale :: "u32 \<Rightarrow> u32" where
  "memop_scale sub = [1, 4, 2, 1, 8, 4, 2, 1, 8, 4, 2, 1, 8, 4, 2, 1] ! unat sub"

text \<open>The stores, and the exchanges, which also store.\<close>

definition is_store :: "u32 \<Rightarrow> bool" where
  "is_store sub \<longleftrightarrow> (sub \<ge> 0x08 \<and> sub \<le> 0x0B) \<or> sub \<le> 0x01"

text \<open>The front end takes every byte of the ring; what it prints is left out.\<close>

partial_function (option) hps_drain :: "u8 \<Rightarrow> u8 \<Rightarrow> u8 option" where
  "hps_drain c p = (if c = p then Some c else hps_drain ((c + 1) AND 0x7F) p)"

definition set_xlat_write :: "machine \<Rightarrow> bool \<Rightarrow> machine" where
  "set_xlat_write m b = m\<lparr>mmu := (mmu m)\<lparr>xlat_write := b\<rparr>\<rparr>"

text \<open>The device windows \<open>memop\<close> answers itself; \<open>None\<close> where it falls through to the dispatch on
  the operation.\<close>

definition memop_sha :: "machine \<Rightarrow> u32 \<Rightarrow> u32 \<Rightarrow> u32 \<Rightarrow> machine option" where
  "memop_sha m sub D ea =
     (if sysmode m \<and> ea = SHA_CMD \<and> sub = 0x0A then
        (let v = (ucast (RD m D) :: u16);
             m = (if v = 0x1000 then upd_dev (\<lambda>d. d\<lparr>sha_status := 1\<rparr>) m
                  else if v = 0 then upd_dev (\<lambda>d. d\<lparr>sha_status := 2\<rparr>) m
                  else if v = 1 then wr16 m (SHA_BASE + 0x73c) (ucast (sha_done_status (dev m)))
                  else m)
         in Some (wr16 m ea v))
      else if sysmode m \<and> ea = SHA_STATUS \<and> (sub = 0x02 \<or> sub = 0x06) then
        Some (WR m D (if sub = 0x06 then s16_to_s32 (sha_status (dev m))
                      else ucast (sha_status (dev m))))
      else if sysmode m \<and> (ea = SHA_BASE + 0x08 \<or> ea = SHA_BASE + 0x10) \<and> (sub = 0x02 \<or> sub = 0x06)
        then Some (WR m D (ucast (rd16 m ea) AND NOT 1))
      else None)"

definition memop_timer :: "machine \<Rightarrow> u32 \<Rightarrow> u32 \<Rightarrow> u32 \<Rightarrow> machine option" where
  "memop_timer m sub D ea =
     (if sysmode m \<and> ea AND NOT 3 = TIMER_ADDR then
        (let t = timer_now m; off = ea AND 3;
             h = drop_bit (if off < 2 then 16 else 0) t AND 0xFFFF;
             b = drop_bit (24 - unat off * 8) t AND 0xFF
         in if sub = 0x05 then Some (WR m D t)
            else if sub = 0x02 then Some (WR m D h)
            else if sub = 0x06 then Some (WR m D (s16_to_s32 (ucast h)))
            else if sub = 0x03 then Some (WR m D b)
            else if sub = 0x07 then Some (WR m D (s8_to_s32 (ucast b)))
            else None)
      else None)"

definition memop_access :: "machine \<Rightarrow> u32 \<Rightarrow> u32 \<Rightarrow> u32 \<Rightarrow> machine" where
  "memop_access m sub D ea =
     (if sub = 0x05 then (let (v, m) = dev_read32 m ea in WR m D v)
      else if sub = 0x07 then WR m D (s8_to_s32 (rd8 m ea))
      else if sub = 0x03 then WR m D (ucast (rd8 m ea))
      else if sub = 0x06 then WR m D (s16_to_s32 (rd16 m ea))
      else if sub = 0x02 then WR m D (ucast (rd16 m ea))
      else if sub = 0x04 then
        (let (v, m) = dev_read32 m ea; m = WR m D v;
             (w, m) = dev_read32 m (ea + 4) in WR m (D + 1) w)
      else if sub = 0x09 then dev_write32 m ea (RD m D)
      else if sub = 0x0B then tcs_poke (wr8 m ea (ucast (RD m D))) ea
      else if sub = 0x0A then wr16 m ea (ucast (RD m D))
      else if sub = 0x08 then
        (let m = dev_write32 m ea (RD m D) in dev_write32 m (ea + 4) (RD m (D + 1)))
      else if sub = 0x01 then
        (let old = rd32 m ea in WR (wr32 m ea (RD m D)) D old)
      else if sub = 0x00 then
        (let old = rd8 m ea in WR (wr8 m ea (ucast (RD m D))) D (ucast old))
      else m)"

definition memop :: "machine \<Rightarrow> u32 \<Rightarrow> u32 \<Rightarrow> u32 \<Rightarrow> machine option" where
  "memop m sub D ea =
     (if sub \<ge> 0x0C \<and> sub \<le> 0x0F then Some (WR m D ea)
      else
        (let m = set_xlat_write m (is_store sub);
             (ea, m) = translate m ea False;
             m = set_xlat_write m False
         in if fault_pending m then
              Some (set_ufault m ((ufault (mmu m))\<lparr>ufault_write := is_store sub,
                                                     ufault_width := memop_scale sub\<rparr>))
            else
              (case memop_sha m sub D ea of
                 Some m \<Rightarrow> Some m
               | None \<Rightarrow>
                   if sysmode m \<and> ea = HPS_RING_CONS \<and> (sub = 0x03 \<or> sub = 0x07) then
                     (case hps_drain (rd8 m HPS_RING_CONS) (rd8 m HPS_RING_PROD) of
                        None \<Rightarrow> None
                      | Some cons \<Rightarrow>
                          Some (WR (wr8 m HPS_RING_CONS cons) D
                                  (if sub = 0x07 then s8_to_s32 cons else ucast cons)))
                   else
                     (case memop_timer m sub D ea of
                        Some m \<Rightarrow> Some m
                      | None \<Rightarrow> Some (memop_access m sub D ea)))))"

section \<open>The host's image files\<close>

text \<open>\<open>fread\<close> after \<open>fseek\<close>: the bytes there are, short at the end; \<open>fwrite\<close> past the end leaves a
  hole of zeros.\<close>

definition file_read :: "u8 list \<Rightarrow> nat \<Rightarrow> nat \<Rightarrow> u8 list" where
  "file_read f off n = take n (drop off f)"

definition file_write :: "u8 list \<Rightarrow> nat \<Rightarrow> u8 list \<Rightarrow> u8 list" where
  "file_write f off bs =
     (if bs = [] then f
      else take off f @ replicate (off - length f) 0 @ bs @ drop (off + length bs) f)"

text \<open>A read into a zeroed buffer.\<close>

definition file_read0 :: "u8 list \<Rightarrow> nat \<Rightarrow> nat \<Rightarrow> u8 list" where
  "file_read0 f off n = (let g = file_read f off n in g @ replicate (n - length g) 0)"

definition c_string :: "string \<Rightarrow> u8 list" where
  "c_string s = map (\<lambda>c. word_of_nat (of_char c)) s"

section \<open>The SCSI target\<close>

definition inquiry_data :: "u8 list" where
  "inquiry_data =
     [0x00, 0x00, 0x02, 0x02, 0x1f, 0, 0, 0] @ c_string ''BBN     '' @ c_string ''EMULATED DISK   ''
       @ c_string ''0001''"

text \<open>The effect of one command on the target; \<open>cdbw\<close> and \<open>cdbw2\<close> are the first eight bytes of its
  descriptor block.\<close>

definition scsi_command :: "machine \<Rightarrow> u32 \<Rightarrow> u32 \<Rightarrow> u32 \<Rightarrow> u32 \<Rightarrow> machine" where
  "scsi_command m dma cdbw cdbw2 xfer =
     (let op = (ucast (drop_bit 24 cdbw) :: u8);
          xfer = (if xfer > 0x10000 then 0x10000 else xfer);
          lba10 = push_bit 16 cdbw OR drop_bit 16 cdbw2;
          lba = (if op = 0x08 \<or> op = 0x0a then cdbw AND 0x1FFFFF else lba10);
          pos = unat lba * 512
      in if op = 0x12 then
           m\<lparr>mem := mem_load (mem m) dma (take (unat xfer) inquiry_data)\<rparr>
         else if op = 0x08 \<or> op = 0x28 then
           (if dma = 0 then m
            else
              m\<lparr>mem := mem_load (mem m) dma
                 (file_read0 (case disk_img (dev m) of None \<Rightarrow> [] | Some f \<Rightarrow> f) pos (unat xfer))\<rparr>)
         else if op = 0x0a \<or> op = 0x2a then
           (case disk_img (dev m) of
              None \<Rightarrow> m
            | Some f \<Rightarrow>
                if dma = 0 then m
                else upd_dev (\<lambda>d. d\<lparr>disk_img :=
                       Some (file_write f pos (map (\<lambda>i. rd8 m (dma + of_nat i)) [0..<unat xfer]))\<rparr>) m)
         else if op = 0x25 then
           (let sz = (case disk_img (dev m) of None \<Rightarrow> 0 | Some f \<Rightarrow> length f);
                last = (if sz \<noteq> 0 then of_nat (sz div 512) - 1 else 0x3FFFF) :: u32
            in if dma = 0 then m
               else m\<lparr>mem := mem_load (mem m) dma
                      [byte_of 0 last, byte_of 1 last, byte_of 2 last, byte_of 3 last, 0, 0, 2, 0]\<rparr>)
         else m)"

definition sha_sdcomplete :: "machine \<Rightarrow> u32 \<Rightarrow> machine" where
  "sha_sdcomplete m cmd =
     (let (target, m) = vr32 m (cmd + 0x44);
          (dma, m) = vr32 m (cmd + 0x10);
          (cdbw, m) = vr32 m (cmd + 0x70);
          (xfer, m) = vr32 m (cmd + 0x90)
      in if target \<noteq> 0 then m
         else (let (cdbw2, m) = vr32 m (cmd + 0x74) in scsi_command m dma cdbw cdbw2 xfer))"

definition sha_complete :: "machine \<Rightarrow> machine" where
  "sha_complete m =
     (let desc = RD m 27 in
      if desc \<ge> 0xC0000000 then
        (let (pa, m) = translate m (desc + 4) False
         in wr32 m pa (rd32 m pa AND NOT (sha_desc_clear (dev m))))
      else m)"

section \<open>The disk label\<close>

fun dec_digits :: "nat \<Rightarrow> string" where
  "dec_digits n =
     (if n < 10 then [char_of (48 + n)] else dec_digits (n div 10) @ [char_of (48 + n mod 10)])"

declare dec_digits.simps [simp del]

definition put16 :: "nat \<Rightarrow> u16 \<Rightarrow> u8 list \<Rightarrow> u8 list" where
  "put16 p v l = l[p := hbyte_of 0 v, p + 1 := hbyte_of 1 v]"

definition put32 :: "nat \<Rightarrow> u32 \<Rightarrow> u8 list \<Rightarrow> u8 list" where
  "put32 p v l = l[p := byte_of 0 v, p + 1 := byte_of 1 v, p + 2 := byte_of 2 v, p + 3 := byte_of 3 v]"

definition get16 :: "nat \<Rightarrow> u8 list \<Rightarrow> u16" where
  "get16 p l = be16 (l ! p) (l ! (p + 1))"

fun xor_shorts :: "u8 list \<Rightarrow> u16" where
  "xor_shorts (a # b # l) = be16 a b XOR xor_shorts l"
| "xor_shorts _ = 0"

text \<open>The cylinder count the label gives a file of \<open>sz\<close> bytes; 1008 blocks to a cylinder.\<close>

definition label_ncyl :: "nat \<Rightarrow> u32" where
  "label_ncyl sz =
     (let n = of_nat (sz div 512) div 1008 :: u32; n = (if n = 0 then 1 else n)
      in if n > 0xFFFF then 0xFFFF else n)"

definition label_matches :: "u8 list \<Rightarrow> bool" where
  "label_matches f \<longleftrightarrow>
     (let lbl = file_read f 0 512 in
      length lbl = 512 \<and> lbl ! 0x1FC = 0xDA \<and> lbl ! 0x1FD = 0xBE \<and>
      get16 0x1B0 lbl = ucast (label_ncyl (length f)) \<and> get16 0x1B4 lbl = 16 \<and> get16 0x1B6 lbl = 63)"

text \<open>\<open>snprintf\<close> into the first 128 bytes, the last of them the terminator.\<close>

definition label_text :: "u32 \<Rightarrow> u8 list" where
  "label_text ncyl =
     take 127 (c_string (''BBN emulated disk cyl '' @ dec_digits (unat ncyl) @ '' alt 0 hd 16 sec 63''))"

definition label_fields :: "u32 \<Rightarrow> u8 list" where
  "label_fields ncyl =
     (let blocks = ncyl * 16 * 63;
          t = label_text ncyl;
          l = t @ replicate (512 - length t) 0;
          l = put16 0x1A4 3600 l; l = put16 0x1A6 (ucast ncyl) l;
          l = put16 0x1B0 (ucast ncyl) l; l = put16 0x1B2 0 l;
          l = put16 0x1B4 16 l; l = put16 0x1B6 63 l;
          l = put32 (0x1BC + 8) 0 l; l = put32 (0x1BC + 12) blocks l;
          l = put32 (0x1BC + 16) 0 l; l = put32 (0x1BC + 20) blocks l
      in put16 0x1FC 0xDABE l)"

definition sd_label :: "u32 \<Rightarrow> u8 list" where
  "sd_label ncyl =
     (let l = label_fields ncyl in put16 0x1FE (xor_shorts (take 510 l)) l)"

definition sd_ensure_label :: "machine \<Rightarrow> machine" where
  "sd_ensure_label m =
     (case disk_img (dev m) of
        None \<Rightarrow> m
      | Some f \<Rightarrow>
          if f = [] \<or> label_matches f then m
          else upd_dev (\<lambda>d. d\<lparr>disk_img := Some (file_write f 0 (sd_label (label_ncyl (length f))))\<rparr>) m)"

section \<open>Frames and plain memory\<close>

lemma upd_dev_frame [simp]:
  "mem (upd_dev f m) = mem m" "mmu (upd_dev f m) = mmu m" "cpu (upd_dev f m) = cpu m"
  "cfg (upd_dev f m) = cfg m" "sysmode (upd_dev f m) = sysmode m" "dev (upd_dev f m) = f (dev m)"
  "in_kcall (upd_dev f m) = in_kcall m" "RD (upd_dev f m) = RD m"
  by (simp_all add: upd_dev_def RD_def fun_eq_iff)

lemma set_xlat_write_frame [simp]:
  "mem (set_xlat_write m b) = mem m" "cpu (set_xlat_write m b) = cpu m"
  "cfg (set_xlat_write m b) = cfg m" "sysmode (set_xlat_write m b) = sysmode m"
  "dev (set_xlat_write m b) = dev m" "in_kcall (set_xlat_write m b) = in_kcall m"
  "RD (set_xlat_write m b) = RD m" "ufault (mmu (set_xlat_write m b)) = ufault (mmu m)"
  "translate_on (mmu (set_xlat_write m b)) = translate_on (mmu m)"
  by (simp_all add: set_xlat_write_def RD_def fun_eq_iff)

lemma set_ufault_frame [simp]:
  "mem (set_ufault m f) = mem m" "cpu (set_ufault m f) = cpu m" "cfg (set_ufault m f) = cfg m"
  "sysmode (set_ufault m f) = sysmode m" "dev (set_ufault m f) = dev m"
  "in_kcall (set_ufault m f) = in_kcall m" "RD (set_ufault m f) = RD m"
  by (simp_all add: set_ufault_def RD_def fun_eq_iff)

text \<open>A fault aborts the access before anything but the fault record changes.\<close>

lemma memop_fault:
  assumes "memop m sub D ea = Some m'" "\<not> (sub \<ge> 0x0C \<and> sub \<le> 0x0F)"
    and "fault_pending (snd (translate (set_xlat_write m (is_store sub)) ea False))"
  shows "mem m' = mem m \<and> cpu m' = cpu m \<and> dev m' = dev m \<and> fault_pending m' \<and>
    ufault_write (ufault (mmu m')) = is_store sub"
proof -
  obtain pa m1 where t: "translate (set_xlat_write m (is_store sub)) ea False = (pa, m1)" by fastforce
  have "memop m sub D ea = Some (set_ufault (set_xlat_write m1 False)
      ((ufault (mmu m1))\<lparr>ufault_write := is_store sub, ufault_width := memop_scale sub\<rparr>))"
    using assms(2,3) t unfolding memop_def Let_def by auto
  with assms(1) have m': "m' = set_ufault (set_xlat_write m1 False)
      ((ufault (mmu m1))\<lparr>ufault_write := is_store sub, ufault_width := memop_scale sub\<rparr>)" by simp
  have "mem m1 = mem m" "cpu m1 = cpu m" "dev m1 = dev m"
    using sameD(1-3)[OF same_translate[OF t]] by simp_all
  moreover have "fault_pending m1" using assms(3) t by simp
  ultimately show ?thesis unfolding m' by (simp add: set_ufault_def)
qed

section \<open>The diagnostic ring\<close>

lemma unat_and_7f: "unat (c AND 0x7F :: u8) = unat c mod 128"
  using unat_and_mask[of c 7] by (simp add: mask_eq_exp_minus_1)

lemma unat_ring_next: "unat ((c + 1) AND 0x7F :: u8) = (unat c + 1) mod 128"
proof -
  have "(unat c + 1) mod 256 mod 128 = (unat c + 1) mod 128"
    using mod_mod_cancel[of 128 256 "unat c + 1"] by simp
  then show ?thesis by (simp add: unat_and_7f unat_word_ariths)
qed

lemma hps_drain_partial:
  assumes "hps_drain c p = Some r"
  shows "r = p \<and> (c = p \<or> p < 0x80)"
proof (rule hps_drain.raw_induct[OF _ assms])
  fix drain c p and r :: u8
  assume ih: "\<And>c p r. drain c p = Some r \<Longrightarrow> r = p \<and> (c = p \<or> p < 0x80)"
    and s: "(if c = p then Some c else drain ((c + 1) AND 0x7F) p) = Some r"
  show "r = p \<and> (c = p \<or> p < 0x80)"
  proof (cases "c = p")
    case False
    with s have d: "drain ((c + 1) AND 0x7F) p = Some r" by simp
    have "p < 0x80" if "(c + 1) AND 0x7F = p"
      using that unat_ring_next[of c] by (simp add: word_less_nat_alt)
    with ih[OF d] show ?thesis by auto
  qed (use s in simp)
qed

lemma hps_drain_in_ring:
  "c < 0x80 \<Longrightarrow> n < 128 \<Longrightarrow> unat p = (unat c + n) mod 128 \<Longrightarrow> hps_drain c p = Some p"
proof (induction n arbitrary: c)
  case 0
  then have "c = p" by (simp add: word_less_nat_alt word_unat_eq_iff)
  then show ?case by (simp add: hps_drain.simps)
next
  case (Suc n)
  let ?c = "(c + 1) AND 0x7F"
  have "unat p = (unat ?c + n) mod 128"
    using Suc.prems(3) by (simp only: unat_ring_next mod_add_left_eq) (simp add: ac_simps)
  moreover have "?c < 0x80" by (simp add: word_less_nat_alt unat_ring_next)
  ultimately have "hps_drain ?c p = Some p" using Suc by simp
  then show ?case by (subst hps_drain.simps) simp
qed

text \<open>The drain ends exactly when the producer index is in the ring, or is already reached.\<close>

lemma hps_drain_eq: "hps_drain c p = (if c = p \<or> p < 0x80 then Some p else None)"
proof (cases "c = p \<or> p < 0x80")
  case False
  then show ?thesis using hps_drain_partial[of c p] by (cases "hps_drain c p") auto
next
  case True
  have ring: "hps_drain c p = Some p" if "c < 0x80" "p < 0x80" for c
  proof (rule hps_drain_in_ring[OF that(1)])
    show "(unat p + 128 - unat c) mod 128 < 128" by simp
    have "(unat c + (unat p + 128 - unat c)) mod 128 = unat p"
      using that by (simp add: word_less_nat_alt)
    then show "unat p = (unat c + (unat p + 128 - unat c) mod 128) mod 128"
      by (simp only: mod_add_right_eq)
  qed
  show ?thesis
  proof (cases "c = p")
    case False
    with True have p: "p < 0x80" by simp
    have "(c + 1) AND 0x7F < (0x80 :: u8)" by (simp add: word_less_nat_alt unat_ring_next)
    from ring[OF this p] False p show ?thesis by (subst hps_drain.simps) simp
  qed (simp add: hps_drain.simps)
qed

section \<open>The disk\<close>

lemma length_file_write [simp]: "length (file_write f off bs) =
    (if bs = [] then length f else max (length f) (off + length bs))"
  by (auto simp: file_write_def)

lemma file_read_write: "file_read (file_write f off bs) off (length bs) = bs"
  by (simp add: file_read_def file_write_def)

lemma file_read_write0: "file_read0 (file_write f off bs) off (length bs) = bs"
  unfolding file_read0_def Let_def by (simp add: file_read_write)

lemma length_file_read0 [simp]: "length (file_read0 f off n) = n"
  by (simp add: file_read0_def file_read_def)

section \<open>The label\<close>

lemma xor_shorts_append:
  "even (length l) \<Longrightarrow> xor_shorts (l @ [a, b]) = xor_shorts l XOR be16 a b"
proof (induction l rule: xor_shorts.induct)
  case (1 a' b' l)
  then show ?case by (simp add: xor.assoc)
qed auto

lemma length_label_fields [simp]: "length (label_fields n) = 512"
  by (simp add: label_fields_def put16_def put32_def Let_def label_text_def)

lemma length_sd_label [simp]: "length (sd_label n) = 512"
  by (simp add: sd_label_def Let_def put16_def)

lemma sd_label_split:
  "sd_label n = take 510 (label_fields n) @
     [hbyte_of 0 (xor_shorts (take 510 (label_fields n))),
      hbyte_of (Suc 0) (xor_shorts (take 510 (label_fields n)))]"
  by (rule nth_equalityI)
    (auto simp: sd_label_def put16_def Let_def nth_append nth_list_update less_Suc_eq_le
      dest: le_antisym)

lemma sd_label_checksum: "xor_shorts (sd_label n) = 0"
  unfolding sd_label_split by (subst xor_shorts_append) simp_all

lemma sd_label_fields:
  "sd_label n ! 0x1FC = 0xDA" "sd_label n ! 0x1FD = 0xBE"
  "get16 0x1B0 (sd_label n) = ucast n" "get16 0x1B4 (sd_label n) = 16" "get16 0x1B6 (sd_label n) = 63"
proof -
  show "sd_label n ! 0x1FC = 0xDA" "sd_label n ! 0x1FD = 0xBE"
    by (simp_all add: sd_label_def label_fields_def put16_def put32_def Let_def label_text_def
        hbyte_of_def)
  show "get16 0x1B0 (sd_label n) = ucast n" "get16 0x1B4 (sd_label n) = 16"
    "get16 0x1B6 (sd_label n) = 63"
    by (simp_all add: sd_label_def label_fields_def put16_def put32_def get16_def Let_def
        label_text_def)
qed

lemma label_ncyl_small: "sz \<le> 512 \<Longrightarrow> label_ncyl sz = 1"
proof -
  assume "sz \<le> 512"
  then have "sz div 512 \<in> {0, 1}" by auto
  then show ?thesis by (auto simp: label_ncyl_def)
qed

lemma label_matches_written:
  assumes "f \<noteq> []"
  shows "label_matches (file_write f 0 (sd_label (label_ncyl (length f))))"
proof -
  let ?l = "sd_label (label_ncyl (length f))"
  have "?l \<noteq> []" using length_sd_label by (metis length_0_conv zero_neq_numeral)
  then have len: "length (file_write f 0 ?l) = max (length f) 512" by simp
  have n: "label_ncyl (max (length f) 512) = label_ncyl (length f)"
    using label_ncyl_small by (cases "length f \<le> 512") (simp_all add: max_def)
  have "file_read (file_write f 0 ?l) 0 512 = ?l"
    using file_read_write[of f 0 ?l] by simp
  then show ?thesis
    unfolding label_matches_def Let_def len n by (simp add: sd_label_fields)
qed

section \<open>Plain memory\<close>

text \<open>An address no device answers.\<close>

definition plain :: "machine \<Rightarrow> u32 \<Rightarrow> bool" where
  "plain m a \<longleftrightarrow> a \<noteq> tcs_mbox_pa (dev m) \<and>
     (sysmode m \<longrightarrow> a AND NOT 3 \<noteq> TIMER_ADDR \<and> \<not> is_cmmu_id m a \<and> cmmu_base_of m a = None \<and>
        a \<notin> {CMRAM_SELECT, CMRAM_DATA, IRQ_SOURCE_REG, TIMER_CMP_REG, TIMER_ENA_REG,
              0xE07EA008, 0xE07EA010, 0xE07EA028, TIMER_ADDR, SHA_CMD, SHA_STATUS,
              SHA_BASE + 0x08, SHA_BASE + 0x10, HPS_RING_CONS})"

lemma dev_plain:
  assumes "plain m a"
  shows "dev_read32 m a = (rd32 m a, m)" "dev_write32 m a v = wr32 m a v" "tcs_poke m a = m"
proof -
  have t: "tcs_poke n a = n" if "dev n = dev m" for n
    using assms that by (simp add: tcs_poke_def plain_def)
  then show "tcs_poke m a = m" by simp
  show "dev_read32 m a = (rd32 m a, m)" using assms by (auto simp: dev_read32_def plain_def)
  show "dev_write32 m a v = wr32 m a v"
  proof (cases "sysmode m")
    case True
    then have "a \<notin> {CMRAM_SELECT, CMRAM_DATA, IRQ_SOURCE_REG, TIMER_CMP_REG, TIMER_ENA_REG}"
      and "cmmu_base_of m a = None"
      using assms by (simp_all add: plain_def)
    with True t[of "wr32 m a v"] show ?thesis
      by (simp add: dev_write32_def cmmu_base_of_def Let_def)
  qed (simp add: dev_write32_def Let_def)
qed

lemma memop_plain:
  assumes "\<not> translate_on (mmu m)" "\<not> fault_pending m" "plain m ea" "\<not> (sub \<ge> 0x0C \<and> sub \<le> 0x0F)"
  shows "memop m sub D ea = Some (memop_access (set_xlat_write m False) sub D ea)"
proof -
  let ?m = "set_xlat_write m False"
  have tr: "translate (set_xlat_write m b) ea False = (ea, set_xlat_write m b)" for b
    using assms(1) by (simp add: translate_def)
  have tw: "set_xlat_write (set_xlat_write m b) False = ?m" for b
    by (simp add: set_xlat_write_def)
  have d: "memop_sha ?m sub D ea = None" "memop_timer ?m sub D ea = None"
    "\<not> (sysmode m \<and> ea = HPS_RING_CONS)"
    using assms(3) by (auto simp: memop_sha_def memop_timer_def plain_def)
  show ?thesis
    using assms(2,4) d unfolding memop_def Let_def tr tw prod.case by auto
qed

section \<open>Properties\<close>

text \<open>A user process whose tables map nothing.\<close>

definition unmapped_machine :: machine where
  "unmapped_machine = machine0\<lparr>mem := mem_w32 mem0 0xFFF7E204 0x5001,
     mmu := mmu0\<lparr>translate_on := True\<rparr>, cfg := cfg0\<lparr>procexp := True\<rparr>\<rparr>"

text \<open>A faulting load, store or exchange changes no byte of memory, no register and no device:
  only the fault record, which says whether the access was a store.\<close>

theorem memop_fault_atomic:
  assumes "memop m sub D ea = Some m'" "\<not> (sub \<ge> 0x0C \<and> sub \<le> 0x0F)"
    and "fault_pending (snd (translate (set_xlat_write m (is_store sub)) ea False))"
  shows "mem m' = mem m \<and> cpu m' = cpu m \<and> dev m' = dev m \<and> fault_pending m' \<and>
    ufault_write (ufault (mmu m')) = is_store sub"
  by (rule memop_fault[OF assms])

theorem memop_fault_atomic_witness:
  "\<exists>m'. memop unmapped_machine 9 2 0x1234 = Some m' \<and> mem m' = mem unmapped_machine"
proof -
  have "case memop unmapped_machine 9 2 0x1234 of Some m \<Rightarrow> True | None \<Rightarrow> False" by code_simp
  then obtain m' where m: "memop unmapped_machine 9 2 0x1234 = Some m'" by (auto split: option.splits)
  have "fault_pending (snd (translate (set_xlat_write unmapped_machine (is_store 9)) 0x1234 False))"
    by code_simp
  with memop_fault_atomic[OF m] m show ?thesis by auto
qed

text \<open>At an address no device answers, a store followed by a load of the same width gives the
  stored value back: words, halfwords and bytes, zero- and sign-extended.\<close>

theorem store_load_plain:
  assumes "\<not> translate_on (mmu m)" "\<not> fault_pending m" "plain m ea" "E \<noteq> 0"
  shows "map_option (\<lambda>m. RD m E) (Option.bind (memop m 0x09 D ea) (\<lambda>m. memop m 0x05 E ea)) = Some (RD m D) \<and>
    map_option (\<lambda>m. RD m E) (Option.bind (memop m 0x0A D ea) (\<lambda>m. memop m 0x02 E ea)) = Some (ucast (ucast (RD m D) :: u16)) \<and>
    map_option (\<lambda>m. RD m E) (Option.bind (memop m 0x0A D ea) (\<lambda>m. memop m 0x06 E ea)) = Some (scast (ucast (RD m D) :: u16)) \<and>
    map_option (\<lambda>m. RD m E) (Option.bind (memop m 0x0B D ea) (\<lambda>m. memop m 0x03 E ea)) = Some (ucast (ucast (RD m D) :: u8)) \<and>
    map_option (\<lambda>m. RD m E) (Option.bind (memop m 0x0B D ea) (\<lambda>m. memop m 0x07 E ea)) = Some (scast (ucast (RD m D) :: u8))"
proof -
  let ?m = "set_xlat_write m False"
  let ?w32 = "wr32 ?m ea (RD m D)" and ?w16 = "wr16 ?m ea (ucast (RD m D))"
    and ?w8 = "wr8 ?m ea (ucast (RD m D))"
  have pl: "plain n ea" if "dev n = dev m" "sysmode n = sysmode m" for n
    using assms(3) that by (simp add: plain_def is_cmmu_id_def cmmu_base_of_def)
  have st: "memop m 0x09 D ea = Some ?w32" "memop m 0x0A D ea = Some ?w16" "memop m 0x0B D ea = Some ?w8"
    using memop_plain[OF assms(1-3)] dev_plain[OF pl, of ?m] dev_plain(3)[OF pl, of ?w8]
    by (simp_all add: memop_access_def)
  have ld: "memop n sub E ea = Some (memop_access (set_xlat_write n False) sub E ea)"
    if "n \<in> {?w32, ?w16, ?w8}" "sub \<in> {2, 3, 5, 6, 7}" for n sub
    using that assms(1,2) pl by (intro memop_plain) auto
  have rd: "dev_read32 (set_xlat_write ?w32 False) ea = (RD m D, set_xlat_write ?w32 False)"
    by (subst dev_plain(1)[OF pl]) simp_all
  show ?thesis
    using assms(4) rd by (simp add: st ld memop_access_def RD_WR s16_to_s32_def s8_to_s32_def mem8.get_put_same)
qed

theorem store_load_plain_witness:
  "map_option (\<lambda>m. RD m 3) (Option.bind (memop (WR machine0 2 0xFFFF8081) 0x0B 2 0x1001)
     (\<lambda>m. memop m 0x07 3 0x1001)) = Some (- 127)"
proof -
  let ?m = "WR machine0 2 0xFFFF8081"
  have "\<not> translate_on (mmu ?m)" "\<not> fault_pending ?m" "plain ?m 0x1001"
    by (simp_all add: plain_def machine0_def mmu0_def dev0_def)
  moreover have "RD ?m 2 = 0xFFFF8081" by (simp add: RD_WR)
  ultimately show ?thesis using store_load_plain[of ?m "0x1001" 3 2] by simp
qed

text \<open>Writing a CMMU's area pointer brings the TLB into agreement with the new tables.\<close>

theorem apr_write_restores_tlb:
  assumes "sysmode m" "cmmu_base_of m a = Some base" "a - base \<in> {0x200, 0x204}"
    and "a \<notin> {0xE07EA00C, 0xE07EB000, 0xE0780018}"
  shows "tlb_ok (dev_write32 m a v)"
proof -
  have "cmmu_base_of n a = Some base" if "cmmu_present (dev n) = cmmu_present (dev m)" for n
    using assms(2) that by (simp add: cmmu_base_of_def)
  then show ?thesis
    using assms unfolding dev_write32_def Let_def
    by (auto simp: tcs_poke_def Let_def cmmu_base_of_def)
qed

theorem apr_write_restores_tlb_witness:
  "tlb_ok (dev_write32 (machine0\<lparr>sysmode := True\<rparr>) 0xFFF7E204 0x5001)"
  by (rule apr_write_restores_tlb[where base = "0xFFF7E000"])
    (simp_all add: cmmu_base_of_def machine0_def dev0_def)

text \<open>The drain of the diagnostic ring ends exactly when the producer's index lies in the ring or
  has been reached already, and then it has caught up with the producer.\<close>

theorem ring_drain_ends:
  "hps_drain c p = (if c = p \<or> p < 0x80 then Some p else None)"
  by (rule hps_drain_eq)

text \<open>The label: attaching a disk leaves block 0 with a label that describes the file, attaching it
  again changes nothing, and a label written has all its shorts XOR to zero.\<close>

theorem label_once:
  "sd_ensure_label (sd_ensure_label m) = sd_ensure_label m \<and>
   xor_shorts (sd_label n) = 0 \<and>
   (\<forall>f. disk_img (dev m) = Some f \<and> f \<noteq> [] \<longrightarrow>
      (\<exists>g. disk_img (dev (sd_ensure_label m)) = Some g \<and> label_matches g))"
  using label_matches_written
  by (auto simp: sd_ensure_label_def sd_label_checksum split: option.split)

theorem label_once_witness:
  "\<exists>g. disk_img (dev (sd_ensure_label (machine0\<lparr>dev := dev0\<lparr>disk_img := Some [7]\<rparr>\<rparr>))) = Some g \<and>
     label_matches g"
  using label_once[of "machine0\<lparr>dev := dev0\<lparr>disk_img := Some [7]\<rparr>\<rparr>"] by simp



end
