(* ===== verification/Alu.thy ===== *)
theory Alu
  imports Machine "HOL-Library.Signed_Division"
begin

text \<open>
  The integer unit of \<^verbatim>\<open>cpu.c\<close>: the condition word of \<open>cmp\<close>, the conditions of \<open>bcnd\<close> and
  \<open>tcnd\<close>, the bit-field instructions, find-first and division.  The lemmas say which bits of
  the condition word hold, that \<open>ext\<close> and \<open>extu\<close> read back what \<open>mak\<close> placed, that \<open>rot\<close> is a
  rotation, and what the find-first instructions find.
\<close>

section \<open>Compare and conditions\<close>

abbreviation (input) C_EQ :: nat where "C_EQ \<equiv> 2"
abbreviation (input) C_NE :: nat where "C_NE \<equiv> 3"
abbreviation (input) C_GT :: nat where "C_GT \<equiv> 4"
abbreviation (input) C_LE :: nat where "C_LE \<equiv> 5"
abbreviation (input) C_LT :: nat where "C_LT \<equiv> 6"
abbreviation (input) C_GE :: nat where "C_GE \<equiv> 7"
abbreviation (input) C_HI :: nat where "C_HI \<equiv> 8"
abbreviation (input) C_LS :: nat where "C_LS \<equiv> 9"
abbreviation (input) C_LO :: nat where "C_LO \<equiv> 10"
abbreviation (input) C_HS :: nat where "C_HS \<equiv> 11"

text \<open>\<open>flag b n\<close> is the C idiom \<open>if (b) v |= 1u << n\<close>.\<close>

definition flag :: "bool \<Rightarrow> nat \<Rightarrow> u32" where
  "flag b n = (if b then push_bit n 1 else 0)"

definition do_cmp :: "u32 \<Rightarrow> u32 \<Rightarrow> u32" where
  "do_cmp a b =
     (let sa = sint a; sb = sint b in
      push_bit 1 1 OR (if a = b then push_bit C_EQ 1 else push_bit C_NE 1)
        OR flag (sa > sb) C_GT OR flag (sa \<le> sb) C_LE OR flag (sa < sb) C_LT OR flag (sa \<ge> sb) C_GE
        OR flag (a > b) C_HI OR flag (a \<le> b) C_LS OR flag (a < b) C_LO OR flag (a \<ge> b) C_HS)"

definition cond_true :: "u32 \<Rightarrow> u32 \<Rightarrow> bool" where
  "cond_true m5 a =
     (let s = sint a in
      if m5 = 0x01 then s > 0
      else if m5 = 0x02 then s = 0
      else if m5 = 0x03 then s \<ge> 0
      else if m5 = 0x0C then s < 0
      else if m5 = 0x0D then s \<noteq> 0
      else if m5 = 0x0E then s \<le> 0
      else False)"

lemma bit_flag: "n < 32 \<Longrightarrow> bit (flag b n) k \<longleftrightarrow> b \<and> k = n"
  by (auto simp: flag_def bit_simps)

lemma bit_do_cmp:
  "bit (do_cmp a b) k \<longleftrightarrow>
     k = 1 \<or> (k = C_EQ \<and> a = b) \<or> (k = C_NE \<and> a \<noteq> b) \<or>
     (k = C_GT \<and> sint a > sint b) \<or> (k = C_LE \<and> sint a \<le> sint b) \<or>
     (k = C_LT \<and> sint a < sint b) \<or> (k = C_GE \<and> sint a \<ge> sint b) \<or>
     (k = C_HI \<and> unat a > unat b) \<or> (k = C_LS \<and> unat a \<le> unat b) \<or>
     (k = C_LO \<and> unat a < unat b) \<or> (k = C_HS \<and> unat a \<ge> unat b)"
proof -
  have e: "(if a = b then push_bit C_EQ 1 else push_bit C_NE (1 :: u32)) = flag (a = b) C_EQ OR flag (a \<noteq> b) C_NE"
    by (simp add: flag_def)
  have o: "push_bit 1 (1 :: u32) = flag True 1" by (simp add: flag_def)
  show ?thesis
    unfolding do_cmp_def Let_def e o word_less_nat_alt word_le_nat_alt
    by (auto simp: bit_or_iff bit_flag)
qed

section \<open>Bit fields\<close>

definition bf_mask :: "u32 \<Rightarrow> u32" where
  "bf_mask width =
     (let w = (if width = 0 then 32 else width)
      in if w \<ge> 32 then 0xFFFFFFFF else push_bit (unat w) 1 - 1)"

definition bf_extu :: "u32 \<Rightarrow> u32 \<Rightarrow> u32 \<Rightarrow> u32" where
  "bf_extu a width offset = drop_bit (unat offset) a AND bf_mask width"

definition bf_ext :: "u32 \<Rightarrow> u32 \<Rightarrow> u32 \<Rightarrow> u32" where
  "bf_ext a width offset =
     (let w = (if width = 0 then 32 else width);
          v = drop_bit (unat offset) a AND bf_mask width
      in if w < 32 \<and> v AND push_bit (unat (w - 1)) 1 \<noteq> 0 then v OR NOT (bf_mask width) else v)"

definition bf_mak :: "u32 \<Rightarrow> u32 \<Rightarrow> u32 \<Rightarrow> u32" where
  "bf_mak a width offset = push_bit (unat offset) (a AND bf_mask width)"

definition bf_rot :: "u32 \<Rightarrow> u32 \<Rightarrow> u32" where
  "bf_rot a offset =
     (let o5 = offset AND 31
      in if o5 \<noteq> 0 then drop_bit (unat o5) a OR push_bit (unat (32 - o5)) a else a)"

definition bitfield :: "machine \<Rightarrow> u32 \<Rightarrow> u32 \<Rightarrow> u32 \<Rightarrow> u32 \<Rightarrow> u32 \<Rightarrow> machine" where
  "bitfield m sub D a width offset =
     (if sub = 0x26 then WR m D (bf_extu a width offset)
      else if sub = 0x24 then WR m D (bf_ext a width offset)
      else if sub = 0x28 then WR m D (bf_mak a width offset)
      else if sub = 0x20 then WR m D (a AND NOT (push_bit (unat offset) (bf_mask width)))
      else if sub = 0x22 then WR m D (a OR push_bit (unat offset) (bf_mask width))
      else if sub = 0x2A then WR m D (bf_rot a offset)
      else m)"

text \<open>The width in bits: a coded width of 0 means 32.\<close>

definition bf_width :: "u32 \<Rightarrow> nat" where
  "bf_width width = (if width = 0 then 32 else unat width)"

lemma bf_mask_eq: "width < 32 \<Longrightarrow> bf_mask width = mask (bf_width width)"
proof (cases "width = 0")
  case True
  have "(0xFFFFFFFF :: u32) = mask 32" by (simp add: mask_eq_exp_minus_1)
  with True show ?thesis by (simp add: bf_mask_def bf_width_def)
next
  case False
  assume "width < 32"
  then have "\<not> 32 \<le> width" by simp
  with False show ?thesis
    by (simp add: bf_mask_def bf_width_def mask_eq_exp_minus_1 push_bit_eq_mult)
qed

lemma bit_bf_mask: "width < 32 \<Longrightarrow> bit (bf_mask width) k \<longleftrightarrow> k < bf_width width \<and> k < 32"
  by (auto simp: bf_mask_eq bit_mask_iff)

lemma bf_width_pos: "0 < bf_width width"
  by (simp add: bf_width_def unat_gt_0)

lemma bf_width_le: "width < 32 \<Longrightarrow> bf_width width \<le> 32"
  by (auto simp: bf_width_def word_less_nat_alt)

lemma bf_extu_take: "width < 32 \<Longrightarrow> bf_extu a width offset = take_bit (bf_width width) (drop_bit (unat offset) a)"
  by (simp add: bf_extu_def bf_mask_eq take_bit_eq_mask)

lemma bit_bf_ext:
  assumes "width < 32"
  shows "bit (bf_ext a width offset) k \<longleftrightarrow> k < 32 \<and>
    (if k < bf_width width then bit a (unat offset + k) else bit a (unat offset + bf_width width - 1))"
proof -
  let ?w = "bf_width width"
  have v: "bit (drop_bit (unat offset) a AND bf_mask width) j \<longleftrightarrow> j < ?w \<and> bit a (unat offset + j)" for j
    using assms by (auto simp: bit_simps bit_bf_mask dest: bit_imp_le_length)
  show ?thesis
  proof (cases "width = 0")
    case True
    then show ?thesis
      using v[of k] by (auto simp: bf_ext_def Let_def bf_width_def dest: bit_imp_le_length)
  next
    case False
    have u: "unat (width - 1) = ?w - 1"
      using False by (simp add: bf_width_def unat_minus_one)
    have w: "unat width = ?w" "?w < 32"
      using False assms by (auto simp: bf_width_def word_less_nat_alt)
    have top: "(drop_bit (unat offset) a AND bf_mask width) AND push_bit (?w - 1) 1 \<noteq> 0 \<longleftrightarrow>
        bit a (unat offset + ?w - 1)"
      using v[of "?w - 1"] bf_width_pos[of width] w by (simp add: bit_iff_and_push_bit_not_eq_0)
    show ?thesis
      using False assms w v[of k] top
      by (auto simp: bf_ext_def Let_def u bit_simps bit_bf_mask dest: bit_imp_le_length)
  qed
qed

text \<open>A field placed by \<open>mak\<close> is read back by \<open>extu\<close> zero-extended and by \<open>ext\<close> sign-extended.\<close>

lemma bf_extu_mak:
  assumes "width < 32" "bf_width width + unat offset \<le> 32"
  shows "bf_extu (bf_mak a width offset) width offset = take_bit (bf_width width) a"
  by (rule bit_word_eqI)
    (use assms in \<open>auto simp: bf_extu_take bf_mak_def bit_simps bit_bf_mask\<close>)

lemma bf_ext_mak:
  assumes "width < 32" "bf_width width + unat offset \<le> 32"
  shows "bf_ext (bf_mak a width offset) width offset = signed_take_bit (bf_width width - 1) a"
proof (rule bit_word_eqI)
  fix k assume k: "k < LENGTH(32)"
  have p: "0 < bf_width width" "bf_width width \<le> 32"
    using assms(1) by (simp_all add: bf_width_pos bf_width_le)
  have e: "k = bf_width width - 1" if "bf_width width \<le> Suc k" "k < bf_width width"
    using that by simp
  show "bit (bf_ext (bf_mak a width offset) width offset) k = bit (signed_take_bit (bf_width width - 1) a) k"
    using assms p k e
    by (auto simp: bit_bf_ext bf_mak_def bit_push_bit_iff bit_and_iff bit_bf_mask bit_signed_take_bit_iff
        min_def not_less)
qed

lemma unat_and_31': "unat (offset AND 31 :: u32) = unat offset mod 32"
  using unat_and_mask[of offset 5] by (simp add: mask_eq_exp_minus_1)

lemma bf_rot_rotr: "bf_rot a offset = word_rotr (unat offset) a"
proof (rule bit_word_eqI)
  fix k assume k: "k < LENGTH(32)"
  let ?o = "unat offset mod 32"
  have r: "bit (word_rotr (unat offset) a) k = bit a ((k + ?o) mod 32)"
    using k by (simp add: bit_word_rotr_iff mod_add_right_eq)
  show "bit (bf_rot a offset) k = bit (word_rotr (unat offset) a) k"
  proof (cases "offset AND 31 = 0")
    case True
    then have "?o = 0" using unat_and_31'[of offset] by simp
    then show ?thesis using k True unfolding r bf_rot_def by simp
  next
    case False
    then have o: "0 < ?o" using unat_and_31'[of offset] by (metis gr0I unat_eq_zero)
    have le: "(offset AND 31) \<le> 32"
      using unat_and_31'[of offset] by (simp add: word_le_nat_alt order_less_imp_le)
    have s: "unat (32 - (offset AND 31)) = 32 - ?o"
      using unat_sub[OF le] by (simp add: unat_and_31')
    have "bit (bf_rot a offset) k \<longleftrightarrow> bit a (?o + k) \<or> (32 - ?o \<le> k \<and> bit a (k - (32 - ?o)))"
      using False k by (auto simp: bf_rot_def Let_def bit_simps s unat_and_31')
    moreover have "\<dots> \<longleftrightarrow> bit a ((k + ?o) mod 32)"
    proof (cases "k + ?o < 32")
      case True
      then show ?thesis by (auto simp: ac_simps)
    next
      case False
      then have "(k + ?o) mod 32 = k + ?o - 32" using k by (simp add: le_mod_geq)
      moreover have "\<not> bit a (?o + k)" using False by (auto dest!: bit_imp_le_length)
      moreover have "k - (32 - ?o) = k + ?o - 32" using o by simp
      ultimately show ?thesis using False by auto
    qed
    ultimately show ?thesis by (simp add: r)
  qed
qed

section \<open>Find first\<close>

text \<open>\<open>clz32\<close> is \<open>__builtin_clz\<close> where it is defined, on a nonzero argument.\<close>

definition clz32 :: "u32 \<Rightarrow> nat" where
  "clz32 b = length (takeWhile (\<lambda>i. \<not> bit b (31 - i)) [0..<32])"

definition ff1 :: "u32 \<Rightarrow> u32" where
  "ff1 b = (if b \<noteq> 0 then of_nat (31 - clz32 b) else 32)"

definition ff0 :: "u32 \<Rightarrow> u32" where
  "ff0 b = (let nb = NOT b in if nb \<noteq> 0 then of_nat (31 - clz32 nb) else 32)"

text \<open>The index of the highest set bit.\<close>

lemma clz32_bit:
  assumes "b \<noteq> 0"
  shows "clz32 b \<le> 31" "bit b (31 - clz32 b)" "\<And>k. bit b k \<Longrightarrow> k \<le> 31 - clz32 b"
proof -
  let ?P = "\<lambda>i. \<not> bit b (31 - i)"
  obtain n where n: "bit b n" using assms bit_eq_iff[of b 0] by auto
  then have n32: "n < 32" using bit_imp_le_length[of b n] by simp
  have lt: "clz32 b < 32"
  proof (rule ccontr)
    assume "\<not> clz32 b < 32"
    then have "clz32 b = length [0..<32]"
      using length_takeWhile_le[of ?P "[0..<32]"] unfolding clz32_def by simp
    then have "takeWhile ?P [0..<32] = [0..<32]"
      unfolding clz32_def by (metis takeWhile_eq_take take_all order_refl)
    then have "\<forall>i \<in> set [0..<32]. ?P i" by (simp only: takeWhile_eq_all_conv)
    moreover have "31 - n \<in> set [0..<32]" by simp
    ultimately have "\<not> bit b (31 - (31 - n))" by blast
    then have "\<not> bit b n" using n32 by simp
    with n show False by simp
  qed
  then show "clz32 b \<le> 31" by simp
  have "\<not> ?P ([0..<32] ! clz32 b)"
    using nth_length_takeWhile[of ?P "[0..<32]"] lt unfolding clz32_def by simp
  then show "bit b (31 - clz32 b)" using lt by simp
  fix k assume k: "bit b k"
  then have k32: "k < 32" using bit_imp_le_length[of b k] by simp
  show "k \<le> 31 - clz32 b"
  proof (rule ccontr)
    assume "\<not> k \<le> 31 - clz32 b"
    with k32 have l: "31 - k < clz32 b" by simp
    then have "?P (takeWhile ?P [0..<32] ! (31 - k))"
      unfolding clz32_def by (metis nth_mem set_takeWhileD)
    moreover have "takeWhile ?P [0..<32] ! (31 - k) = 31 - k"
      using l lt unfolding clz32_def by (subst takeWhile_nth) simp_all
    ultimately have "\<not> bit b (31 - (31 - k))" by metis
    then show False using k k32 by simp
  qed
qed

lemma ff1_highest:
  assumes "b \<noteq> 0"
  shows "bit b (unat (ff1 b)) \<and> (\<forall>k. bit b k \<longrightarrow> k \<le> unat (ff1 b))"
proof -
  have "unat (ff1 b) = 31 - clz32 b"
    using assms unat_of_nat_small[of "31 - clz32 b"] by (simp add: ff1_def del: of_nat_diff)
  with clz32_bit[OF assms] show ?thesis by simp
qed

lemma ff0_ff1: "ff0 b = ff1 (NOT b)"
  by (simp add: ff0_def ff1_def)

section \<open>Division\<close>

text \<open>C's division of signed integers truncates; \<open>INT_MIN / -1\<close> is undefined (\<open>None\<close>).\<close>

definition sdiv32 :: "u32 \<Rightarrow> u32 \<Rightarrow> u32 option" where
  "sdiv32 a b =
     (if sint a = - 2147483648 \<and> sint b = - 1 then None
      else Some (word_of_int (sint a sdiv sint b)))"

section \<open>Properties\<close>

text \<open>The bit-field instructions: \<open>extu\<close> and \<open>ext\<close> read back, zero- and sign-extended, the field
  that \<open>mak\<close> placed, whenever the field fits the word; \<open>clr\<close> and \<open>set\<close> clear and set exactly the
  field; \<open>rot\<close> rotates right by its offset modulo 32.\<close>

theorem bitfield_instructions:
  assumes "D \<noteq> 0" "width < 32" "bf_width width + unat offset \<le> 32"
  shows "RD (bitfield m 0x26 D (RD (bitfield m 0x28 D a width offset) D) width offset) D =
      take_bit (bf_width width) a \<and>
    RD (bitfield m 0x24 D (RD (bitfield m 0x28 D a width offset) D) width offset) D =
      signed_take_bit (bf_width width - 1) a \<and>
    bit (RD (bitfield m 0x20 D a width offset) D) k =
      (bit a k \<and> \<not> (unat offset \<le> k \<and> k < unat offset + bf_width width)) \<and>
    bit (RD (bitfield m 0x22 D a width offset) D) k =
      (bit a k \<or> (unat offset \<le> k \<and> k < unat offset + bf_width width)) \<and>
    RD (bitfield m 0x2A D a width offset) D = word_rotr (unat offset) a"
proof -
  have f: "bit (push_bit (unat offset) (bf_mask width)) k \<longleftrightarrow>
      unat offset \<le> k \<and> k < unat offset + bf_width width" for k
    using assms by (auto simp: bit_push_bit_iff bit_bf_mask)
  have k: "bit a k \<Longrightarrow> k < 32" using bit_imp_le_length[of a k] by simp
  show ?thesis
    using assms k
    by (auto simp: bitfield_def RD_WR bf_extu_mak bf_ext_mak bf_rot_rotr f bit_and_iff bit_or_iff bit_not_iff)
qed

theorem bitfield_instructions_witness:
  "RD (bitfield machine0 0x24 3 (RD (bitfield machine0 0x28 3 0xF8 8 4) 3) 8 4) 3 =
     signed_take_bit 7 0xF8"
proof -
  have "bf_width 8 = 8" by (simp add: bf_width_def)
  then show ?thesis using bitfield_instructions[of 3 8 4 machine0 "0xF8" 0] by simp
qed

text \<open>\<open>ff1\<close> and \<open>ff0\<close> give the position of the highest set and of the highest clear bit, and 32
  when there is none.\<close>

theorem find_first:
  "(b = 0 \<longrightarrow> ff1 b = 32) \<and> (b = NOT 0 \<longrightarrow> ff0 b = 32) \<and>
   (b \<noteq> 0 \<longrightarrow> bit b (unat (ff1 b)) \<and> (\<forall>k. bit b k \<longrightarrow> k \<le> unat (ff1 b))) \<and>
   (b \<noteq> NOT 0 \<longrightarrow> unat (ff0 b) < 32 \<and> \<not> bit b (unat (ff0 b)) \<and>
      (\<forall>k < 32. \<not> bit b k \<longrightarrow> k \<le> unat (ff0 b)))"
proof -
  have z: "b \<noteq> NOT 0 \<Longrightarrow> NOT b \<noteq> 0" by (metis bit.double_compl)
  have f0: "unat (ff0 b) < 32 \<and> \<not> bit b (unat (ff0 b)) \<and> (\<forall>k < 32. \<not> bit b k \<longrightarrow> k \<le> unat (ff0 b))"
    if "b \<noteq> NOT 0"
  proof -
    have h: "bit (NOT b) (unat (ff0 b))" "\<forall>k. bit (NOT b) k \<longrightarrow> k \<le> unat (ff0 b)"
      using ff1_highest[OF z[OF that]] by (simp_all add: ff0_ff1)
    then have "unat (ff0 b) < 32" using bit_imp_le_length[OF h(1)] by simp
    with h show ?thesis by (simp add: bit_not_iff)
  qed
  have "ff1 0 = 32" "ff0 (NOT 0) = 32" by (simp_all add: ff1_def ff0_def)
  with f0 ff1_highest[of b] show ?thesis by blast
qed

theorem find_first_witness: "bit (0x50 :: u32) (unat (ff1 0x50))"
proof -
  have "(0x50 :: u32) \<noteq> 0" by simp
  with find_first[of "0x50"] show ?thesis by blast
qed

end
