(* ===== verification/Fpu.thy ===== *)
theory Fpu
  imports Machine Alu
begin

text \<open>
  The floating-point unit of \<^verbatim>\<open>cpu.c\<close> (opcode \<open>0x21\<close>).  The code carries every value as a C
  \<open>double\<close>; the model computes on the bit patterns of IEEE 754 binary32 and binary64, rounding to
  nearest even, which is what C's \<open>float\<close> and \<open>double\<close> are on every host the emulator builds for.
  A finite value is a sign, a significand and a power of two; an operation computes the exact
  result over the integers and rounds it once.

  C leaves the payload of a NaN result open: the model gives the default quiet NaN.  \<open>llrint\<close> of a
  value outside \<open>long long\<close> and the cast of a value outside \<open>int\<close> are undefined in C and are \<open>None\<close>
  here.
\<close>

section \<open>Values\<close>

datatype fp = FNan | FInf bool | FNum bool nat int

text \<open>\<open>FNum s m e\<close> is \<open>(-1)^s * m * 2^e\<close>.\<close>

definition decode_fp :: "nat \<Rightarrow> nat \<Rightarrow> nat \<Rightarrow> fp" where
  "decode_fp fw ew b =
     (let s = (b div 2 ^ (fw + ew)) mod 2 = 1;
          x = (b div 2 ^ fw) mod 2 ^ ew;
          f = b mod 2 ^ fw;
          emin = 2 - 2 ^ (ew - 1) - int fw
      in if x = 2 ^ ew - 1 then (if f = 0 then FInf s else FNan)
         else if x = 0 then FNum s f emin
         else FNum s (f + 2 ^ fw) (emin + int x - 1))"

fun nat_bits :: "nat \<Rightarrow> nat" where
  "nat_bits n = (if n = 0 then 0 else Suc (nat_bits (n div 2)))"

declare nat_bits.simps [simp del]

text \<open>Rounding \<open>(m + \<epsilon>) * 2^e\<close> to nearest even, where \<open>0 < \<epsilon> < 1\<close> if \<open>sticky\<close> and \<open>\<epsilon> = 0\<close>
  otherwise; a sticky argument must have at least two bits more than the format.\<close>

definition round_fp :: "nat \<Rightarrow> nat \<Rightarrow> nat \<Rightarrow> int \<Rightarrow> bool \<Rightarrow> nat" where
  "round_fp fw ew m e sticky =
     (let emin = 2 - 2 ^ (ew - 1) - int fw;
          e' = max emin (e + int (nat_bits m) - int (fw + 1));
          q = (if e' \<le> e then m * 2 ^ nat (e - e')
               else (let k = nat (e' - e); q = m div 2 ^ k; r = m mod 2 ^ k; half = 2 ^ (k - 1)
                     in if r > half \<or> (r = half \<and> (sticky \<or> odd q)) then q + 1 else q));
          bits = nat (e' - emin) * 2 ^ fw + q
      in min bits ((2 ^ ew - 1) * 2 ^ fw))"

definition encode_fp :: "nat \<Rightarrow> nat \<Rightarrow> bool \<Rightarrow> nat \<Rightarrow> int \<Rightarrow> bool \<Rightarrow> nat" where
  "encode_fp fw ew s m e sticky =
     (if s then 2 ^ (fw + ew) else 0) + (if m = 0 then 0 else round_fp fw ew m e sticky)"

definition inf_bits :: "nat \<Rightarrow> nat \<Rightarrow> bool \<Rightarrow> nat" where
  "inf_bits fw ew s = (if s then 2 ^ (fw + ew) else 0) + (2 ^ ew - 1) * 2 ^ fw"

definition nan_bits :: "nat \<Rightarrow> nat \<Rightarrow> nat" where
  "nan_bits fw ew = (2 ^ ew - 1) * 2 ^ fw + 2 ^ (fw - 1)"

text \<open>The two C types.\<close>

definition decode64 :: "u64 \<Rightarrow> fp" where
  "decode64 b = decode_fp 52 11 (unat b)"

definition decode32 :: "u32 \<Rightarrow> fp" where
  "decode32 b = decode_fp 23 8 (unat b)"

definition num64 :: "bool \<Rightarrow> nat \<Rightarrow> int \<Rightarrow> bool \<Rightarrow> u64" where
  "num64 s m e sticky = of_nat (encode_fp 52 11 s m e sticky)"

definition inf64 :: "bool \<Rightarrow> u64" where
  "inf64 s = of_nat (inf_bits 52 11 s)"

definition nan64 :: u64 where
  "nan64 = of_nat (nan_bits 52 11)"

section \<open>Conversions between the C types\<close>

definition float_to_double :: "u32 \<Rightarrow> u64" where
  "float_to_double b =
     (case decode32 b of FNan \<Rightarrow> nan64 | FInf s \<Rightarrow> inf64 s | FNum s m e \<Rightarrow> num64 s m e False)"

definition double_to_float :: "u64 \<Rightarrow> u32" where
  "double_to_float b =
     of_nat (case decode64 b of
               FNan \<Rightarrow> nan_bits 23 8 | FInf s \<Rightarrow> inf_bits 23 8 s
             | FNum s m e \<Rightarrow> encode_fp 23 8 s m e False)"

definition double_of_int :: "int \<Rightarrow> u64" where
  "double_of_int i = num64 (i < 0) (nat \<bar>i\<bar>) 0 False"

text \<open>\<open>scaled\<close> is a finite double as an integer, in units of \<open>2^-1074\<close>, the least exponent.\<close>

fun scaled :: "fp \<Rightarrow> int" where
  "scaled (FNum s m e) = (if s then - 1 else 1) * int m * 2 ^ nat (e + 1074)"
| "scaled _ = 0"

text \<open>The integer nearest below in magnitude, and the nearest with ties to even.\<close>

definition trunc_int :: "fp \<Rightarrow> int" where
  "trunc_int x = scaled x sdiv 2 ^ 1074"

definition nearest_int :: "fp \<Rightarrow> int" where
  "nearest_int x =
     (let u = 2 ^ 1074; q = scaled x div u; r = scaled x mod u
      in if 2 * r > u \<or> (2 * r = u \<and> odd q) then q + 1 else q)"

fun is_finite :: "fp \<Rightarrow> bool" where
  "is_finite (FNum _ _ _) = True"
| "is_finite _ = False"

text \<open>\<open>(u32)(s32)llrint(x)\<close> and \<open>(u32)(s32)trunc(x)\<close>.\<close>

definition c_llrint :: "u64 \<Rightarrow> u32 option" where
  "c_llrint b =
     (let x = decode64 b; i = nearest_int x
      in if is_finite x \<and> - (2 ^ 63) \<le> i \<and> i < 2 ^ 63 then Some (word_of_int i) else None)"

definition c_trunc :: "u64 \<Rightarrow> u32 option" where
  "c_trunc b =
     (let x = decode64 b; i = trunc_int x
      in if is_finite x \<and> - (2 ^ 31) \<le> i \<and> i < 2 ^ 31 then Some (word_of_int i) else None)"

section \<open>Arithmetic\<close>

fun fp_neg :: "fp \<Rightarrow> fp" where
  "fp_neg FNan = FNan"
| "fp_neg (FInf s) = FInf (\<not> s)"
| "fp_neg (FNum s m e) = FNum (\<not> s) m e"

text \<open>An exact zero sum is \<open>-0\<close> only when both operands are.\<close>

fun add_fp :: "fp \<Rightarrow> fp \<Rightarrow> u64" where
  "add_fp FNan _ = nan64"
| "add_fp _ FNan = nan64"
| "add_fp (FInf s) (FInf t) = (if s = t then inf64 s else nan64)"
| "add_fp (FInf s) _ = inf64 s"
| "add_fp _ (FInf t) = inf64 t"
| "add_fp (FNum s m e) (FNum t n f) =
     (let z = scaled (FNum s m e) + scaled (FNum t n f)
      in num64 (z < 0 \<or> (z = 0 \<and> s \<and> t)) (nat \<bar>z\<bar>) (- 1074) False)"

fun mul_fp :: "fp \<Rightarrow> fp \<Rightarrow> u64" where
  "mul_fp FNan _ = nan64"
| "mul_fp _ FNan = nan64"
| "mul_fp (FInf s) (FInf t) = inf64 (s \<noteq> t)"
| "mul_fp (FInf s) (FNum t n f) = (if n = 0 then nan64 else inf64 (s \<noteq> t))"
| "mul_fp (FNum s m e) (FInf t) = (if m = 0 then nan64 else inf64 (s \<noteq> t))"
| "mul_fp (FNum s m e) (FNum t n f) = num64 (s \<noteq> t) (m * n) (e + f) False"

text \<open>A quotient is computed to at least 56 bits, with the remainder as the sticky flag.\<close>

fun div_fp :: "fp \<Rightarrow> fp \<Rightarrow> u64" where
  "div_fp FNan _ = nan64"
| "div_fp _ FNan = nan64"
| "div_fp (FInf s) (FInf t) = nan64"
| "div_fp (FInf s) (FNum t n f) = inf64 (s \<noteq> t)"
| "div_fp (FNum s m e) (FInf t) = num64 (s \<noteq> t) 0 0 False"
| "div_fp (FNum s m e) (FNum t n f) =
     (if n = 0 then (if m = 0 then nan64 else inf64 (s \<noteq> t))
      else (let d = m * 2 ^ 110 in num64 (s \<noteq> t) (d div n) (e - f - 110) (d mod n \<noteq> 0)))"

fun isqrt :: "nat \<Rightarrow> nat" where
  "isqrt n =
     (if n = 0 then 0
      else (let r = 2 * isqrt (n div 4) in if (r + 1) * (r + 1) \<le> n then r + 1 else r))"

declare isqrt.simps [simp del]

fun sqrt_fp :: "fp \<Rightarrow> u64" where
  "sqrt_fp FNan = nan64"
| "sqrt_fp (FInf s) = (if s then nan64 else inf64 False)"
| "sqrt_fp (FNum s m e) =
     (if m = 0 then num64 s 0 0 False
      else if s then nan64
      else (let k = (if even e then 120 else 121); n = m * 2 ^ k; r = isqrt n
            in num64 False r ((e - int k) div 2) (r * r \<noteq> n)))"

text \<open>C's comparisons of doubles: an unordered pair satisfies none of them.\<close>

fun fp_key :: "fp \<Rightarrow> int option" where
  "fp_key FNan = None"
| "fp_key (FInf s) = Some (if s then - (2 ^ 2099) else 2 ^ 2099)"
| "fp_key (FNum s m e) = Some (scaled (FNum s m e))"

definition fp_less :: "u64 \<Rightarrow> u64 \<Rightarrow> bool" where
  "fp_less x y = (case (fp_key (decode64 x), fp_key (decode64 y)) of
     (Some a, Some b) \<Rightarrow> a < b | _ \<Rightarrow> False)"

definition fp_eq :: "u64 \<Rightarrow> u64 \<Rightarrow> bool" where
  "fp_eq x y = (case (fp_key (decode64 x), fp_key (decode64 y)) of
     (Some a, Some b) \<Rightarrow> a = b | _ \<Rightarrow> False)"

definition fp_le :: "u64 \<Rightarrow> u64 \<Rightarrow> bool" where
  "fp_le x y \<longleftrightarrow> fp_less x y \<or> fp_eq x y"

section \<open>The code\<close>

text \<open>\<open>prec\<close> 0 is a single in one register, anything else a double in the pair \<open>reg\<close>, \<open>reg + 1\<close>
  with the high word first.\<close>

definition fp_read :: "machine \<Rightarrow> u32 \<Rightarrow> u32 \<Rightarrow> u64" where
  "fp_read m reg prec =
     (if prec = 0 then float_to_double (RD m reg)
      else push_bit 32 (ucast (RD m reg)) OR ucast (RD m (reg + 1)))"

definition fp_write :: "machine \<Rightarrow> u32 \<Rightarrow> u32 \<Rightarrow> u64 \<Rightarrow> machine" where
  "fp_write m reg prec v =
     (if prec = 0 then WR m reg (double_to_float v)
      else (let m = WR m reg (ucast (drop_bit 32 v)) in WR m (reg + 1) (ucast v)))"

definition fcmp_word :: "u64 \<Rightarrow> u64 \<Rightarrow> u32" where
  "fcmp_word x y =
     (if \<not> (fp_less x y \<or> fp_less y x \<or> fp_eq x y) then push_bit 0 1
      else push_bit 1 1 OR (if fp_eq x y then push_bit C_EQ 1 else push_bit C_NE 1)
        OR flag (fp_less y x) C_GT OR flag (fp_le x y) C_LE
        OR flag (fp_less x y) C_LT OR flag (fp_le y x) C_GE)"

text \<open>One instruction: \<open>None\<close> for an unknown operation, \<open>Some None\<close> where C leaves the result
  undefined.\<close>

definition exec_fpu :: "machine \<Rightarrow> u32 \<Rightarrow> u32 \<Rightarrow> u32 \<Rightarrow> machine option option" where
  "exec_fpu m w D S1 =
     (let fop = drop_bit 11 w AND 0x1F;
          td = drop_bit 5 w AND 3; t2 = drop_bit 7 w AND 3; t1 = drop_bit 9 w AND 3;
          S2 = w AND 31;
          x = decode64 (fp_read m S1 t1); y = decode64 (fp_read m S2 t2);
          cast = (\<lambda>r. case r of None \<Rightarrow> Some None | Some v \<Rightarrow> Some (Some (WR m D v)))
      in if fop = 0x05 then Some (Some (fp_write m D td (add_fp x y)))
         else if fop = 0x06 then Some (Some (fp_write m D td (add_fp x (fp_neg y))))
         else if fop = 0x00 then Some (Some (fp_write m D td (mul_fp x y)))
         else if fop = 0x0E then Some (Some (fp_write m D td (div_fp x y)))
         else if fop = 0x0F then Some (Some (fp_write m D td (sqrt_fp y)))
         else if fop = 0x04 then Some (Some (fp_write m D td (double_of_int (sint (RD m S2)))))
         else if fop = 0x09 \<or> fop = 0x0A then cast (c_llrint (fp_read m S2 t2))
         else if fop = 0x0B then cast (c_trunc (fp_read m S2 t2))
         else if fop = 0x07 then Some (Some (WR m D (fcmp_word (fp_read m S1 t1) (fp_read m S2 t2))))
         else None)"

section \<open>Exactness on integers\<close>

lemma nat_bits_bounds: "n \<noteq> 0 \<Longrightarrow> 2 ^ (nat_bits n - 1) \<le> n \<and> n < 2 ^ nat_bits n"
proof (induction n rule: nat_bits.induct)
  case (1 n)
  show ?case
  proof (cases "n div 2 = 0")
    case True
    with 1 have "n = 1" by simp
    then show ?thesis by (simp add: nat_bits.simps)
  next
    case False
    with 1 have ih: "2 ^ (nat_bits (n div 2) - 1) \<le> n div 2" "n div 2 < 2 ^ nat_bits (n div 2)"
      by auto
    have p: "0 < nat_bits (n div 2)" using False by (simp add: nat_bits.simps[of "n div 2"])
    define P :: nat where "P = 2 ^ (nat_bits (n div 2) - 1)"
    have "2 ^ nat_bits (n div 2) = 2 * P" unfolding P_def using p by (metis Suc_diff_1 power_Suc)
    moreover have "nat_bits n = Suc (nat_bits (n div 2))" using 1 by (simp add: nat_bits.simps[of n])
    moreover have "2 * P \<le> n \<and> n < 2 * (2 * P)"
      using ih unfolding P_def[symmetric] calculation(1) by auto
    ultimately show ?thesis by simp
  qed
qed

lemma nat_bits_le:
  assumes "m < 2 ^ k"
  shows "nat_bits m \<le> k"
proof (cases "m = 0")
  case False
  have "(2 :: nat) ^ (nat_bits m - 1) < 2 ^ k"
    using nat_bits_bounds[OF False] assms by (meson le_less_trans)
  then have "nat_bits m - 1 < k" by (rule power_less_imp_less_exp[rotated]) simp
  then show ?thesis by simp
qed (simp add: nat_bits.simps)

lemma decode_parts:
  assumes "x < 2 ^ ew" "f < 2 ^ fw"
  shows "decode_fp fw ew ((if s then 2 ^ (fw + ew) else 0) + (x * 2 ^ fw + f)) =
    (let emin = 2 - 2 ^ (ew - 1) - int fw
     in if x = 2 ^ ew - 1 then (if f = 0 then FInf s else FNan)
        else if x = 0 then FNum s f emin
        else FNum s (f + 2 ^ fw) (emin + int x - 1))"
proof -
  let ?b = "(if s then 2 ^ (fw + ew) else 0) + (x * 2 ^ fw + f)"
  have b: "?b = (of_bool s * 2 ^ ew + x) * 2 ^ fw + f" by (simp add: power_add algebra_simps)
  have f: "?b mod 2 ^ fw = f" and d: "?b div 2 ^ fw = of_bool s * 2 ^ ew + x"
    using assms(2) unfolding b by simp_all
  have x: "(?b div 2 ^ fw) mod 2 ^ ew = x" using assms(1) by (simp only: d) simp
  have "?b div 2 ^ (fw + ew) = ?b div 2 ^ fw div 2 ^ ew" by (simp only: power_add div_mult2_eq)
  also have "\<dots> = of_bool s" using assms(1) unfolding d by simp
  finally have s: "(?b div 2 ^ (fw + ew)) mod 2 = 1 \<longleftrightarrow> s" by simp
  show ?thesis unfolding decode_fp_def f x s Let_def ..
qed

lemma unat_of_nat64: "n < 18446744073709551616 \<Longrightarrow> unat (of_nat n :: u64) = n"
  by (simp add: unat_of_nat take_bit_nat_eq_self)

text \<open>A significand that fits is encoded exactly.\<close>

lemma decode_num64:
  assumes m: "m \<noteq> 0" "m < 2 ^ 53" and e: "0 \<le> e" "e < 900"
  shows "decode64 (num64 s m e False) = FNum s (m * 2 ^ (53 - nat_bits m)) (e + int (nat_bits m) - 53)"
proof -
  define n where "n = nat_bits m"
  have nb: "2 ^ (n - 1) \<le> m" "m < 2 ^ n" using nat_bits_bounds[OF m(1)] by (auto simp: n_def)
  have n1: "1 \<le> n" using m(1) by (simp add: n_def nat_bits.simps[of m])
  have n53: "n \<le> 53" using nat_bits_le[OF m(2)] by (simp add: n_def)
  let ?q = "m * 2 ^ (53 - n)"
  have q1: "2 ^ 52 \<le> ?q"
  proof -
    have "(2::nat) ^ 52 = 2 ^ (n - 1) * 2 ^ (53 - n)" using n1 n53 by (simp flip: power_add)
    then show ?thesis using nb(1) mult_le_mono1 by presburger
  qed
  have q2: "?q < 2 ^ 53"
  proof -
    have "(2::nat) ^ 53 = 2 ^ n * 2 ^ (53 - n)" using n53 by (simp flip: power_add)
    moreover have "?q < 2 ^ n * 2 ^ (53 - n)" using nb(2) by simp
    ultimately show ?thesis by presburger
  qed
  let ?x = "nat (e + int n + 1022)"
  have x: "?x < 2 ^ 11" "?x \<noteq> 2 ^ 11 - 1" "?x \<noteq> 0" using e n1 n53 by auto
  have r: "round_fp 52 11 m e False = ?x * 2 ^ 52 + (?q - 2 ^ 52)"
  proof -
    have mx: "max (- 1074) (e + int n - 53) = e + int n - 53" using e n1 by simp
    have le: "e + int n - 53 \<le> e" using n53 by simp
    have sh: "nat (e - (e + int n - 53)) = 53 - n" using n53 by simp
    have nx: "nat (e + int n - 53 + 1074) = ?x - 1" by simp
    have "round_fp 52 11 m e False = min ((?x - 1) * 2 ^ 52 + ?q) ((2 ^ 11 - 1) * 2 ^ 52)"
      unfolding round_fp_def Let_def n_def[symmetric] using mx le sh nx by simp
    also have "(?x - 1) * 2 ^ 52 + ?q = ?x * 2 ^ 52 + (?q - 2 ^ 52)"
      using q1 x(3) by (cases ?x) (simp_all add: algebra_simps)
    also have "min (?x * 2 ^ 52 + (?q - 2 ^ 52)) ((2 ^ 11 - 1) * 2 ^ 52) = ?x * 2 ^ 52 + (?q - 2 ^ 52)"
    proof -
      have "?q - 2 ^ 52 \<le> 2 ^ 52" using q2 by simp
      moreover have "?x + 1 \<le> 2 ^ 11 - 1" using x(1,2) by simp
      then have "(?x + 1) * 2 ^ 52 \<le> (2 ^ 11 - 1) * (2 :: nat) ^ 52" by (rule mult_le_mono1)
      ultimately show ?thesis by (simp add: algebra_simps)
    qed
    finally show ?thesis .
  qed
  have f: "?q - 2 ^ 52 < 2 ^ 52" using q1 q2 by simp
  have "encode_fp 52 11 s m e False = (if s then 2 ^ (52 + 11) else 0) + (?x * 2 ^ 52 + (?q - 2 ^ 52))"
    using m(1) by (simp add: encode_fp_def r)
  moreover have "?x * 2 ^ 52 + (?q - 2 ^ 52) < 2 ^ 63"
  proof -
    have "?x + 1 \<le> 2 ^ 11" using x(1) by simp
    then have "(?x + 1) * 2 ^ 52 \<le> 2 ^ 11 * (2 :: nat) ^ 52" by (rule mult_le_mono1)
    with f show ?thesis by simp
  qed
  ultimately have u: "unat (num64 s m e False) = (if s then 2 ^ (52 + 11) else 0) + (?x * 2 ^ 52 + (?q - 2 ^ 52))"
    unfolding num64_def by (subst unat_of_nat64) (auto split: if_splits)
  show ?thesis
    unfolding decode64_def u decode_parts[OF x(1) f, of s] Let_def n_def[symmetric]
    using x q1 n53 e by simp
qed

lemma scaled_num64:
  assumes "m < 2 ^ 53" "0 \<le> e" "e < 900"
  shows "scaled (decode64 (num64 s m e False)) = (if s then - 1 else 1) * int m * 2 ^ nat (e + 1074)"
    "is_finite (decode64 (num64 s m e False))"
proof -
  have "scaled (decode64 (num64 s m e False)) = (if s then - 1 else 1) * int m * 2 ^ nat (e + 1074)
    \<and> is_finite (decode64 (num64 s m e False))"
  proof (cases "m = 0")
    case True
    have "unat (num64 s 0 e False) = (if s then 2 ^ (52 + 11) else 0) + (0 * 2 ^ 52 + 0)"
      unfolding num64_def by (subst unat_of_nat64) (simp_all add: encode_fp_def)
    then show ?thesis
      unfolding True decode64_def using decode_parts[of 0 11 0 52 s] by (simp add: Let_def)
  next
    case False
    have n: "nat_bits m \<le> 53" using nat_bits_le[OF assms(1)] .
    have "nat (e + 1074) = (53 - nat_bits m) + nat (e + int (nat_bits m) - 53 + 1074)"
      using n assms by simp
    then have "(2 :: int) ^ nat (e + 1074) =
        2 ^ (53 - nat_bits m) * 2 ^ nat (e + int (nat_bits m) - 53 + 1074)"
      by (simp only: power_add)
    then show ?thesis
      using decode_num64[OF False assms] by (simp del: power_add)
  qed
  then show "scaled (decode64 (num64 s m e False)) = (if s then - 1 else 1) * int m * 2 ^ nat (e + 1074)"
    "is_finite (decode64 (num64 s m e False))" by auto
qed

lemma scaled_double_of_int:
  assumes "\<bar>i\<bar> < 2 ^ 53"
  shows "scaled (decode64 (double_of_int i)) = i * 2 ^ 1074" "is_finite (decode64 (double_of_int i))"
proof -
  have "nat \<bar>i\<bar> < 2 ^ 53" using assms by simp
  from scaled_num64[OF this, of 0 "i < 0"]
  show "scaled (decode64 (double_of_int i)) = i * 2 ^ 1074" "is_finite (decode64 (double_of_int i))"
    unfolding double_of_int_def by (auto split: if_splits)
qed

lemma sint_bounds: "- 2147483648 \<le> sint (a :: u32)" "sint (a :: u32) < 2147483648"
  using sint_greater_eq[of a] sint_less[of a] by simp_all

lemma trunc_double_of_int:
  assumes "\<bar>i\<bar> < 2 ^ 53"
  shows "trunc_int (decode64 (double_of_int i)) = i"
  unfolding trunc_int_def scaled_double_of_int(1)[OF assms]
  by (simp add: signed_divide_int_def sgn_mult abs_mult mult.commute[of "\<bar>i\<bar>"] mult_sgn_abs)

lemma nearest_double_of_int:
  assumes "\<bar>i\<bar> < 2 ^ 53"
  shows "nearest_int (decode64 (double_of_int i)) = i"
  unfolding nearest_int_def Let_def scaled_double_of_int(1)[OF assms] by simp

lemma fp_read_write_double:
  assumes "reg \<noteq> 0" "reg < 32" "prec \<noteq> 0"
  shows "fp_read (fp_write m reg prec v) reg prec = v"
proof -
  have n: "reg + 1 \<noteq> 0" "reg + 1 \<noteq> reg" using assms by (auto simp: word_unat_eq_iff word_less_nat_alt unat_word_ariths)
  have "push_bit 32 (ucast (ucast (drop_bit 32 v) :: u32)) OR ucast (ucast v :: u32) = v"
    by (rule bit_word_eqI) (auto simp: bit_simps not_le dest: bit_imp_le_length)
  then show ?thesis
    using assms n by (simp add: fp_read_def fp_write_def Let_def RD_WR)
qed

lemma fp_order_int:
  assumes "\<bar>i\<bar> < 2 ^ 53" "\<bar>j\<bar> < 2 ^ 53"
  shows "fp_less (double_of_int i) (double_of_int j) \<longleftrightarrow> i < j"
    "fp_eq (double_of_int i) (double_of_int j) \<longleftrightarrow> i = j"
proof -
  have k: "fp_key (decode64 (double_of_int i)) = Some (i * 2 ^ 1074)" if "\<bar>i\<bar> < 2 ^ 53" for i
  proof (cases "decode64 (double_of_int i)")
    case (FNum s m e)
    then show ?thesis using scaled_double_of_int(1)[OF that] by simp
  qed (use scaled_double_of_int(2)[OF that] in simp_all)
  show "fp_less (double_of_int i) (double_of_int j) \<longleftrightarrow> i < j"
    unfolding fp_less_def k[OF assms(1)] k[OF assms(2)] prod.case option.case
    by (subst mult_less_cancel_right_pos) simp_all
  show "fp_eq (double_of_int i) (double_of_int j) \<longleftrightarrow> i = j"
    unfolding fp_eq_def k[OF assms(1)] k[OF assms(2)] by simp
qed

section \<open>Properties\<close>

text \<open>C35. \<open>flt\<close> then \<open>trnc\<close>, \<open>int\<close> or \<open>nint\<close> through a double register pair gives every 32-bit
  integer back.\<close>

theorem flt_int_roundtrip:
  assumes "reg \<noteq> 0" "reg < 32" "prec \<noteq> 0"
  shows "c_trunc (fp_read (fp_write m reg prec (double_of_int (sint a))) reg prec) = Some a \<and>
         c_llrint (fp_read (fp_write m reg prec (double_of_int (sint a))) reg prec) = Some a"
proof -
  have b: "\<bar>sint a\<bar> < 2 ^ 53" using sint_bounds[of a] by simp
  have t: "trunc_int (decode64 (double_of_int (sint a))) = sint a"
    "nearest_int (decode64 (double_of_int (sint a))) = sint a"
    using trunc_double_of_int[OF b] nearest_double_of_int[OF b] by auto
  show ?thesis
    unfolding fp_read_write_double[OF assms] c_trunc_def c_llrint_def Let_def t
    using scaled_double_of_int(2)[OF b] sint_bounds[of a] by simp
qed

theorem flt_int_roundtrip_witness:
  "c_trunc (fp_read (fp_write machine0 24 1 (double_of_int (sint (- 7 :: u32)))) 24 1) = Some (- 7)"
  using flt_int_roundtrip[of 24 1 machine0 "- 7"] by simp

text \<open>C34. \<open>fcmp\<close> of two integers converted by \<open>flt\<close> sets the condition bits where the integer \<open>cmp\<close>
  sets its signed ones: the words agree in bits 0 to 7 and \<open>fcmp\<close> leaves the unsigned bits clear.\<close>

theorem fcmp_matches_cmp:
  "fcmp_word (double_of_int (sint a)) (double_of_int (sint b)) = do_cmp a b AND 0xFF"
proof (rule bit_word_eqI)
  fix k assume "k < LENGTH(32)"
  have b: "\<bar>sint a\<bar> < 2 ^ 53" "\<bar>sint b\<bar> < 2 ^ 53"
    using sint_bounds[of a] sint_bounds[of b] by simp_all
  note o = fp_order_int[OF b] fp_order_int[OF b(2,1)]
  have le: "fp_le (double_of_int (sint a)) (double_of_int (sint b)) \<longleftrightarrow> sint a \<le> sint b"
    "fp_le (double_of_int (sint b)) (double_of_int (sint a)) \<longleftrightarrow> sint b \<le> sint a"
    by (auto simp: fp_le_def o)
  have m: "bit (0xFF :: u32) k \<longleftrightarrow> k < 8"
  proof -
    have "(0xFF :: u32) = mask 8" by (simp add: mask_eq_exp_minus_1)
    then show ?thesis by (simp only: bit_mask_iff) auto
  qed
  have e: "(if sint a = sint b then push_bit C_EQ 1 else push_bit C_NE (1 :: u32))
      = flag (sint a = sint b) C_EQ OR flag (sint a \<noteq> sint b) C_NE" by (simp add: flag_def)
  have f: "push_bit 1 (1 :: u32) = flag True 1" by (simp add: flag_def)
  have "fcmp_word (double_of_int (sint a)) (double_of_int (sint b)) =
      flag True 1 OR (flag (sint a = sint b) C_EQ OR flag (sint a \<noteq> sint b) C_NE)
        OR flag (sint b < sint a) C_GT OR flag (sint a \<le> sint b) C_LE
        OR flag (sint a < sint b) C_LT OR flag (sint b \<le> sint a) C_GE"
    unfolding fcmp_word_def o le e f using linorder_less_linear[of "sint a" "sint b"]
    by (intro if_not_P) auto
  then have l: "bit (fcmp_word (double_of_int (sint a)) (double_of_int (sint b))) k \<longleftrightarrow>
      k = 1 \<or> (k = C_EQ \<and> sint a = sint b) \<or> (k = C_NE \<and> sint a \<noteq> sint b) \<or>
      (k = C_GT \<and> sint b < sint a) \<or> (k = C_LE \<and> sint a \<le> sint b) \<or>
      (k = C_LT \<and> sint a < sint b) \<or> (k = C_GE \<and> sint b \<le> sint a)"
    by (simp only: bit_or_iff) (simp add: bit_flag conj_commute)
  have eq: "sint a = sint b \<longleftrightarrow> a = b" by (metis signed_word_eqI)
  consider "k = 0" | "k = 1" | "k = 2" | "k = 3" | "k = 4" | "k = 5" | "k = 6" | "k = 7" | "8 \<le> k"
    by linarith
  then show "bit (fcmp_word (double_of_int (sint a)) (double_of_int (sint b))) k = bit (do_cmp a b AND 0xFF) k"
    unfolding bit_and_iff m bit_do_cmp l eq by cases simp_all
qed

end
