(* ===== verification/Exec.thy ===== *)
theory Exec
  imports Devices Fpu
begin

text \<open>
  Instructions and exceptions of \<^verbatim>\<open>cpu.c\<close>: the three ways into the kernel
  (\<open>deliver_exception\<close>, \<open>deliver_trap\<close>, \<open>deliver_fault\<close>), the decoding and execution of one
  instruction word, and the sequencing of delay slots.  The host-side intercepts that run before
  the fetch are in \<open>Step\<close>.

  An instruction ends in one of five ways: \<open>Done\<close> with where control goes, a trap instruction that
  fires, a division by zero, an instruction the emulator does not know, or \<open>NoResult\<close> where C gives
  none (the signed quotient of the least integer by -1, a float out of the range of the integer
  conversion, the ring drain that does not end).
\<close>

section \<open>Entering the kernel\<close>

definition deliver_exception :: "machine \<Rightarrow> u32 \<Rightarrow> machine" where
  "deliver_exception m vector =
     (let m = set_cr m 2 (CR m 1);
          m = set_cr (set_cr (set_cr m 14 0) 11 0) 8 0;
          m = set_cr m 4 (pc m);
          m = set_cr m 5 (pc m OR 2);
          m = set_cr m 6 ((pc m + 4) OR 2);
          m = set_cr m 1 (CR m 1 OR 0x80000003)
      in set_pc m (CR m 7 + vector * 8))"

definition clear_pending :: "machine \<Rightarrow> machine" where
  "clear_pending m = m\<lparr>cpu := (cpu m)\<lparr>cpu_has_pending := False\<rparr>\<rparr>"

definition deliver_trap :: "machine \<Rightarrow> u32 \<Rightarrow> u32 \<Rightarrow> machine" where
  "deliver_trap m vector tpc =
     (let m = set_cr m 2 (CR m 1);
          m = set_cr m 4 tpc;
          m = set_cr m 5 ((tpc + 4) OR 2);
          m = set_cr m 6 ((tpc + 8) OR 2);
          m = set_cr m 1 (CR m 1 OR 0x80000003)
      in clear_pending (set_pc m (CR m 7 + vector * 8)))"

text \<open>The byte enables of the aborted transaction.\<close>

definition byte_enables :: "u32 \<Rightarrow> u32 \<Rightarrow> u32" where
  "byte_enables va width =
     (if width = 1 then drop_bit (unat (va AND 3)) 0x20
      else if width = 2 then (if va AND 2 \<noteq> 0 then 0x0C else 0x30)
      else 0x3C)"

definition deliver_fault :: "machine \<Rightarrow> u32 \<Rightarrow> u32 \<Rightarrow> u32 \<Rightarrow> bool \<Rightarrow> bool \<Rightarrow> u32 \<Rightarrow> machine" where
  "deliver_fault m vector fpc va code write width =
     (let base = cmmu_base code;
          m = wr32 m (base + CMMU_PFAR) va;
          m = wr32 m (base + CMMU_PFSR) 0x00050000;
          m = set_cr (set_cr (set_cr m 14 0) 11 0) 8 0;
          m = (if code then m
               else set_cr (set_cr (set_cr m 8 (1 OR (if write then 2 else 0) OR byte_enables va width))
                      9 0) 10 va);
          m = set_cr m 2 (CR m 1);
          m = set_cr m 4 fpc;
          m = set_cr m 5 (fpc OR 2);
          m = set_cr m 6 ((fpc + 4) OR 2);
          m = set_cr m 1 (CR m 1 OR 0x80000003)
      in clear_pending (set_pc m (CR m 7 + vector * 8)))"

text \<open>\<open>rte\<close>: the PSR comes back, control resumes at the first valid pipeline register.\<close>

definition rte :: "machine \<Rightarrow> u32 \<times> machine" where
  "rte m =
     (let m = set_cr m 1 (CR m 2);
          r = (if CR m 4 AND 2 \<noteq> 0 then CR m 4 else if CR m 5 AND 2 \<noteq> 0 then CR m 5 else CR m 6)
      in (r AND NOT 3, m))"

section \<open>One instruction\<close>

datatype insn_result =
    Done machine u32 bool bool     \<comment> \<open>branch target, taken, delayed\<close>
  | DivZero machine
  | BadInsn machine
  | TrapInsn machine u32
  | NoResult

abbreviation next_insn :: "machine \<Rightarrow> insn_result" where
  "next_insn m \<equiv> Done m 0 False False"

definition exec_memop :: "machine \<Rightarrow> u32 \<Rightarrow> u32 \<Rightarrow> u32 \<Rightarrow> insn_result" where
  "exec_memop m sub D ea = (case memop m sub D ea of None \<Rightarrow> NoResult | Some m \<Rightarrow> next_insn m)"

definition exec_div :: "machine \<Rightarrow> u32 \<Rightarrow> u32 \<Rightarrow> u32 \<Rightarrow> insn_result" where
  "exec_div m D a b =
     (if b = 0 then DivZero m
      else (case sdiv32 a b of None \<Rightarrow> NoResult | Some q \<Rightarrow> next_insn (WR m D q)))"

definition exec_imm :: "machine \<Rightarrow> u32 \<Rightarrow> u32 \<Rightarrow> u32 \<Rightarrow> u32 \<Rightarrow> insn_result" where
  "exec_imm m op D a b =
     (if op = 0x10 then next_insn (WR m D (a AND (0xFFFF0000 OR b)))
      else if op = 0x11 then next_insn (WR m D (a AND (0x0000FFFF OR push_bit 16 b)))
      else if op = 0x12 then next_insn (WR m D (a AND b))
      else if op = 0x13 then next_insn (WR m D (a AND push_bit 16 b))
      else if op = 0x14 then next_insn (WR m D (a XOR b))
      else if op = 0x15 then next_insn (WR m D (a XOR push_bit 16 b))
      else if op = 0x16 then next_insn (WR m D (a OR b))
      else if op = 0x17 then next_insn (WR m D (a OR push_bit 16 b))
      else if op = 0x18 then next_insn (WR m D (a + b))
      else if op = 0x19 then next_insn (WR m D (a - b))
      else if op = 0x1A then (if b = 0 then DivZero m else next_insn (WR m D (a div b)))
      else if op = 0x1B then next_insn (WR m D (a * b))
      else if op = 0x1C then next_insn (WR m D (a + b))
      else if op = 0x1D then next_insn (WR m D (a - b))
      else if op = 0x1E then exec_div m D a b
      else if op = 0x1F then next_insn (WR m D (do_cmp a b))
      else next_insn m)"

definition exec_control :: "machine \<Rightarrow> u32 \<Rightarrow> u32 \<Rightarrow> u32 \<Rightarrow> insn_result" where
  "exec_control m w D a =
     (let sub = drop_bit 11 w AND 31; cr = drop_bit 5 w AND 63 in
      if sub = 0x08 \<or> sub = 0x09 then next_insn (WR m D (CR m cr))
      else if sub = 0x10 \<or> sub = 0x11 then next_insn (set_cr m cr a)
      else if sub = 0x18 \<or> sub = 0x19 then
        (let old = CR m cr in next_insn (WR (set_cr m cr a) D old))
      else BadInsn m)"

definition exec_fp :: "machine \<Rightarrow> u32 \<Rightarrow> u32 \<Rightarrow> u32 \<Rightarrow> insn_result" where
  "exec_fp m w D S1 =
     (case exec_fpu m w D S1 of
        None \<Rightarrow> BadInsn m | Some None \<Rightarrow> NoResult | Some (Some m) \<Rightarrow> next_insn m)"

text \<open>\<open>(s32)(w << 6) >> 6\<close> and \<open>(s32)(int16_t)imm\<close>, then \<open><< 2\<close>.\<close>

definition disp26 :: "u32 \<Rightarrow> u32" where
  "disp26 w = push_bit 2 (signed_drop_bit 6 (push_bit 6 w))"

definition disp16 :: "u32 \<Rightarrow> u32" where
  "disp16 imm = push_bit 2 (scast (ucast imm :: u16))"

definition exec_br :: "machine \<Rightarrow> u32 \<Rightarrow> u32 \<Rightarrow> insn_result" where
  "exec_br m op w =
     (let delayed = (op AND 1 \<noteq> 0);
          branch = pc m + disp26 w;
          m = (if op \<ge> 0x32 then WR m 1 (if delayed then pc m + 8 else pc m + 4) else m)
      in Done m branch True delayed)"

definition exec_bb :: "machine \<Rightarrow> u32 \<Rightarrow> u32 \<Rightarrow> u32 \<Rightarrow> u32 \<Rightarrow> insn_result" where
  "exec_bb m op D a imm =
     (let b = bit a (unat D); want = (op \<ge> 0x36); delayed = (op AND 1 \<noteq> 0)
      in if b = want then Done m (pc m + disp16 imm) True delayed else Done m 0 False delayed)"

definition exec_bcnd :: "machine \<Rightarrow> u32 \<Rightarrow> u32 \<Rightarrow> u32 \<Rightarrow> u32 \<Rightarrow> insn_result" where
  "exec_bcnd m op D a imm =
     (let delayed = (op = 0x3B)
      in if cond_true D a then Done m (pc m + disp16 imm) True delayed else Done m 0 False delayed)"

definition exec_bf_trap :: "machine \<Rightarrow> u32 \<Rightarrow> u32 \<Rightarrow> u32 \<Rightarrow> insn_result" where
  "exec_bf_trap m w D a =
     (let sub = drop_bit 10 w AND 63 in
      if sub = 0x34 \<or> sub = 0x36 \<or> sub = 0x3A then
        (let fire = (if sub = 0x34 then \<not> bit a (unat D)
                     else if sub = 0x36 then bit a (unat D) else cond_true D a)
         in if fire then TrapInsn m (w AND 0x1FF) else next_insn m)
      else next_insn (bitfield m sub D a (drop_bit 5 w AND 31) (w AND 31)))"

definition exec_reg_alu :: "machine \<Rightarrow> u32 \<Rightarrow> u32 \<Rightarrow> u32 \<Rightarrow> u32 \<Rightarrow> insn_result" where
  "exec_reg_alu m sub D a b =
     (if sub = 0x10 then next_insn (WR m D (a AND b))
      else if sub = 0x11 then next_insn (WR m D (a AND NOT b))
      else if sub = 0x14 then next_insn (WR m D (a XOR b))
      else if sub = 0x15 then next_insn (WR m D (a XOR NOT b))
      else if sub = 0x16 then next_insn (WR m D (a OR b))
      else if sub = 0x17 then next_insn (WR m D (a OR NOT b))
      else if sub = 0x18 then next_insn (WR m D (a + b))
      else if sub = 0x19 then next_insn (WR m D (a - b))
      else if sub = 0x1A then (if b = 0 then DivZero m else next_insn (WR m D (a div b)))
      else if sub = 0x1B then next_insn (WR m D (a * b))
      else if sub = 0x1C then next_insn (WR m D (a + b))
      else if sub = 0x1D then next_insn (WR m D (a - b))
      else if sub = 0x1E then exec_div m D a b
      else if sub = 0x1F then next_insn (WR m D (do_cmp a b))
      else BadInsn m)"

definition exec_triadic :: "machine \<Rightarrow> u32 \<Rightarrow> u32 \<Rightarrow> u32 \<Rightarrow> insn_result" where
  "exec_triadic m w D a =
     (let sub = drop_bit 10 w AND 63; var = drop_bit 5 w AND 31; S2 = w AND 31; b = RD m S2 in
      if sub < 0x10 then
        exec_memop m sub D (a + (if var AND 0x10 \<noteq> 0 then b * memop_scale sub else b))
      else if sub < 0x20 then exec_reg_alu m sub D a b
      else if sub \<le> 0x2A then next_insn (bitfield m sub D a (drop_bit 5 b AND 31) (b AND 31))
      else if sub = 0x3A then next_insn (WR m D (ff1 b))
      else if sub = 0x3B then next_insn (WR m D (ff0 b))
      else if sub \<ge> 0x30 \<and> sub \<le> 0x33 then
        (let delayed = (sub AND 1 \<noteq> 0);
             m = (if sub \<ge> 0x32 then WR m 1 (if delayed then pc m + 8 else pc m + 4) else m)
         in Done m (b AND NOT 3) True delayed)
      else if sub = 0x3F then (let (t, m) = rte m in Done m t True False)
      else BadInsn m)"

definition exec :: "machine \<Rightarrow> u32 \<Rightarrow> insn_result" where
  "exec m w =
     (let op = drop_bit 26 w; D = drop_bit 21 w AND 31; S1 = drop_bit 16 w AND 31;
          imm = w AND 0xFFFF; a = RD m S1
      in if op < 0x10 then exec_memop m op D (a + imm)
         else if op < 0x20 then exec_imm m op D a imm
         else if op = 0x20 then exec_control m w D a
         else if op = 0x21 then exec_fp m w D S1
         else if op \<ge> 0x30 \<and> op \<le> 0x33 then exec_br m op w
         else if op \<ge> 0x34 \<and> op \<le> 0x37 then exec_bb m op D a imm
         else if op = 0x3A \<or> op = 0x3B then exec_bcnd m op D a imm
         else if op = 0x3C then exec_bf_trap m w D a
         else if op = 0x3D then exec_triadic m w D a
         else BadInsn m)"

section \<open>Sequencing\<close>

datatype step_result =
    Running machine      \<comment> \<open>\<open>step\<close> returned 0\<close>
  | Trapped machine      \<comment> \<open>\<open>step\<close> returned 1\<close>
  | NoStep

definition take_trap :: "machine \<Rightarrow> u32 \<Rightarrow> step_result" where
  "take_trap m vector = Trapped (m\<lparr>trap_taken := True, trap_vector := vector, trap_pc := pc m\<rparr>)"

definition sequence :: "machine \<Rightarrow> u32 \<Rightarrow> bool \<Rightarrow> bool \<Rightarrow> machine" where
  "sequence m branch taken delayed =
     (let c = cpu m in
      if cpu_has_pending c then m\<lparr>cpu := c\<lparr>cpu_has_pending := False, cpu_pc := cpu_pending c\<rparr>\<rparr>
      else if taken then
        (if delayed
         then m\<lparr>cpu := c\<lparr>cpu_pending := branch, cpu_has_pending := True, cpu_pc := cpu_pc c + 4\<rparr>\<rparr>
         else m\<lparr>cpu := c\<lparr>cpu_pc := branch\<rparr>\<rparr>)
      else m\<lparr>cpu := c\<lparr>cpu_pc := cpu_pc c + 4\<rparr>\<rparr>)"

definition count_insn :: "machine \<Rightarrow> machine" where
  "count_insn m = m\<lparr>cpu := (cpu m)\<lparr>cpu_count := cpu_count (cpu m) + 1\<rparr>\<rparr>"

text \<open>From the fetched word to the end of \<open>step\<close>.\<close>

definition run_insn :: "machine \<Rightarrow> u32 \<Rightarrow> step_result" where
  "run_insn m w =
     (case exec (count_insn m) w of
        Done m branch taken delayed \<Rightarrow>
          if fault_pending m then Running m else Running (sequence m branch taken delayed)
      | DivZero m \<Rightarrow> take_trap m 6
      | BadInsn m \<Rightarrow> take_trap m 0xFFFFFFFF
      | TrapInsn m v \<Rightarrow> take_trap m v
      | NoResult \<Rightarrow> NoStep)"

definition fetch_and_run :: "machine \<Rightarrow> step_result" where
  "fetch_and_run m =
     (let (pa, m) = translate m (pc m) True; w = rd32 m pa
      in if fault_pending m then Running m else run_insn m w)"

section \<open>What an instruction leaves alone\<close>

text \<open>\<open>ctl\<close> is the sequencing state; \<open>regs_only\<close> holds of two states that differ in registers only.\<close>

definition ctl :: "machine \<Rightarrow> u32 \<times> u32 \<times> bool \<times> u64" where
  "ctl m = (pc m, cpu_pending (cpu m), cpu_has_pending (cpu m), cpu_count (cpu m))"

definition regs_only :: "machine \<Rightarrow> machine \<Rightarrow> bool" where
  "regs_only m m' \<longleftrightarrow> mem m' = mem m \<and> mmu m' = mmu m \<and> dev m' = dev m \<and> cfg m' = cfg m \<and>
     sysmode m' = sysmode m \<and> in_kcall m' = in_kcall m \<and> ctl m' = ctl m"

lemma regs_only_simps [simp]:
  "regs_only m m" "regs_only m (WR n k v) \<longleftrightarrow> regs_only m n"
  "regs_only m (set_cr n i v) \<longleftrightarrow> regs_only m n"
  "regs_only m (bitfield n sub D a width offset) \<longleftrightarrow> regs_only m n"
  "regs_only m (fp_write n D p x) \<longleftrightarrow> regs_only m n"
  by (simp_all add: regs_only_def ctl_def bitfield_def fp_write_def Let_def set_cr_def)

lemma regs_only_ctl: "regs_only m m' \<Longrightarrow> ctl m' = ctl m"
  by (simp add: regs_only_def)

lemma exec_fpu_regs: "exec_fpu m w D S1 = Some (Some m') \<Longrightarrow> regs_only m m'"
  by (auto simp: exec_fpu_def Let_def split: if_splits option.splits)

lemma exec_div_regs: "exec_div m D a b = Done m' br t d \<Longrightarrow> regs_only m m' \<and> \<not> t"
  by (auto simp: exec_div_def split: if_splits option.splits)

lemma exec_imm_regs: "exec_imm m op D a b = Done m' br t d \<Longrightarrow> regs_only m m' \<and> \<not> t"
  by (auto simp: exec_imm_def dest: exec_div_regs split: if_splits)

lemma exec_reg_alu_regs: "exec_reg_alu m sub D a b = Done m' br t d \<Longrightarrow> regs_only m m' \<and> \<not> t"
  by (auto simp: exec_reg_alu_def dest: exec_div_regs split: if_splits)

lemma exec_control_regs: "exec_control m w D a = Done m' br t d \<Longrightarrow> regs_only m m' \<and> \<not> t"
  by (auto simp: exec_control_def Let_def split: if_splits)

lemma exec_fp_regs: "exec_fp m w D S1 = Done m' br t d \<Longrightarrow> regs_only m m' \<and> \<not> t"
  by (auto simp: exec_fp_def dest: exec_fpu_regs split: option.splits)

lemma exec_bf_trap_regs: "exec_bf_trap m w D a = Done m' br t d \<Longrightarrow> regs_only m m' \<and> \<not> t"
  by (auto simp: exec_bf_trap_def Let_def split: if_splits)

text \<open>Word alignment: two low bits clear.\<close>

definition aligned :: "u32 \<Rightarrow> bool" where
  "aligned a \<longleftrightarrow> a AND 3 = 0"

lemma and_3: "(a :: u32) AND 3 = take_bit 2 a"
  by (simp add: take_bit_eq_mask mask_eq_exp_minus_1)

lemma aligned_dvd: "aligned a \<longleftrightarrow> 4 dvd unat a"
proof -
  have "unat (a AND 3) = unat a mod 4"
    unfolding and_3 unsigned_take_bit_eq by (simp add: take_bit_eq_mod)
  then show ?thesis by (auto simp: aligned_def word_unat_eq_iff dvd_eq_mod_eq_0)
qed

lemma aligned_add: "aligned a \<Longrightarrow> aligned b \<Longrightarrow> aligned (a + b)"
proof -
  assume "aligned a" "aligned b"
  then have "4 dvd unat a + unat b" by (simp add: aligned_dvd)
  then have "4 dvd (unat a + unat b) mod 4294967296" by (rule dvd_mod) simp
  then show ?thesis by (simp add: aligned_dvd unat_word_ariths)
qed

lemma aligned_masks [simp]:
  "aligned (a AND NOT 3)" "aligned (a AND - 4)" "aligned (push_bit 2 a)" "aligned 4" "aligned 0"
proof -
  show "aligned (a AND NOT 3)" by (simp add: aligned_def and.assoc)
  show "aligned (a AND - 4)" by (simp add: aligned_def and.assoc)
  show "aligned (push_bit 2 a)" unfolding aligned_def and_3 by (simp add: take_bit_push_bit)
qed (simp_all add: aligned_def)

lemma exec_br_regs:
  "exec_br m op w = Done m' br t d \<Longrightarrow> regs_only m m' \<and> (aligned (pc m) \<longrightarrow> aligned br)"
  by (auto simp: exec_br_def Let_def disp26_def intro: aligned_add split: if_splits)

lemma exec_bb_regs:
  "exec_bb m op D a imm = Done m' br t d \<Longrightarrow> m' = m \<and> (aligned (pc m) \<longrightarrow> aligned br)"
  by (auto simp: exec_bb_def Let_def disp16_def intro: aligned_add split: if_splits)

lemma exec_bcnd_regs:
  "exec_bcnd m op D a imm = Done m' br t d \<Longrightarrow> m' = m \<and> (aligned (pc m) \<longrightarrow> aligned br)"
  by (auto simp: exec_bcnd_def Let_def disp16_def intro: aligned_add split: if_splits)

lemma rte_regs: "rte m = (t, m') \<Longrightarrow> regs_only m m' \<and> aligned t"
  by (auto simp: rte_def Let_def)

text \<open>Every instruction either runs \<open>memop\<close> or changes registers only.\<close>

lemma exec_triadic_cases:
  assumes "exec_triadic m w D a = Done m' br t d"
  shows "(\<exists>sub ea. sub < 0x10 \<and> memop m sub D ea = Some m' \<and> \<not> t) \<or>
         (regs_only m m' \<and> (t \<longrightarrow> aligned br))"
proof -
  define sub b where "sub = drop_bit 10 w AND 63" and "b = RD m (w AND 31)"
  note e = assms[unfolded exec_triadic_def Let_def, folded sub_def b_def]
  show ?thesis
  proof (cases "sub < 0x10")
    case True
    with e show ?thesis by (auto simp: exec_memop_def split: option.splits)
  next
    case False
    with e exec_reg_alu_regs[of m sub D a b m' br t d] rte_regs show ?thesis
      by (auto split: if_splits prod.splits)
  qed
qed

lemma exec_cases:
  assumes "exec m w = Done m' br t d"
  shows "(\<exists>sub D ea. sub < 0x10 \<and> memop m sub D ea = Some m' \<and> \<not> t) \<or>
         (regs_only m m' \<and> (t \<longrightarrow> aligned (pc m) \<longrightarrow> aligned br))"
proof -
  define op D S1 imm where "op = drop_bit 26 w" and "D = drop_bit 21 w AND 31"
    and "S1 = drop_bit 16 w AND 31" and "imm = w AND 0xFFFF"
  note e = assms[unfolded exec_def Let_def, folded op_def D_def S1_def imm_def]
  let ?a = "RD m S1"
  consider "op < 0x10" "exec_memop m op D (?a + imm) = Done m' br t d"
    | "exec_imm m op D ?a imm = Done m' br t d" | "exec_control m w D ?a = Done m' br t d"
    | "exec_fp m w D S1 = Done m' br t d" | "exec_br m op w = Done m' br t d"
    | "exec_bb m op D ?a imm = Done m' br t d" | "exec_bcnd m op D ?a imm = Done m' br t d"
    | "exec_bf_trap m w D ?a = Done m' br t d" | "exec_triadic m w D ?a = Done m' br t d"
    using e by (auto split: if_splits)
  then show ?thesis
  proof cases
    case 1
    then show ?thesis by (auto simp: exec_memop_def split: option.splits)
  qed (use exec_imm_regs exec_control_regs exec_fp_regs exec_br_regs exec_bb_regs exec_bcnd_regs
      exec_bf_trap_regs exec_triadic_cases regs_only_simps(1) in metis)+
qed

text \<open>An instruction that traps has changed nothing.\<close>

definition trap_of :: "insn_result \<Rightarrow> machine option" where
  "trap_of r = (case r of DivZero m \<Rightarrow> Some m | BadInsn m \<Rightarrow> Some m | TrapInsn m v \<Rightarrow> Some m | _ \<Rightarrow> None)"

lemma trap_of_simps [simp]:
  "trap_of (Done m b t d) = None" "trap_of (DivZero m) = Some m" "trap_of (BadInsn m) = Some m"
  "trap_of (TrapInsn m v) = Some m" "trap_of NoResult = None"
  by (simp_all add: trap_of_def)

lemma trap_of_parts:
  "trap_of (exec_memop m sub D ea) = None"
  "trap_of (exec_div m D a b) = Some m' \<Longrightarrow> m' = m"
  "trap_of (exec_br m op w) = None"
  "trap_of (exec_bb m op D a imm) = None" "trap_of (exec_bcnd m op D a imm) = None"
  by (auto simp: exec_memop_def exec_div_def exec_br_def exec_bb_def exec_bcnd_def Let_def
      split: option.splits if_splits)

lemma trap_of_alu:
  "trap_of (exec_imm m op D a b) = Some m' \<Longrightarrow> m' = m"
  "trap_of (exec_reg_alu m sub D a b) = Some m' \<Longrightarrow> m' = m"
  by (auto simp: exec_imm_def exec_reg_alu_def dest: trap_of_parts(2) split: if_splits)

lemma trap_of_other:
  "trap_of (exec_control m w D a) = Some m' \<Longrightarrow> m' = m"
  "trap_of (exec_fp m w D S1) = Some m' \<Longrightarrow> m' = m"
  "trap_of (exec_bf_trap m w D a) = Some m' \<Longrightarrow> m' = m"
  by (auto simp: exec_control_def exec_fp_def exec_bf_trap_def Let_def split: if_splits option.splits)

lemma trap_of_triadic: "trap_of (exec_triadic m w D a) = Some m' \<Longrightarrow> m' = m"
  by (auto simp: exec_triadic_def Let_def trap_of_parts(1) dest: trap_of_alu
      split: if_splits prod.splits)

lemma exec_trap: "trap_of (exec m w) = Some m' \<Longrightarrow> m' = m"
  by (auto simp: exec_def Let_def trap_of_parts dest: trap_of_alu trap_of_other trap_of_triadic
      split: if_splits)

section \<open>Memory accesses and the sequencing state\<close>

text \<open>\<open>still m m'\<close>: the sequencing state, the fault record and the settings are those of before.\<close>

definition still :: "machine \<Rightarrow> machine \<Rightarrow> bool" where
  "still m m' \<longleftrightarrow> ctl m' = ctl m \<and> ufault (mmu m') = ufault (mmu m) \<and>
     cfg m' = cfg m \<and> sysmode m' = sysmode m \<and> translate_on (mmu m') = translate_on (mmu m)"

lemma still_refl [simp]: "still m m"
  by (simp add: still_def)

lemma still_trans: "still m m' \<Longrightarrow> still m' m'' \<Longrightarrow> still m m''"
  by (simp add: still_def)

lemma still_updates [simp]:
  "still m (n\<lparr>mem := x\<rparr>) \<longleftrightarrow> still m n" "still m (upd_dev f n) \<longleftrightarrow> still m n"
  "still m (WR n k v) \<longleftrightarrow> still m n" "still m (set_xlat_write n b) \<longleftrightarrow> still m n"
  "still m (tlb_flush n) \<longleftrightarrow> still m n" "still m (upd_stats g n) \<longleftrightarrow> still m n"
  by (simp_all add: still_def ctl_def upd_dev_def set_xlat_write_def tlb_flush_def upd_stats_def)

lemma still_walk_fb: "walk_fb m apr va code = (r, m') \<Longrightarrow> still m m'"
  using ufault_walks(2)[of m apr va code r m'] same_walk_fb[of m apr va code r m'] sameD[of m m']
  by (simp add: still_def ctl_def)

lemma still_cmmu_command: "still m (cmmu_command m base cmd)"
  by (auto simp: cmmu_command_def Let_def dest: still_walk_fb split: prod.split option.split)

lemma still_tcs_poke: "still m (tcs_poke m a)"
  by (simp add: tcs_poke_def Let_def)

lemma still_dev_write32: "still m (dev_write32 m a v)"
proof -
  have c: "still m (cmmu_command n b c)" if "still m n" for n b c
    using that still_cmmu_command still_trans by blast
  have k: "still m (tcs_poke n b)" if "still m n" for n b
    using that still_tcs_poke still_trans by blast
  define m1 where "m1 = (if sysmode m \<and> a = TIMER_CMP_REG
      then upd_dev (\<lambda>d. d\<lparr>clock_deadline := v, clock_armed := True\<rparr>) m else m)"
  define m2 where "m2 = (if sysmode m1 \<and> a = TIMER_ENA_REG
      then upd_dev (\<lambda>d. d\<lparr>clock_enabled := (v \<noteq> 0)\<rparr>) m1 else m1)"
  have s: "still m m2" by (simp add: m2_def m1_def)
  have p: "still m (tcs_poke (wr32 m2 a v) a)" using s by (intro k) simp
  show ?thesis
    unfolding dev_write32_def Let_def m1_def[symmetric] m2_def[symmetric]
    by (simp add: s p c split: option.split)
qed

lemma still_dev_read32: "dev_read32 m a = (v, m') \<Longrightarrow> still m m'"
  by (auto simp: dev_read32_def split: if_splits)

lemma still_memop_access: "still m (memop_access m sub D ea)"
proof -
  have w: "still m (dev_write32 n a v)" if "still m n" for n a v
    using that still_dev_write32 still_trans by blast
  have r: "still m (snd (dev_read32 n a))" if "still m n" for n a
    using that still_dev_read32[of n a] still_trans by (metis prod.collapse)
  have k: "still m (tcs_poke n b)" if "still m n" for n b
    using that still_tcs_poke still_trans by blast
  show ?thesis
    by (simp add: memop_access_def Let_def split_beta w k r)
qed

lemma still_memop_sha: "memop_sha m sub D ea = Some m' \<Longrightarrow> still m m'"
  by (auto simp: memop_sha_def Let_def split: if_splits)

lemma still_memop_timer: "memop_timer m sub D ea = Some m' \<Longrightarrow> still m m'"
  by (auto simp: memop_timer_def Let_def split: if_splits)

lemma memop_cases:
  assumes m: "memop m sub D ea = Some m'" and s: "sub < 0x10" and f: "\<not> fault_pending m"
  shows "ctl m' = ctl m \<and>
    (if fault_pending m' then mem m' = mem m \<and> cpu m' = cpu m \<and> dev m' = dev m
     else ufault (mmu m') = ufault (mmu m))"
proof (cases "sub \<ge> 0x0C \<and> sub \<le> 0x0F")
  case True
  then show ?thesis using m f by (auto simp: memop_def ctl_def)
next
  case False
  obtain pa m1 where t: "translate (set_xlat_write m (is_store sub)) ea False = (pa, m1)" by fastforce
  show ?thesis
  proof (cases "fault_pending m1")
    case True
    with memop_fault[OF m False] t show ?thesis by (auto simp: ctl_def)
  next
    case nf: False
    have uf: "ufault (mmu m1) = ufault (mmu m)"
      using translate_fault[OF t] nf by (auto simp: fault_step_def)
    have "cpu m1 = cpu m" "cfg m1 = cfg m" "sysmode m1 = sysmode m" "translate_on (mmu m1) = translate_on (mmu m)"
      using sameD[OF same_translate[OF t]] by simp_all
    then have s1: "still m (set_xlat_write m1 False)"
      by (simp add: still_def ctl_def uf)
    have "still (set_xlat_write m1 False) m'"
      using m nf False still_memop_sha still_memop_timer still_memop_access
      unfolding memop_def Let_def t prod.case
      by (auto split: option.splits if_splits)
    with s1 have "still m m'" by (rule still_trans)
    then show ?thesis using f by (simp add: still_def)
  qed
qed

text \<open>A finished instruction has not moved the program counter, and if it faulted it did nothing.\<close>

lemma exec_done:
  assumes "exec m w = Done m' br t d" "\<not> fault_pending m"
  shows "ctl m' = ctl m" "t \<Longrightarrow> aligned (pc m) \<Longrightarrow> aligned br"
    "fault_pending m' \<Longrightarrow> mem m' = mem m \<and> cpu m' = cpu m \<and> dev m' = dev m"
  using exec_cases[OF assms(1)] memop_cases[OF _ _ assms(2)] assms(2)
  by (auto simp: regs_only_def split: if_splits)

section \<open>Exceptions and their return\<close>

lemma set_pc_clear [simp]:
  "CR (set_pc m v) i = CR m i" "CR (clear_pending m) i = CR m i" "pc (clear_pending m) = pc m"
  "cpu_r (cpu (clear_pending m)) = cpu_r (cpu m)" "mem (clear_pending m) = mem m"
  "\<not> cpu_has_pending (cpu (clear_pending m))"
  by (simp_all add: set_pc_def clear_pending_def)

lemma resume_words:
  fixes a :: u32
  assumes "aligned a"
  shows "a AND 2 = 0" "(a OR 2) AND 2 \<noteq> 0" "(a OR 2) AND NOT 3 = a" "(a OR 2) AND - 4 = a"
proof -
  have "a AND 2 = (a AND 3) AND 2" by (simp add: and.assoc)
  with assms show "a AND 2 = 0" by (simp add: aligned_def)
  show "(a OR 2) AND 2 \<noteq> 0" by (simp add: bit.conj_disj_distrib2)
  have "a AND NOT 3 = a"
  proof -
    have "a = (a AND 3) OR (a AND NOT 3)" by (simp flip: bit.conj_disj_distrib)
    with assms show ?thesis by (simp add: aligned_def)
  qed
  then show "(a OR 2) AND NOT 3 = a" by (simp add: bit.conj_disj_distrib2)
  then show "(a OR 2) AND - 4 = a" by simp
qed

lemma rte_snip:
  "CR m 4 AND 2 = 0 \<Longrightarrow> CR m 5 = a OR 2 \<Longrightarrow> aligned a \<Longrightarrow> rte m = (a, set_cr m 1 (CR m 2))"
  using resume_words[of a] by (simp add: rte_def Let_def)

lemmas deliver_defs = deliver_exception_def deliver_trap_def deliver_fault_def

lemma deliver_exception_state:
  "CR (deliver_exception m v) 4 = pc m" "CR (deliver_exception m v) 5 = pc m OR 2"
  "CR (deliver_exception m v) 2 = CR m 1" "pc (deliver_exception m v) = CR m 7 + v * 8"
  "cpu_r (cpu (deliver_exception m v)) = cpu_r (cpu m)" "mem (deliver_exception m v) = mem m"
  "CR (deliver_exception m v) 1 = CR m 1 OR 0x80000003"
  by (simp_all add: deliver_defs Let_def)

lemma deliver_trap_state:
  "CR (deliver_trap m v t) 4 = t" "CR (deliver_trap m v t) 5 = (t + 4) OR 2"
  "CR (deliver_trap m v t) 2 = CR m 1" "pc (deliver_trap m v t) = CR m 7 + v * 8"
  "cpu_r (cpu (deliver_trap m v t)) = cpu_r (cpu m)" "mem (deliver_trap m v t) = mem m"
  "CR (deliver_trap m v t) 1 = CR m 1 OR 0x80000003"
  "\<not> cpu_has_pending (cpu (deliver_trap m v t))"
  by (simp_all add: deliver_defs Let_def)

lemma deliver_fault_state:
  "CR (deliver_fault m v p va c w wd) 4 = p" "CR (deliver_fault m v p va c w wd) 5 = p OR 2"
  "CR (deliver_fault m v p va c w wd) 2 = CR m 1"
  "pc (deliver_fault m v p va c w wd) = CR m 7 + v * 8"
  "cpu_r (cpu (deliver_fault m v p va c w wd)) = cpu_r (cpu m)"
  "CR (deliver_fault m v p va c w wd) 1 = CR m 1 OR 0x80000003"
  "\<not> cpu_has_pending (cpu (deliver_fault m v p va c w wd))"
  by (simp_all add: deliver_defs Let_def)

lemma supervisor_or: "(x OR 0x80000003) AND 0x80000000 \<noteq> (0 :: u32)"
proof -
  have "bit ((x OR 0x80000003) AND 0x80000000) 31"
    by (simp add: bit_and_iff bit_or_iff)
  then show ?thesis by (metis bit_0_eq bot_apply bot_bool_def)
qed

section \<open>Properties\<close>

text \<open>C1. A faulting instruction is restartable: when one raises a page fault, memory, devices and
  every register, the program counter and the delay-slot state included, are what they were; only
  the instruction count has moved.\<close>

theorem fault_restartable:
  assumes "\<not> fault_pending m" "run_insn m w = Running m'" "fault_pending m'"
  shows "mem m' = mem m \<and> dev m' = dev m \<and> cpu m' = (cpu m)\<lparr>cpu_count := cpu_count (cpu m) + 1\<rparr>"
proof -
  have n: "\<not> fault_pending (count_insn m)" using assms(1) by (simp add: count_insn_def)
  from assms(2,3) obtain br t d where e: "exec (count_insn m) w = Done m' br t d"
    by (auto simp: run_insn_def take_trap_def sequence_def Let_def split: insn_result.splits if_splits)
  from exec_done(3)[OF e n assms(3)] show ?thesis by (simp add: count_insn_def)
qed

theorem fault_restartable_witness:
  "\<exists>m'. run_insn unmapped_machine 0x14401234 = Running m' \<and> mem m' = mem unmapped_machine"
proof -
  have "case run_insn unmapped_machine 0x14401234 of Running m \<Rightarrow> fault_pending m | _ \<Rightarrow> False"
    by code_simp
  then obtain m' where r: "run_insn unmapped_machine 0x14401234 = Running m'" "fault_pending m'"
    by (auto split: step_result.splits)
  moreover have "\<not> fault_pending unmapped_machine" by code_simp
  ultimately show ?thesis using fault_restartable[of unmapped_machine "0x14401234" m'] by blast
qed

text \<open>C3. Delay slots: a taken delayed branch sets up its slot at the next address, and whatever
  instruction completes there, a branch included, control goes to the target of the first.\<close>

theorem delay_slot:
  assumes "\<not> cpu_has_pending (cpu m)" "\<not> fault_pending m" "\<not> fault_pending m1"
    and "exec (count_insn m) w = Done m1 target True True"
  shows "\<exists>m2. run_insn m w = Running m2 \<and> pc m2 = pc m + 4 \<and>
    (\<forall>w' m3 br t d. exec (count_insn m2) w' = Done m3 br t d \<and> \<not> fault_pending m3 \<longrightarrow>
       (\<exists>m4. run_insn m2 w' = Running m4 \<and> pc m4 = target \<and> \<not> cpu_has_pending (cpu m4)))"
proof -
  let ?m2 = "sequence m1 target True True"
  have "\<not> fault_pending (count_insn m)" using assms(2) by (simp add: count_insn_def)
  from exec_done(1)[OF assms(4) this] have c: "pc m1 = pc m" "\<not> cpu_has_pending (cpu m1)"
    using assms(1) by (simp_all add: ctl_def count_insn_def)
  have m2: "pc ?m2 = pc m + 4" "cpu_has_pending (cpu ?m2)" "cpu_pending (cpu ?m2) = target"
    "\<not> fault_pending ?m2"
    using c assms(3) by (simp_all add: sequence_def Let_def)
  have "run_insn m w = Running ?m2" using assms(3,4) by (simp add: run_insn_def)
  moreover have "\<exists>m4. run_insn ?m2 w' = Running m4 \<and> pc m4 = target \<and> \<not> cpu_has_pending (cpu m4)"
    if e: "exec (count_insn ?m2) w' = Done m3 br t d" "\<not> fault_pending m3" for w' m3 br t d
  proof -
    have "\<not> fault_pending (count_insn ?m2)" using m2(4) by (simp add: count_insn_def)
    from exec_done(1)[OF e(1) this] have "cpu_has_pending (cpu m3)" "cpu_pending (cpu m3) = target"
      using m2 by (simp_all add: ctl_def count_insn_def)
    with e show ?thesis by (simp add: run_insn_def sequence_def Let_def)
  qed
  ultimately show ?thesis using m2(1) by blast
qed

theorem delay_slot_witness:
  "\<exists>m2. run_insn (set_pc machine0 0x1000) 0xC4000004 = Running m2 \<and> pc m2 = 0x1004"
proof -
  let ?m = "set_pc machine0 0x1000"
  have "exec (count_insn ?m) 0xC4000004 = Done (count_insn ?m) 0x1010 True True"
    by (simp add: exec_def exec_br_def disp26_def count_insn_def Let_def)
  moreover have "\<not> cpu_has_pending (cpu ?m)" "\<not> fault_pending ?m" "\<not> fault_pending (count_insn ?m)"
    by (simp_all add: count_insn_def machine0_def cpu0_def mmu0_def)
  ultimately show ?thesis using delay_slot[of ?m "count_insn ?m" "0xC4000004" "0x1010"] by auto
qed

text \<open>C18. Instructions keep the program counter and a pending branch target word-aligned.\<close>

theorem pc_aligned:
  assumes "\<not> fault_pending m" "run_insn m w = Running m'" "aligned (pc m)"
    and "cpu_has_pending (cpu m) \<longrightarrow> aligned (cpu_pending (cpu m))"
  shows "aligned (pc m') \<and> (cpu_has_pending (cpu m') \<longrightarrow> aligned (cpu_pending (cpu m')))"
proof -
  have n: "\<not> fault_pending (count_insn m)" using assms(1) by (simp add: count_insn_def)
  from assms(2) obtain m1 br t d where e: "exec (count_insn m) w = Done m1 br t d"
    and m': "m' = (if fault_pending m1 then m1 else sequence m1 br t d)"
    by (auto simp: run_insn_def take_trap_def split: insn_result.splits if_splits)
  have c: "pc m1 = pc m" "cpu_has_pending (cpu m1) = cpu_has_pending (cpu m)"
    "cpu_pending (cpu m1) = cpu_pending (cpu m)"
    using exec_done(1)[OF e n] by (simp_all add: ctl_def count_insn_def)
  have b: "t \<Longrightarrow> aligned br" using exec_done(2)[OF e n] assms(3) by (simp add: count_insn_def)
  show ?thesis
    using assms(3,4) b c aligned_add[of "pc m" 4] by (auto simp: m' sequence_def Let_def)
qed

theorem pc_aligned_witness:
  "\<exists>m'. run_insn (set_pc machine0 0x1000) 0x60420001 = Running m' \<and> aligned (pc m')"
proof -
  let ?m = "set_pc machine0 0x1000"
  have "case run_insn ?m 0x60420001 of Running m \<Rightarrow> True | _ \<Rightarrow> False" by code_simp
  then obtain m' where r: "run_insn ?m 0x60420001 = Running m'" by (auto split: step_result.splits)
  have "\<not> fault_pending ?m" "aligned (pc ?m)" "\<not> cpu_has_pending (cpu ?m)"
    by (simp_all add: machine0_def mmu0_def cpu0_def aligned_def)
  with r show ?thesis using pc_aligned[of ?m "0x60420001" m'] by blast
qed

definition resumes :: "machine \<Rightarrow> machine \<Rightarrow> u32 \<Rightarrow> u32 \<Rightarrow> bool" where
  "resumes m m' v t \<longleftrightarrow>
     supervisor m' \<and> pc m' = CR m 7 + v * 8 \<and> cpu_r (cpu m') = cpu_r (cpu m) \<and>
     fst (rte m') = t \<and> CR (snd (rte m')) 1 = CR m 1"

text \<open>C4. Entering and leaving the kernel.  An interrupt, a trap or a page fault enters supervisor
  mode at its vector with the registers kept, and \<open>rte\<close> restores the PSR and resumes an interrupted
  program where it was, a faulting one at the faulting instruction, a trap after it.\<close>

theorem exception_return:
  assumes "aligned (pc m)" "aligned p"
  shows "resumes m (deliver_exception m v) v (pc m) \<and> resumes m (deliver_trap m v p) v (p + 4) \<and>
    resumes m (deliver_fault m v p va c wr wd) v p"
proof -
  note w = resume_words(1)[OF assms(1)] resume_words(1)[OF assms(2)]
  have p4: "aligned (p + 4)" using assms(2) by (simp add: aligned_add)
  have "resumes m (deliver_exception m v) v (pc m)"
    using assms rte_snip[of "deliver_exception m v" "pc m"] w
    by (simp add: resumes_def deliver_exception_state supervisor_def supervisor_or)
  moreover have "resumes m (deliver_trap m v p) v (p + 4)"
    using assms rte_snip[of "deliver_trap m v p" "p + 4"] w p4
    by (simp add: resumes_def deliver_trap_state supervisor_def supervisor_or)
  moreover have "resumes m (deliver_fault m v p va c wr wd) v p"
    using assms rte_snip[of "deliver_fault m v p va c wr wd" p] w
    by (simp add: resumes_def deliver_fault_state supervisor_def supervisor_or)
  ultimately show ?thesis by blast
qed

theorem exception_return_witness:
  "resumes (set_pc machine0 0x1000) (deliver_trap (set_pc machine0 0x1000) 128 0x1000) 128 0x1004"
  using exception_return[of "set_pc machine0 0x1000" "0x1000" 128] by (simp add: aligned_def)

text \<open>C33. A trap or a page fault taken in a delay slot loses the branch: the pending target is dropped
  on entry, so \<open>rte\<close> resumes at the slot (or after it) and the next instruction is the one behind the
  slot, wherever the branch was going.\<close>

theorem delay_slot_exception_drops_branch:
  assumes "aligned (pc m)" "cpu_has_pending (cpu m)"
  shows "fst (rte (deliver_trap m v (pc m))) = pc m + 4 \<and>
    \<not> cpu_has_pending (cpu (snd (rte (deliver_trap m v (pc m))))) \<and>
    fst (rte (deliver_fault m v (pc m) va c wr wd)) = pc m \<and>
    \<not> cpu_has_pending (cpu (snd (rte (deliver_fault m v (pc m) va c wr wd))))"
proof -
  have p4: "aligned (pc m + 4)" using assms(1) by (simp add: aligned_add)
  note w = resume_words(1)[OF assms(1)]
  from rte_snip[of "deliver_trap m v (pc m)" "pc m + 4"] p4 w
  have "rte (deliver_trap m v (pc m)) = (pc m + 4, set_cr (deliver_trap m v (pc m)) 1 (CR m 1))"
    by (simp add: deliver_trap_state)
  moreover from rte_snip[of "deliver_fault m v (pc m) va c wr wd" "pc m"] assms(1) w
  have "rte (deliver_fault m v (pc m) va c wr wd) =
      (pc m, set_cr (deliver_fault m v (pc m) va c wr wd) 1 (CR m 1))"
    by (simp add: deliver_fault_state)
  ultimately show ?thesis by (simp add: deliver_trap_state deliver_fault_state)
qed

definition slot_machine :: machine where
  "slot_machine = machine0\<lparr>cpu := cpu0\<lparr>cpu_pc := 0x1004, cpu_pending := 0x2000, cpu_has_pending := True\<rparr>\<rparr>"

theorem delay_slot_exception_drops_branch_witness:
  "fst (rte (deliver_trap slot_machine 128 0x1004)) = 0x1008"
proof -
  have "pc slot_machine = 0x1004" "cpu_has_pending (cpu slot_machine)"
    by (simp_all add: slot_machine_def machine0_def)
  with delay_slot_exception_drops_branch[of slot_machine 128] show ?thesis by (simp add: aligned_def)
qed

definition comparison :: "nat \<Rightarrow> u32 \<Rightarrow> u32 \<Rightarrow> bool" where
  "comparison k a b =
     [a = b, a \<noteq> b, sint a > sint b, sint a \<le> sint b, sint a < sint b, sint a \<ge> sint b,
      unat a > unat b, unat a \<le> unat b, unat a < unat b, unat a \<ge> unat b] ! (k - 2)"

text \<open>\<open>cmp\<close> followed by \<open>bb1\<close> on one of its condition bits branches exactly when the comparison
  the bit is named for holds, signed or unsigned.\<close>

theorem cmp_then_branch:
  assumes "D \<noteq> 0" "2 \<le> k" "k \<le> 11" "exec_reg_alu m 0x1F D a b = Done m1 0 False False"
  shows "exec_bb m1 0x36 (of_nat k) (RD m1 D) imm =
    (if comparison k a b then Done m1 (pc m + disp16 imm) True False else Done m1 0 False False)"
proof -
  have m1: "m1 = WR m D (do_cmp a b)" using assms(4) by (simp add: exec_reg_alu_def)
  have k: "unat (of_nat k :: u32) = k" using assms(3) by (simp add: unat_of_nat_small)
  have "bit (do_cmp a b) k = comparison k a b"
  proof -
    have "k = 2 \<or> k = 3 \<or> k = 4 \<or> k = 5 \<or> k = 6 \<or> k = 7 \<or> k = 8 \<or> k = 9 \<or> k = 10 \<or> k = 11"
      using assms(2,3) by presburger
    then show ?thesis unfolding bit_do_cmp comparison_def by (elim disjE) simp_all
  qed
  with assms(1) show ?thesis by (simp add: m1 exec_bb_def Let_def k RD_WR)
qed

theorem cmp_then_branch_witness:
  "exec_bb (WR machine0 5 (do_cmp (- 1) 1)) 0x36 (of_nat 6) (RD (WR machine0 5 (do_cmp (- 1) 1)) 5) 4 =
     Done (WR machine0 5 (do_cmp (- 1) 1)) 0x10 True False"
proof -
  have "exec_reg_alu machine0 0x1F 5 (- 1) 1 = Done (WR machine0 5 (do_cmp (- 1) 1)) 0 False False"
    by (simp add: exec_reg_alu_def)
  moreover have "pc machine0 + disp16 4 = 0x10" by (simp add: machine0_def cpu0_def disp16_def)
  moreover have "comparison 6 (- 1) 1" by (simp add: comparison_def)
  ultimately show ?thesis using cmp_then_branch[of 5 6 machine0 "- 1" 1] by simp
qed

lemma sdiv_bounds:
  fixes x y :: int
  assumes x: "- 2147483648 \<le> x" "x \<le> 2147483647" and "\<not> (x = - 2147483648 \<and> y = - 1)"
  shows "- 2147483648 \<le> x sdiv y \<and> x sdiv y \<le> 2147483647"
proof -
  have a: "\<bar>x sdiv y\<bar> = \<bar>x\<bar> div \<bar>y\<bar>"
    by (cases "x = 0"; cases "y = 0")
      (simp_all add: signed_divide_int_def abs_mult abs_sgn_eq pos_imp_zdiv_nonneg_iff)
  consider "y = 0" | "y = 1" | "y = - 1" | "2 \<le> \<bar>y\<bar>" by linarith
  then show ?thesis
  proof cases
    case 4
    have "\<bar>x\<bar> div \<bar>y\<bar> \<le> \<bar>x\<bar> div 2" using 4 by (intro zdiv_mono2) simp_all
    also have "\<dots> \<le> 1073741824" using x by linarith
    finally show ?thesis using a by linarith
  qed (use assms in \<open>simp_all add: signed_divide_int_def mult_sgn_abs\<close>)
qed

text \<open>Signed division traps on a zero divisor, has no result only for the least integer by -1,
  and otherwise writes the quotient truncated towards zero, which always fits the register.\<close>

theorem signed_division:
  "exec_div m D a b =
     (if b = 0 then DivZero m
      else if a = 0x80000000 \<and> b = 0xFFFFFFFF then NoResult
      else Done (WR m D (word_of_int (sint a sdiv sint b))) 0 False False) \<and>
   (a = 0x80000000 \<and> b = 0xFFFFFFFF \<or>
      sint (word_of_int (sint a sdiv sint b) :: u32) = sint a sdiv sint b)"
proof -
  have m: "sint a = - 2147483648 \<longleftrightarrow> a = 0x80000000"
  proof -
    have "sint (0x80000000 :: u32) = - 2147483648" by simp
    then show ?thesis by (metis signed_word_eqI)
  qed
  have n: "sint b = - 1 \<longleftrightarrow> b = 0xFFFFFFFF"
  proof -
    have "sint (0xFFFFFFFF :: u32) = - 1" by simp
    then show ?thesis by (metis signed_word_eqI)
  qed
  have "exec_div m D a b =
     (if b = 0 then DivZero m
      else if a = 0x80000000 \<and> b = 0xFFFFFFFF then NoResult
      else Done (WR m D (word_of_int (sint a sdiv sint b))) 0 False False)"
    unfolding exec_div_def sdiv32_def m n by simp
  moreover have "sint (word_of_int q :: u32) = q" if "- 2147483648 \<le> q" "q \<le> 2147483647" for q
    using that by (simp add: signed_of_int signed_take_bit_int_eq_self)
  ultimately show ?thesis
    using sdiv_bounds[of "sint a" "sint b"] sint_bounds[of a] unfolding m n by auto
qed

end
