(* ===== verification/Step.thy ===== *)
theory Step
  imports Exec
begin

text \<open>
  \<open>step\<close> of \<^verbatim>\<open>cpu.c\<close> whole: the places where the emulator stands in for hardware it does not have,
  in the order the code tests them, then the two interrupt sources, the snoops of kernel
  functions, and the instruction itself.

  Each intercept is a function of the machine that either lets the step go on (\<open>Pass\<close>) or ends it
  (\<open>Return\<close>).  Block I/O works on the host image as a byte list; bytes of the transfer buffer that
  the code leaves uninitialised (a byte count that is not a multiple of four) read as zero.
\<close>

datatype hook = Pass machine | Return machine

fun run_hooks :: "(machine \<Rightarrow> hook) list \<Rightarrow> machine \<Rightarrow> hook" where
  "run_hooks [] m = Pass m"
| "run_hooks (h # hs) m = (case h m of Return m \<Rightarrow> Return m | Pass m \<Rightarrow> run_hooks hs m)"

abbreviation (input) TSLEEP_ENTRY :: u32 where "TSLEEP_ENTRY \<equiv> 0xC0054A64"
abbreviation (input) SHA_O_LO :: u32 where "SHA_O_LO \<equiv> 0xC00BC000"
abbreviation (input) SHA_O_HI :: u32 where "SHA_O_HI \<equiv> 0xC00BE100"
abbreviation (input) SDSTRATEGY :: u32 where "SDSTRATEGY \<equiv> 0xC00BAFE4"
abbreviation (input) BIODONE :: u32 where "BIODONE \<equiv> 0xC0074138"
abbreviation (input) GETBLK_WAIT :: u32 where "GETBLK_WAIT \<equiv> 0xC007350C"
abbreviation (input) IRQ_MASK_REG :: u32 where "IRQ_MASK_REG \<equiv> 0xE0780014"
abbreviation (input) SPL_LEVEL :: u32 where "SPL_LEVEL \<equiv> 0xC0014064"
abbreviation (input) SOFTINT_PENDING :: u32 where "SOFTINT_PENDING \<equiv> 0xC00140CC"
abbreviation (input) IRQ_HARDCLOCK :: u32 where "IRQ_HARDCLOCK \<equiv> 0x40"
abbreviation (input) IRQ_SOFTINT :: u32 where "IRQ_SOFTINT \<equiv> 0x20"
abbreviation (input) PMAP_MAP_FN :: u32 where "PMAP_MAP_FN \<equiv> 0xC00A6B44"

section \<open>Completions\<close>

text \<open>Release the lock a sleep was passed in \<open>r4\<close>, when it is a kernel address.\<close>

definition unlock_r4 :: "machine \<Rightarrow> machine" where
  "unlock_r4 m =
     (if RD m 4 \<ge> 0xC0000000 \<and> RD m 4 < 0xE0000000 then vw32 m (RD m 4) 0 else m)"

text \<open>Return to the caller with 0 in \<open>r2\<close>.\<close>

definition return_zero :: "machine \<Rightarrow> machine" where
  "return_zero m = (let m = set_pc m (RD m 1) in WR m 2 0)"

definition hook_replay :: "machine \<Rightarrow> hook" where
  "hook_replay m =
     (if procexp (cfg m) \<and> sysmode m \<and> pc m = 0xC00AAA44 then Return (return_zero m) else Pass m)"

definition hook_sha_wait :: "machine \<Rightarrow> hook" where
  "hook_sha_wait m =
     (if sha_sync (cfg m) \<and> sysmode m \<and> pc m = TSLEEP_ENTRY \<and> RD m 1 \<ge> SHA_O_LO \<and> RD m 1 < SHA_O_HI
      then Return (return_zero (unlock_r4 (sha_complete m))) else Pass m)"

definition hook_sdcommand :: "machine \<Rightarrow> hook" where
  "hook_sdcommand m =
     (if sha_sync (cfg m) \<and> sysmode m \<and> pc m = 0xC0055CC0 \<and> RD m 1 = 0xC00BE6F0
      then Return (set_pc (sha_sdcomplete m (RD m 27)) 0xC00BE6F0) else Pass m)"

definition hook_poll :: "machine \<Rightarrow> hook" where
  "hook_poll m =
     (if sha_sync (cfg m) \<and> sysmode m \<and> pc m = 0xC00BC148 then
        (let (pa, m) = translate m (RD m 27 + 0x68) False in
         if rd32 m pa AND 1 = 0
         then (let m = sha_sdcomplete m (RD m 27) in Pass (wr32 m pa (rd32 m pa OR 1)))
         else Pass m)
      else Pass m)"

definition hook_shootdown :: "machine \<Rightarrow> hook" where
  "hook_shootdown m =
     (if sysmode m \<and> pc m = 0xC00A79E4 then
        (let (pa, m) = translate m (RD m 8) False
         in Pass (if rd32 m pa < RD m 27 then wr32 m pa (RD m 27) else m))
      else Pass m)"

definition hook_copy_out :: "machine \<Rightarrow> hook" where
  "hook_copy_out m =
     (if sha_sync (cfg m) \<and> sysmode m \<and> pc m = TSLEEP_ENTRY \<and> RD m 1 = 0xC00BE520 then
        (let m = sha_sdcomplete m (RD m 27);
             (pa, m) = translate m (RD m 27 + 0x24) False
         in Return (return_zero (unlock_r4 (wr16 m pa 0))))
      else Pass m)"

definition hook_slave_map :: "machine \<Rightarrow> hook" where
  "hook_slave_map m =
     (if sysmode m \<and> pc m = 0xC00ADCE0 then
        (let (pa, m) = translate m (RD m 24) False
         in Pass (if rd32 m pa AND 0x1FF = 0x1FF then wr32 m pa 0 else m))
      else Pass m)"

definition hook_slot_wait :: "machine \<Rightarrow> hook" where
  "hook_slot_wait m =
     (if sha_sync (cfg m) \<and> sysmode m \<and> pc m = 0xC00BD498 then
        (let (pa, m) = translate m (RD m 1) False; v = rd16 m pa
         in Pass (if v AND 1 \<noteq> 0 then wr16 m pa (v AND NOT 1) else m))
      else Pass m)"

section \<open>Block I/O\<close>

fun words_of :: "u8 list \<Rightarrow> u32 list" where
  "words_of [] = []"
| "words_of [a] = [be32 a 0 0 0]"
| "words_of [a, b] = [be32 a b 0 0]"
| "words_of [a, b, c] = [be32 a b c 0]"
| "words_of (a # b # c # d # l) = be32 a b c d # words_of l"

definition word_bytes :: "u32 \<Rightarrow> u8 list" where
  "word_bytes w = [byte_of 0 w, byte_of 1 w, byte_of 2 w, byte_of 3 w]"

fun store_words :: "machine \<Rightarrow> u32 \<Rightarrow> u32 list \<Rightarrow> machine" where
  "store_words m a [] = m"
| "store_words m a (w # ws) = store_words (vw32 m a w) (a + 4) ws"

fun load_words :: "machine \<Rightarrow> u32 \<Rightarrow> nat \<Rightarrow> u32 list \<times> machine" where
  "load_words m a 0 = ([], m)"
| "load_words m a (Suc n) =
     (let (w, m) = vr32 m a; (ws, m) = load_words m (a + 4) n in (w # ws, m))"

text \<open>One buffer's transfer: the root device's image is only read, the other disk's also written.\<close>

definition block_transfer :: "machine \<Rightarrow> bool \<Rightarrow> u32 \<Rightarrow> u32 \<Rightarrow> u32 \<Rightarrow> u32 \<Rightarrow> machine" where
  "block_transfer m is_root flags bcount addr blkno =
     (case (if is_root then root_img (dev m) else disk_img (dev m)) of
        None \<Rightarrow> m
      | Some f \<Rightarrow>
          if addr \<ge> 0xC0000000 \<and> bcount \<noteq> 0 \<and> bcount \<le> 0x10000 then
            (let pos = unat blkno * 512; n = unat bcount in
             if flags AND 1 \<noteq> 0 then store_words m addr (words_of (file_read0 f pos n))
             else if \<not> is_root then
               (let (ws, m) = load_words m addr ((n + 3) div 4)
                in upd_dev (\<lambda>d. d\<lparr>disk_img := Some (file_write f pos (take n (concat (map word_bytes ws)))),
                                  disk_wrote := True\<rparr>) m)
             else m)
          else m)"

definition buffer_io :: "machine \<Rightarrow> u32 \<Rightarrow> machine" where
  "buffer_io m buf =
     (let (flags, m) = vr32 m buf; (bcount, m) = vr32 m (buf + 0x14);
          (addr, m) = vr32 m (buf + 0x3c); (blkno, m) = vr32 m (buf + 0x40);
          (vp, m) = vr32 m (buf + 0x50);
          m = (if root_dev_vp (dev m) = 0 then upd_dev (\<lambda>d. d\<lparr>root_dev_vp := vp\<rparr>) m else m)
      in block_transfer m (vp = root_dev_vp (dev m)) flags bcount addr blkno)"

definition hook_strategy :: "machine \<Rightarrow> hook" where
  "hook_strategy m =
     (let buf = RD m 2 in
      if biowait_sync (cfg m) \<and> sysmode m \<and>
         (pc m = SDSTRATEGY \<or> (pc m = TSLEEP_ENTRY \<and> RD m 1 = GETBLK_WAIT)) \<and> buf \<ge> 0xC0000000
      then
        (let strategy = (pc m = SDSTRATEGY);
             m = buffer_io m buf;
             m = (if strategy then m else WR (unlock_r4 m) 1 GETBLK_WAIT)
         in Return (set_pc m BIODONE))
      else Pass m)"

definition hook_biowait :: "machine \<Rightarrow> hook" where
  "hook_biowait m =
     (if biowait_sync (cfg m) \<and> sysmode m \<and> pc m = TSLEEP_ENTRY \<and> RD m 1 = 0xC00740E8 then
        (let buf = RD m 2;
             m = (if buf \<ge> 0xC0000000
                  then (let m = buffer_io m buf; (pa, m) = translate m buf False
                        in wr32 m pa (rd32 m pa OR 2))
                  else m)
         in Return (return_zero (unlock_r4 m)))
      else Pass m)"

definition hook_synchrtc :: "machine \<Rightarrow> hook" where
  "hook_synchrtc m =
     (if skip_synchrtc (cfg m) \<and> sysmode m \<and> pc m = 0xC009BA14 then Return (return_zero m) else Pass m)"

section \<open>Interrupts\<close>

text \<open>What both sources need: the clock wanted, not in a delay slot, interrupts enabled, a vector
  table, no fault pending, no call of the emulator's own in progress.\<close>

definition interruptible :: "machine \<Rightarrow> bool" where
  "interruptible m \<longleftrightarrow> clock_irq (dev m) \<and> sysmode m \<and> \<not> cpu_has_pending (cpu m) \<and>
     CR m 1 AND 2 = 0 \<and> CR m 7 \<ge> 0xC0000000 \<and> \<not> fault_pending m \<and> \<not> in_kcall m"

definition softint_open :: "u32 \<Rightarrow> u32" where
  "softint_open spl = (if spl \<ge> 31 then 0 else NOT (push_bit (unat spl) 2 - 1))"

definition hook_softint :: "machine \<Rightarrow> hook" where
  "hook_softint m =
     (if interruptible m \<and> rd32 m IRQ_MASK_REG AND IRQ_SOFTINT \<noteq> 0 then
        (let (spl, m) = vr32 m SPL_LEVEL; (pend, m) = vr32 m SOFTINT_PENDING in
         if pend AND softint_open spl \<noteq> 0 \<and> spl \<noteq> 0x1f \<and> cpu_count (cpu m) \<ge> next_softint (dev m)
         then
           (let m = upd_dev (\<lambda>d. d\<lparr>next_softint := cpu_count (cpu m) + softint_period d,
                                   softint_ticks := softint_ticks d + 1,
                                   irq_source := IRQ_SOFTINT\<rparr>) m
            in Return (deliver_exception m 1))
         else Pass m)
      else Pass m)"

definition hardclock_due :: "machine \<Rightarrow> bool" where
  "hardclock_due m \<longleftrightarrow>
     (if tick_div (dev m) \<noteq> 0
      then clock_armed (dev m) \<and> sint (timer_now m - clock_deadline (dev m)) \<ge> 0
      else cpu_count (cpu m) \<ge> next_clock (dev m))"

definition hook_hardclock :: "machine \<Rightarrow> hook" where
  "hook_hardclock m =
     (if interruptible m \<and> hardclock_due m \<and> rd32 m IRQ_MASK_REG AND IRQ_HARDCLOCK \<noteq> 0 then
        (let m = upd_dev (\<lambda>d. d\<lparr>next_clock := cpu_count (cpu m) + clock_period d, clock_armed := False,
                                clock_ticks := clock_ticks d + 1, irq_source := IRQ_HARDCLOCK\<rparr>) m;
             (pend, m) = vr32 m SOFTINT_PENDING;
             m = (if pend \<noteq> 0 then upd_dev (\<lambda>d. d\<lparr>irq_source := irq_source d OR IRQ_SOFTINT\<rparr>) m else m)
         in Return (deliver_exception m 1))
      else Pass m)"

section \<open>Snoops\<close>

definition hook_force_sig :: "machine \<Rightarrow> hook" where
  "hook_force_sig m =
     (if sysmode m \<and> force_sig_pc (cfg m) \<noteq> 0 \<and> pc m = force_sig_pc (cfg m)
      then Pass (WR m 2 (force_sig_val (cfg m))) else Pass m)"

definition hook_devmap :: "machine \<Rightarrow> hook" where
  "hook_devmap m =
     (if realmm (mem m) \<and> pc m = PMAP_MAP_FN \<and> RD m 4 \<ge> 0xE0000000
      then Pass (devmap_add m (RD m 3) (RD m 4)) else Pass m)"

definition hook_mailbox :: "machine \<Rightarrow> hook" where
  "hook_mailbox m =
     (if realmm (mem m) \<and> pc m = 0xC00A0E80 then
        (let (pa, m) = translate m (RD m 7) False in Pass (upd_dev (\<lambda>d. d\<lparr>tcs_mbox_pa := pa\<rparr>) m))
      else Pass m)"

section \<open>The step\<close>

definition hooks :: "(machine \<Rightarrow> hook) list" where
  "hooks =
     [hook_replay, hook_sha_wait, hook_sdcommand, hook_poll, hook_shootdown, hook_copy_out,
      hook_slave_map, hook_slot_wait, hook_strategy, hook_biowait, hook_synchrtc,
      hook_softint, hook_hardclock, hook_force_sig, hook_devmap, hook_mailbox]"

definition step :: "machine \<Rightarrow> step_result" where
  "step m = (case run_hooks hooks m of Return m \<Rightarrow> Running m | Pass m \<Rightarrow> fetch_and_run m)"

section \<open>What no step changes\<close>

text \<open>\<open>fixed\<close>: the configuration, the mode, the memory model and the boot medium.\<close>

definition fixed :: "machine \<Rightarrow> config \<times> bool \<times> bool \<times> bool \<times> u8 list option" where
  "fixed m = (cfg m, sysmode m, in_kcall m, realmm (mem m), root_img (dev m))"

lemma fixed_simps [simp]:
  "fixed (WR m n v) = fixed m" "fixed (set_cr m i v) = fixed m" "fixed (set_pc m v) = fixed m"
  "fixed (set_xlat_write m b) = fixed m" "fixed (tlb_flush m) = fixed m"
  "fixed (set_ufault m f) = fixed m" "fixed (upd_stats g m) = fixed m"
  "fixed (count_insn m) = fixed m" "fixed (clear_pending m) = fixed m"
  "fixed (sequence m br t d) = fixed m" "fixed (bitfield m sub D y width offset) = fixed m"
  "fixed (m\<lparr>trap_taken := b, trap_vector := vec, trap_pc := p\<rparr>) = fixed m"
  "fixed (devmap_add m va pa) = fixed m"
  by (simp_all add: fixed_def set_cr_def set_pc_def tlb_flush_def upd_stats_def count_insn_def
      clear_pending_def sequence_def Let_def bitfield_def devmap_add_def)

lemma fixed_mem [simp]: "realmm s = realmm (mem m) \<Longrightarrow> fixed (m\<lparr>mem := s\<rparr>) = fixed m"
  by (simp add: fixed_def)

lemma fixed_upd_dev [simp]: "root_img (f (dev m)) = root_img (dev m) \<Longrightarrow> fixed (upd_dev f m) = fixed m"
  by (simp add: fixed_def)

lemma fixed_same: "same_but_mmu m m' \<Longrightarrow> fixed m' = fixed m"
  using sameD[of m m'] by (simp add: fixed_def)

lemma fixed_translate [simp]: "fixed (snd (translate m va code)) = fixed m"
  by (rule fixed_same[OF same_translate_snd])

lemma fixed_vr32 [simp]: "fixed (snd (vr32 m a)) = fixed m"
  by (simp add: vr32_def split_beta)

lemma fixed_vw32 [simp]: "fixed (vw32 m a v) = fixed m"
  by (simp add: vw32_def split_beta)

lemma fixed_cmmu_command [simp]: "fixed (cmmu_command m base cmd) = fixed m"
  by (auto simp: cmmu_command_def Let_def dest!: same_walk_fb fixed_same split: prod.split option.split)

lemma fixed_tcs_poke [simp]: "fixed (tcs_poke m a) = fixed m"
  by (simp add: tcs_poke_def Let_def)

lemma fixed_dev_write32 [simp]: "fixed (dev_write32 m a v) = fixed m"
  by (simp add: dev_write32_def Let_def split: option.split)

lemma fixed_dev_read32 [simp]: "fixed (snd (dev_read32 m a)) = fixed m"
  by (simp add: dev_read32_def)

lemma fixed_memop_access [simp]: "fixed (memop_access m sub D ea) = fixed m"
  by (simp add: memop_access_def Let_def split_beta)

lemma fixed_memop_sha: "memop_sha m sub D ea = Some m' \<Longrightarrow> fixed m' = fixed m"
  by (auto simp: memop_sha_def Let_def split: if_splits)

lemma fixed_memop_timer: "memop_timer m sub D ea = Some m' \<Longrightarrow> fixed m' = fixed m"
  by (auto simp: memop_timer_def Let_def split: if_splits)

lemma fixed_memop: "memop m sub D ea = Some m' \<Longrightarrow> fixed m' = fixed m"
proof -
  assume m: "memop m sub D ea = Some m'"
  obtain pa m1 where t: "translate (set_xlat_write m (is_store sub)) ea False = (pa, m1)" by fastforce
  have f: "fixed m1 = fixed m"
    using fixed_translate[of "set_xlat_write m (is_store sub)" ea False] t by simp
  from m show ?thesis
    unfolding memop_def Let_def t prod.case
    by (auto simp: f split: if_splits option.splits dest!: fixed_memop_sha fixed_memop_timer)
qed

lemma fixed_regs_only: "regs_only m m' \<Longrightarrow> fixed m' = fixed m"
  by (simp add: regs_only_def fixed_def)

lemma fixed_exec: "exec m w = Done m' br t d \<Longrightarrow> fixed m' = fixed m"
  using exec_cases[of m w m' br t d] fixed_memop fixed_regs_only by blast

text \<open>\<open>hook_fixed\<close>: a hook that ends or passes leaves \<open>fixed\<close> as it was.\<close>

fun hook_machine :: "hook \<Rightarrow> machine" where
  "hook_machine (Pass m) = m"
| "hook_machine (Return m) = m"

lemma fixed_unlock_r4 [simp]: "fixed (unlock_r4 m) = fixed m"
  by (simp add: unlock_r4_def)

lemma fixed_return_zero [simp]: "fixed (return_zero m) = fixed m"
  by (simp add: return_zero_def Let_def)

lemma fixed_deliver_exception [simp]: "fixed (deliver_exception m v) = fixed m"
  by (simp add: deliver_exception_def Let_def)

lemma fixed_scsi_command [simp]: "fixed (scsi_command m dma w w2 xfer) = fixed m"
  by (simp add: scsi_command_def Let_def split: option.split)

lemma fixed_sha_sdcomplete [simp]: "fixed (sha_sdcomplete m cmd) = fixed m"
  by (simp add: sha_sdcomplete_def split_beta)

lemma fixed_sha_complete [simp]: "fixed (sha_complete m) = fixed m"
  by (simp add: sha_complete_def Let_def split_beta)

lemma fixed_store_words [simp]: "fixed (store_words m a ws) = fixed m"
  by (induction m a ws rule: store_words.induct) simp_all

lemma fixed_load_words [simp]: "fixed (snd (load_words m a n)) = fixed m"
  by (induction n arbitrary: m a) (simp_all add: split_beta Let_def)

lemma fixed_block_transfer [simp]: "fixed (block_transfer m r flags bcount addr blkno) = fixed m"
  by (simp add: block_transfer_def Let_def split_beta split: option.split)

lemma fixed_buffer_io [simp]: "fixed (buffer_io m buf) = fixed m"
  by (simp add: buffer_io_def Let_def split_beta)

lemma realmm_hooks [simp]:
  "realmm (mem (snd (vr32 m a))) = realmm (mem m)" "mem (snd (vr32 m a)) = mem m"
  by (simp_all add: vr32_def split_beta)

lemma fixed_hooks: "h \<in> set hooks \<Longrightarrow> fixed (hook_machine (h m)) = fixed m"
proof -
  have "fixed (hook_machine (hook_poll m)) = fixed m"
    by (simp add: hook_poll_def Let_def split_beta)
  moreover have "fixed (hook_machine (hook_shootdown m)) = fixed m"
    by (simp add: hook_shootdown_def split_beta)
  moreover have "fixed (hook_machine (hook_copy_out m)) = fixed m"
    by (simp add: hook_copy_out_def Let_def split_beta)
  moreover have "fixed (hook_machine (hook_slave_map m)) = fixed m"
    by (simp add: hook_slave_map_def split_beta)
  moreover have "fixed (hook_machine (hook_slot_wait m)) = fixed m"
    by (simp add: hook_slot_wait_def Let_def split_beta)
  moreover have "fixed (hook_machine (hook_strategy m)) = fixed m"
    by (simp add: hook_strategy_def Let_def)
  moreover have "fixed (hook_machine (hook_biowait m)) = fixed m"
    by (simp add: hook_biowait_def Let_def split_beta)
  moreover have "fixed (hook_machine (hook_softint m)) = fixed m"
    by (simp add: hook_softint_def Let_def split_beta)
  moreover have "fixed (hook_machine (hook_hardclock m)) = fixed m"
    by (simp add: hook_hardclock_def Let_def split_beta)
  moreover have "fixed (hook_machine (hook_mailbox m)) = fixed m"
    by (simp add: hook_mailbox_def split_beta)
  moreover have "fixed (hook_machine (hook_replay m)) = fixed m"
    "fixed (hook_machine (hook_sha_wait m)) = fixed m"
    "fixed (hook_machine (hook_sdcommand m)) = fixed m"
    "fixed (hook_machine (hook_synchrtc m)) = fixed m"
    "fixed (hook_machine (hook_force_sig m)) = fixed m"
    "fixed (hook_machine (hook_devmap m)) = fixed m"
    by (simp_all add: hook_replay_def hook_sha_wait_def hook_sdcommand_def hook_synchrtc_def
        hook_force_sig_def hook_devmap_def)
  ultimately show "h \<in> set hooks \<Longrightarrow> fixed (hook_machine (h m)) = fixed m"
    by (auto simp: hooks_def)
qed

lemma fixed_run_hooks:
  "(\<And>h m. h \<in> set hs \<Longrightarrow> fixed (hook_machine (h m)) = fixed m) \<Longrightarrow>
   fixed (hook_machine (run_hooks hs m)) = fixed m"
proof (induction hs arbitrary: m)
  case (Cons h hs)
  have "fixed (hook_machine (h m)) = fixed m" using Cons.prems by simp
  moreover have "fixed (hook_machine (run_hooks hs n)) = fixed n" for n
    using Cons by simp
  ultimately show ?case by (cases "h m") simp_all
qed simp

fun step_machine :: "step_result \<Rightarrow> machine option" where
  "step_machine (Running m) = Some m"
| "step_machine (Trapped m) = Some m"
| "step_machine NoStep = None"

lemma fixed_run_insn:
  assumes "step_machine (run_insn m w) = Some m'"
  shows "fixed m' = fixed m"
proof -
  have e: "fixed n = fixed m" if "exec (count_insn m) w = Done n br t d" for n br t d
    using fixed_exec[OF that] by simp
  have tr: "n = count_insn m" if "trap_of (exec (count_insn m) w) = Some n" for n
    using exec_trap[OF that] .
  show ?thesis
    using assms e tr
    by (auto simp: run_insn_def take_trap_def split: insn_result.splits if_splits)
qed

lemma fixed_fetch_and_run:
  assumes "step_machine (fetch_and_run m) = Some m'"
  shows "fixed m' = fixed m"
proof -
  obtain pa m1 where t: "translate m (pc m) True = (pa, m1)" by fastforce
  have f: "fixed m1 = fixed m" using fixed_translate[of m "pc m" True] t by simp
  from assms f fixed_run_insn[of m1 _ m'] show ?thesis
    by (auto simp: fetch_and_run_def t Let_def split: if_splits)
qed

lemma fixed_step: "step_machine (step m) = Some m' \<Longrightarrow> fixed m' = fixed m"
proof -
  assume s: "step_machine (step m) = Some m'"
  have h: "fixed (hook_machine (run_hooks hooks m)) = fixed m"
    by (rule fixed_run_hooks) (rule fixed_hooks)
  show ?thesis
  proof (cases "run_hooks hooks m")
    case (Pass n)
    with s fixed_fetch_and_run[of n m'] h show ?thesis by (simp add: step_def)
  next
    case (Return n)
    with s h show ?thesis by (simp add: step_def)
  qed
qed

section \<open>Running\<close>

text \<open>The transitions of the machine, one \<open>step\<close> each that returned 0.\<close>

inductive reaches :: "machine \<Rightarrow> machine \<Rightarrow> bool" where
  here: "reaches m m"
| more: "reaches m n \<Longrightarrow> step n = Running k \<Longrightarrow> reaches m k"

inductive_cases reachesE: "reaches m k"

lemma fixed_reaches: "reaches m k \<Longrightarrow> fixed k = fixed m"
proof (induction rule: reaches.induct)
  case (more m n k)
  then show ?case using fixed_step[of n k] by simp
qed simp

section \<open>Properties\<close>

text \<open>The boot medium is read-only: whatever the guest runs for however long, the root image, the
  configuration, the mode and the memory model stay as they were.\<close>

theorem root_image_readonly:
  assumes "reaches m k"
  shows "root_img (dev k) = root_img (dev m) \<and> cfg k = cfg m \<and> sysmode k = sysmode m \<and>
    realmm (mem k) = realmm (mem m)"
  using fixed_reaches[OF assms] by (simp add: fixed_def)

theorem root_image_readonly_witness:
  "\<exists>k. step (machine0\<lparr>dev := dev0\<lparr>root_img := Some [7]\<rparr>\<rparr>) = Running k \<and> root_img (dev k) = Some [7]"
proof -
  let ?m = "machine0\<lparr>dev := dev0\<lparr>root_img := Some [7]\<rparr>\<rparr>"
  have "case step ?m of Running k \<Rightarrow> True | _ \<Rightarrow> False" by code_simp
  then obtain k where k: "step ?m = Running k" by (auto split: step_result.splits)
  then have "reaches ?m k" by (blast intro: reaches.intros)
  with root_image_readonly[OF this] k show ?thesis by auto
qed

text \<open>In user mode there are no intercepts: a step is the fetch and the instruction.\<close>

theorem user_step_pure:
  assumes "\<not> sysmode m" "\<not> realmm (mem m)"
  shows "step m = fetch_and_run m"
  using assms
  by (simp add: step_def hooks_def hook_replay_def hook_sha_wait_def hook_sdcommand_def hook_poll_def
      hook_shootdown_def hook_copy_out_def hook_slave_map_def hook_slot_wait_def hook_strategy_def
      hook_biowait_def hook_synchrtc_def hook_softint_def hook_hardclock_def interruptible_def
      hook_force_sig_def hook_devmap_def hook_mailbox_def)

theorem user_step_pure_witness: "step machine0 = fetch_and_run machine0"
  by (rule user_step_pure) (simp_all add: machine0_def mem0_def)

lemma psr_masked: "(x OR 0x80000003) AND 2 \<noteq> (0 :: u32)"
proof -
  have "bit ((x OR 0x80000003) AND 2) 1" by (simp add: bit_and_iff bit_or_iff)
  then show ?thesis by (metis bit_0_eq bot_apply bot_bool_def)
qed

lemma deliver_exception_dev [simp]:
  "dev (deliver_exception m v) = dev m" "cpu_has_pending (cpu (deliver_exception m v)) = cpu_has_pending (cpu m)"
  by (simp_all add: deliver_exception_def Let_def)

lemma vr32_frame [simp]: "dev (snd (vr32 m a)) = dev m" "cpu (snd (vr32 m a)) = cpu m"
  by (simp_all add: vr32_def split_beta)


text \<open>A machine whose deadline has passed.\<close>

definition tick_machine :: machine where
  "tick_machine = machine0\<lparr>sysmode := True,
     mem := mem_w32 mem0 0xE0780014 0xff,
     dev := dev0\<lparr>clock_irq := True, tick_div := 1\<rparr>,
     cpu := cpu0\<lparr>cpu_cr := (\<lambda>i. if i = 7 then 0xC0010000 else 0), cpu_pc := 0x1000\<rparr>\<rparr>"


text \<open>A software interrupt is re-asserted only for a request above the priority level it would
  interrupt: the open mask of level \<open>spl\<close> is exactly the bits above \<open>spl\<close>.\<close>

theorem softint_mask:
  "bit (softint_open spl) n \<longleftrightarrow> unat spl < n \<and> n < 32"
proof (cases "spl \<ge> 31")
  case True
  then show ?thesis by (auto simp: softint_open_def word_le_nat_alt)
next
  case False
  then have s: "unat spl < 31" by (simp add: word_le_nat_alt)
  have "push_bit (unat spl) 2 - (1 :: u32) = mask (Suc (unat spl))"
    by (simp add: mask_eq_exp_minus_1 push_bit_eq_mult mult.commute)
  with False s show ?thesis
    by (auto simp: softint_open_def bit_not_iff bit_mask_iff)
qed

end
