(* ===== verification/Kcall.thy ===== *)
theory Kcall
  imports Step
begin

text \<open>
  Calls into the kernel (\<^verbatim>\<open>cpu.c\<close>, \<open>kcall\<close> and the helpers over it): the emulator sets up a call,
  steps the machine until the callee comes back to a sentinel, and puts its own processor state
  back; what the callee did to memory stays.

  \<open>kcall_loop\<close> is bounded by the code's own count of 30 million steps.  The lemmas say what a
  call returns, on every one of its three ends, that it is invisible to the interrupted program
  but for its effects on memory and devices, and that no interrupt is taken inside it.
\<close>

section \<open>Operations\<close>

abbreviation (input) KCALL_RET :: u32 where "KCALL_RET \<equiv> 0x00DEAD00"
abbreviation (input) KCALL_MAX :: u64 where "KCALL_MAX \<equiv> 30000000"
abbreviation (input) G_CURPROC :: u32 where "G_CURPROC \<equiv> 0xFBFFE0F0"
abbreviation (input) G_CURPROC_G :: u32 where "G_CURPROC_G \<equiv> 0xC0014044"

function kcall_loop :: "u64 \<Rightarrow> machine \<Rightarrow> machine option" where
  "kcall_loop guard m =
     (if pc m \<noteq> KCALL_RET \<and> guard < KCALL_MAX then
        (case step m of
           Running m \<Rightarrow> kcall_loop (guard + 1) m
         | Trapped m \<Rightarrow> Some m
         | NoStep \<Rightarrow> None)
      else Some m)"
  by pat_completeness auto
termination
  by (relation "measure (\<lambda>(guard, m). 30000000 - unat guard)") (auto simp: unat_word_ariths word_less_nat_alt)

declare kcall_loop.simps [simp del]

definition kcall_enter :: "machine \<Rightarrow> u32 \<Rightarrow> u32 \<Rightarrow> u32 \<Rightarrow> u32 \<Rightarrow> u32 \<Rightarrow> u32 \<Rightarrow> machine" where
  "kcall_enter m fn a2 a3 a4 a5 a6 =
     (let m = WR (m\<lparr>in_kcall := True\<rparr>) 1 KCALL_RET;
          m = WR (WR (WR (WR (WR m 2 a2) 3 a3) 4 a4) 5 a5) 6 a6
      in clear_pending (set_pc m fn))"

definition kcall_leave :: "machine \<Rightarrow> machine \<Rightarrow> machine" where
  "kcall_leave m k = k\<lparr>in_kcall := in_kcall m, cpu := cpu m\<rparr>"

definition kcall :: "machine \<Rightarrow> u32 \<Rightarrow> u32 \<Rightarrow> u32 \<Rightarrow> u32 \<Rightarrow> u32 \<Rightarrow> u32 \<Rightarrow> (u32 \<times> machine) option" where
  "kcall m fn a2 a3 a4 a5 a6 =
     (case kcall_loop 0 (kcall_enter m fn a2 a3 a4 a5 a6) of
        None \<Rightarrow> None
      | Some k \<Rightarrow> Some (if pc k = KCALL_RET then RD k 2 else 0xFFFFFFFF, kcall_leave m k))"

text \<open>The run queue.\<close>

definition runq_remove :: "machine \<Rightarrow> u32 \<Rightarrow> machine option" where
  "runq_remove m p =
     (if p = 0 then Some m
      else
        (let (q, m) = vr32 m (p + 0x80) in
         if q = 0 then Some m
         else
           (case kcall m 0xC0018514 p 0 0 0 0 of
              None \<Rightarrow> None
            | Some (_, m) \<Rightarrow> Some (vw32 (vw32 m p 0) (p + 4) 0))))"

definition runq_add :: "machine \<Rightarrow> u32 \<Rightarrow> machine option" where
  "runq_add m p =
     (if p = 0 then Some m
      else
        (let (q, m) = vr32 m (p + 0x80) in
         if q \<noteq> 0 then Some m
         else
           (let (st, m) = vr32 m (p + 0x40) in
            if st \<noteq> 3 then Some m
            else map_option snd (kcall m 0xC00559C8 p 0 0 0 0))))"

text \<open>Who is running.\<close>

definition real_pid :: "machine \<Rightarrow> int \<times> machine" where
  "real_pid m =
     (if procexp (cfg m) then
        (let (cp, m) = vr32 m G_CURPROC_G in
         if cp \<noteq> 0 then (let (w, m) = vr32 m (cp + 0x4C) in (uint (drop_bit 16 w), m)) else (0, m))
      else (0, m))"

definition real_ppid :: "machine \<Rightarrow> int \<times> machine" where
  "real_ppid m =
     (if \<not> procexp (cfg m) then (0, m)
      else
        (let (cp, m) = vr32 m G_CURPROC_G in
         if cp = 0 then (0, m)
         else
           (let (pp, m) = vr32 m (cp + 0x18) in
            if pp \<noteq> 0 then (let (w, m) = vr32 m (pp + 0x4C) in (uint (drop_bit 16 w), m)) else (0, m))))"

definition set_curproc :: "machine \<Rightarrow> u32 \<Rightarrow> u32 \<Rightarrow> machine" where
  "set_curproc m p ctx =
     (let m = vw32 m G_CURPROC_G p;
          (upage, m) = (if kdata_off (mmu m) \<noteq> 0 then vr32 m (ctx + 0x98) else (0, m))
      in if upage \<noteq> 0 then wr32 m (upage + (G_CURPROC AND 0xFFF)) p else vw32 m G_CURPROC p)"

text \<open>An address of a process, through its own tables: as the hardware walks them, or else where the
  kernel built them.\<close>

definition kwalk :: "machine \<Rightarrow> u32 \<Rightarrow> u32 \<Rightarrow> u32 option \<times> machine" where
  "kwalk m pmap va =
     (let (stva, m) = vr32 m pmap; (stpa, m) = vr32 m (pmap + 4) in
      case mmu_walk m (stpa OR 1) va of
        (Some (pa, _), m) \<Rightarrow> (Some pa, m)
      | (None, m) \<Rightarrow>
          (let bias = stva - stpa;
               (sd, m) = vr32 m (stva + seg_index va * 4)
           in if sd AND 1 = 0 then (None, m)
              else
                (let ptva = (sd AND 0x3FFFF000) + bias;
                     (pd, m) = vr32 m (ptva + page_index va * 4)
                 in (if pd AND 1 = 0 then None else Some ((pd AND 0xFFFFF000) OR (va AND 0xFFF)), m))))"

definition uput8 :: "u32 \<Rightarrow> machine \<Rightarrow> u32 \<Rightarrow> u8 \<Rightarrow> machine" where
  "uput8 pmap m va v = (case kwalk m pmap va of (Some pa, m) \<Rightarrow> wr8 m pa v | (None, m) \<Rightarrow> m)"

fun uput_bytes :: "u32 \<Rightarrow> machine \<Rightarrow> u32 \<Rightarrow> u8 list \<Rightarrow> machine" where
  "uput_bytes pmap m va [] = m"
| "uput_bytes pmap m va (b # bs) = uput_bytes pmap (uput8 pmap m va b) (va + 1) bs"

definition uput32 :: "u32 \<Rightarrow> machine \<Rightarrow> u32 \<Rightarrow> u32 \<Rightarrow> machine" where
  "uput32 pmap m va v = uput_bytes pmap m va (word_bytes v)"

section \<open>The steps of a callee\<close>

text \<open>\<open>callee n m k\<close>: \<open>n\<close> steps lead from \<open>m\<close> to \<open>k\<close>, none of them from the sentinel.\<close>

inductive callee :: "nat \<Rightarrow> machine \<Rightarrow> machine \<Rightarrow> bool" where
  enter: "callee 0 m m"
| next_step: "pc m \<noteq> KCALL_RET \<Longrightarrow> step m = Running n \<Longrightarrow> callee i n k \<Longrightarrow> callee (Suc i) m k"

inductive_simps callee_0 [simp]: "callee 0 m k"
inductive_simps callee_Suc: "callee (Suc i) m k"

lemma callee_fixed: "callee n m k \<Longrightarrow> fixed k = fixed m"
proof (induction rule: callee.induct)
  case (next_step m n i k)
  then show ?case using fixed_step[of m n] by simp
qed simp

text \<open>How a call may end: at the sentinel, out of steps, or at a trap.\<close>

datatype kcall_end = Returned machine | Runaway machine | Call_trap machine

definition call_ends :: "nat \<Rightarrow> machine \<Rightarrow> kcall_end \<Rightarrow> bool" where
  "call_ends room m e \<longleftrightarrow>
     (\<exists>i k. callee i m k \<and>
        (case e of
           Returned r \<Rightarrow> i \<le> room \<and> r = k \<and> pc k = KCALL_RET
         | Runaway r \<Rightarrow> i = room \<and> r = k \<and> pc k \<noteq> KCALL_RET
         | Call_trap t \<Rightarrow> i < room \<and> pc k \<noteq> KCALL_RET \<and> step k = Trapped t))"

fun end_machine :: "kcall_end \<Rightarrow> machine" where
  "end_machine (Returned m) = m"
| "end_machine (Runaway m) = m"
| "end_machine (Call_trap m) = m"

lemma call_ends_next:
  assumes "pc m \<noteq> KCALL_RET" "step m = Running n"
  shows "call_ends (Suc r) m e \<longleftrightarrow> call_ends r n e"
proof -
  have c: "callee i m k \<longleftrightarrow> (i = 0 \<and> k = m) \<or> (\<exists>j. i = Suc j \<and> callee j n k)" for i k
    using assms by (cases i) (auto simp: callee_Suc)
  have x: "(\<exists>i k. callee i m k \<and> P i k) \<longleftrightarrow> P 0 m \<or> (\<exists>j k. callee j n k \<and> P (Suc j) k)" for P
    unfolding c by blast
  show ?thesis
    unfolding call_ends_def x using assms by (cases e) simp_all
qed

lemma call_ends_now:
  "pc m = KCALL_RET \<Longrightarrow> call_ends room m e \<longleftrightarrow> e = Returned m"
  "pc m \<noteq> KCALL_RET \<Longrightarrow> call_ends 0 m e \<longleftrightarrow> e = Runaway m"
  "pc m \<noteq> KCALL_RET \<Longrightarrow> 0 < room \<Longrightarrow> step m = Trapped t \<Longrightarrow> call_ends room m e \<longleftrightarrow> e = Call_trap t"
  "pc m \<noteq> KCALL_RET \<Longrightarrow> 0 < room \<Longrightarrow> step m = NoStep \<Longrightarrow> \<not> call_ends room m e"
proof -
  have c: "callee i m k \<longleftrightarrow> i = 0 \<and> k = m"
    if "pc m = KCALL_RET \<or> step m = Trapped t \<or> step m = NoStep" for i k
    using that by (cases i) (auto simp: callee_Suc)
  show "pc m = KCALL_RET \<Longrightarrow> call_ends room m e \<longleftrightarrow> e = Returned m"
    by (cases e) (auto simp: call_ends_def c)
  show "pc m \<noteq> KCALL_RET \<Longrightarrow> 0 < room \<Longrightarrow> step m = Trapped t \<Longrightarrow> call_ends room m e \<longleftrightarrow> e = Call_trap t"
    by (cases e) (auto simp: call_ends_def c)
  show "pc m \<noteq> KCALL_RET \<Longrightarrow> 0 < room \<Longrightarrow> step m = NoStep \<Longrightarrow> \<not> call_ends room m e"
    by (cases e) (auto simp: call_ends_def c)
  show "pc m \<noteq> KCALL_RET \<Longrightarrow> call_ends 0 m e \<longleftrightarrow> e = Runaway m"
    by (cases e) (auto simp: call_ends_def)
qed

text \<open>The loop computes that end.\<close>

lemma kcall_loop_spec:
  "kcall_loop guard m = Some k \<longleftrightarrow> (\<exists>e. call_ends (30000000 - unat guard) m e \<and> k = end_machine e)"
proof (induction guard m arbitrary: k rule: kcall_loop.induct)
  case (1 guard m)
  have u: "guard < KCALL_MAX \<longleftrightarrow> 0 < 30000000 - unat guard" by (simp add: word_less_nat_alt)
  have s: "guard < KCALL_MAX \<Longrightarrow> 30000000 - unat (guard + 1) = 30000000 - unat guard - 1"
    by (simp add: word_less_nat_alt unat_word_ariths)
  show ?case
  proof (cases "pc m \<noteq> KCALL_RET \<and> guard < KCALL_MAX")
    case False
    then show ?thesis using u
      by (cases "pc m = KCALL_RET"; subst kcall_loop.simps) (auto simp: call_ends_now)
  next
    case True
    show ?thesis
    proof (cases "step m")
      case (Running n)
      have r: "30000000 - unat guard = Suc (30000000 - unat (guard + 1))" using True s u by linarith
      show ?thesis
        unfolding r using True Running 1[OF _ Running]
        by (subst kcall_loop.simps) (simp add: call_ends_next[OF _ Running])
    next
      case (Trapped t)
      with True u show ?thesis by (subst kcall_loop.simps) (auto simp: call_ends_now)
    next
      case NoStep
      with True u show ?thesis by (subst kcall_loop.simps) (auto simp: call_ends_now)
    qed
  qed
qed

section \<open>Steps and the program counter\<close>

lemma cpu_scsi_command [simp]: "cpu (scsi_command m dma w w2 xfer) = cpu m"
  by (simp add: scsi_command_def Let_def split: option.split)

lemma cpu_sha_sdcomplete [simp]: "cpu (sha_sdcomplete m cmd) = cpu m"
  by (simp add: sha_sdcomplete_def split_beta)

lemma pass_pc:
  assumes "h \<in> set hooks" "h m = Pass n"
  shows "pc n = pc m"
proof -
  have "hook_poll m = Pass n \<Longrightarrow> pc n = pc m" "hook_shootdown m = Pass n \<Longrightarrow> pc n = pc m"
    "hook_slave_map m = Pass n \<Longrightarrow> pc n = pc m" "hook_slot_wait m = Pass n \<Longrightarrow> pc n = pc m"
    "hook_mailbox m = Pass n \<Longrightarrow> pc n = pc m" "hook_devmap m = Pass n \<Longrightarrow> pc n = pc m"
    "hook_softint m = Pass n \<Longrightarrow> pc n = pc m"
    by (auto simp: hook_poll_def hook_shootdown_def hook_slave_map_def hook_slot_wait_def hook_mailbox_def
        hook_devmap_def devmap_add_def hook_softint_def Let_def split_beta split: if_splits)
  moreover have "hook_replay m = Pass n \<Longrightarrow> n = m" "hook_sha_wait m = Pass n \<Longrightarrow> n = m"
    "hook_sdcommand m = Pass n \<Longrightarrow> n = m" "hook_copy_out m = Pass n \<Longrightarrow> n = m"
    "hook_strategy m = Pass n \<Longrightarrow> n = m" "hook_biowait m = Pass n \<Longrightarrow> n = m"
    "hook_synchrtc m = Pass n \<Longrightarrow> n = m" "hook_hardclock m = Pass n \<Longrightarrow> n = m"
    by (auto simp: hook_replay_def hook_sha_wait_def hook_sdcommand_def hook_copy_out_def hook_strategy_def
        hook_biowait_def hook_synchrtc_def hook_hardclock_def Let_def split_beta split: if_splits)
  moreover have "hook_force_sig m = Pass n \<Longrightarrow> pc n = pc m"
    by (auto simp: hook_force_sig_def split: if_splits)
  ultimately show ?thesis using assms by (auto simp: hooks_def)
qed

lemma run_hooks_pass_pc:
  "(\<And>h m n. h \<in> set hs \<Longrightarrow> h m = Pass n \<Longrightarrow> pc n = pc m) \<Longrightarrow> run_hooks hs m = Pass n \<Longrightarrow> pc n = pc m"
proof (induction hs arbitrary: m)
  case (Cons h hs)
  from Cons.prems(2) obtain k where k: "h m = Pass k" "run_hooks hs k = Pass n"
    by (auto split: hook.splits)
  have "pc n = pc k" by (rule Cons.IH[OF _ k(2)]) (use Cons.prems(1) in auto)
  moreover have "pc k = pc m" using Cons.prems(1)[of h m k] k(1) by simp
  ultimately show ?case by simp
qed simp

lemma count_insn_pc [simp]: "pc (count_insn m) = pc m"
  by (simp add: count_insn_def)

lemma run_insn_trap_pc: "run_insn m w = Trapped t \<Longrightarrow> pc t = pc m"
  using exec_trap[of "count_insn m" w]
  by (auto simp: run_insn_def take_trap_def split: insn_result.splits if_splits)

lemma step_trap_pc:
  assumes "step m = Trapped t"
  shows "pc t = pc m"
proof -
  from assms obtain n where n: "run_hooks hooks m = Pass n" "fetch_and_run n = Trapped t"
    by (auto simp: step_def split: hook.splits)
  have "pc n = pc m" by (rule run_hooks_pass_pc[OF pass_pc n(1)])
  moreover have "pc t = pc n"
    using n(2) run_insn_trap_pc[of "snd (translate n (pc n) True)"]
    by (auto simp: fetch_and_run_def Let_def split_beta split: if_splits)
  ultimately show ?thesis by simp
qed

text \<open>The program counters an intercept or a snoop looks for.\<close>

definition intercepted :: "machine \<Rightarrow> u32 \<Rightarrow> bool" where
  "intercepted m a \<longleftrightarrow>
     a \<in> {0xC00AAA44, TSLEEP_ENTRY, 0xC0055CC0, 0xC00BC148, 0xC00A79E4, 0xC00ADCE0, 0xC00BD498,
          SDSTRATEGY, 0xC009BA14, force_sig_pc (cfg m), PMAP_MAP_FN, 0xC00A0E80}"

lemma no_hook:
  assumes "\<not> intercepted m (pc m)" "\<not> interruptible m"
  shows "run_hooks hooks m = Pass m"
  using assms
  by (simp add: intercepted_def hooks_def hook_replay_def hook_sha_wait_def hook_sdcommand_def hook_poll_def
      hook_shootdown_def hook_copy_out_def hook_slave_map_def hook_slot_wait_def hook_strategy_def
      hook_biowait_def hook_synchrtc_def hook_softint_def hook_hardclock_def hook_force_sig_def
      hook_devmap_def hook_mailbox_def)

text \<open>With a fault pending, a step does nothing: only delivering the fault gets the machine on.\<close>

definition stuck_at :: "machine \<Rightarrow> machine \<Rightarrow> bool" where
  "stuck_at m n \<longleftrightarrow> same_but_mmu m n \<and> ufault (mmu n) = ufault (mmu m)"

lemma stuck_step:
  assumes "fault_pending m" "\<not> intercepted m (pc m)"
  shows "\<exists>n. step m = Running n \<and> stuck_at m n"
proof -
  have "run_hooks hooks m = Pass m"
    by (rule no_hook[OF assms(2)]) (use assms(1) in \<open>simp add: interruptible_def\<close>)
  moreover obtain pa n where t: "translate m (pc m) True = (pa, n)" by fastforce
  moreover have "ufault (mmu n) = ufault (mmu m)"
    using translate_fault[OF t] assms(1) by (simp add: fault_step_def)
  ultimately show ?thesis
    using assms(1) same_translate[OF t]
    by (simp add: step_def fetch_and_run_def t stuck_at_def)
qed

lemma stuck_at_trans: "stuck_at m n \<Longrightarrow> stuck_at n k \<Longrightarrow> stuck_at m k"
  by (auto simp: stuck_at_def intro: same_trans)

lemma stuck_atD:
  "stuck_at m n \<Longrightarrow> fault_pending n = fault_pending m" "stuck_at m n \<Longrightarrow> pc n = pc m"
  "stuck_at m n \<Longrightarrow> intercepted n a = intercepted m a"
  using sameD[of m n] by (simp_all add: stuck_at_def intercepted_def)

lemma stuck_runs:
  assumes "fault_pending m" "\<not> intercepted m (pc m)" "pc m \<noteq> KCALL_RET"
  shows "\<exists>n. call_ends room m (Runaway n) \<and> stuck_at m n"
  using assms
proof (induction room arbitrary: m)
  case 0
  then show ?case by (auto simp: call_ends_now stuck_at_def)
next
  case (Suc room)
  obtain n where n: "step m = Running n" "stuck_at m n" using stuck_step Suc.prems by blast
  have "fault_pending n" "\<not> intercepted n (pc n)" "pc n \<noteq> KCALL_RET"
    using Suc.prems stuck_atD[OF n(2)] by simp_all
  then obtain k where k: "call_ends room n (Runaway k)" "stuck_at n k" using Suc.IH[of n] by blast
  show ?case
    using call_ends_next[OF Suc.prems(3) n(1)] k(1) stuck_at_trans[OF n(2) k(2)] by blast
qed

lemma call_ends_det:
  assumes "call_ends r m e" "call_ends r m e'"
  shows "e' = e"
  using assms
proof (induction r arbitrary: m)
  case 0
  then show ?case by (cases "pc m = KCALL_RET") (simp_all add: call_ends_now)
next
  case (Suc r)
  show ?case
  proof (cases "pc m = KCALL_RET")
    case True
    then show ?thesis using Suc.prems by (simp add: call_ends_now)
  next
    case False
    then show ?thesis
      using Suc by (cases "step m") (auto simp: call_ends_now call_ends_next)
  qed
qed

lemma call_ends_callee:
  assumes "callee i m k" "call_ends r k e"
  shows "call_ends (i + r) m e"
  using assms
proof (induction rule: callee.induct)
  case (next_step m n i k)
  then show ?case by (simp add: call_ends_next)
qed simp

lemma kcall_iff:
  "kcall m fn a2 a3 a4 a5 a6 = Some (r, m') \<longleftrightarrow>
   (\<exists>e. call_ends 30000000 (kcall_enter m fn a2 a3 a4 a5 a6) e \<and> m' = kcall_leave m (end_machine e) \<and>
        r = (case e of Returned k \<Rightarrow> RD k 2 | _ \<Rightarrow> 0xFFFFFFFF))"
proof -
  let ?n = "kcall_enter m fn a2 a3 a4 a5 a6"
  have r: "(if pc (end_machine e) = KCALL_RET then RD (end_machine e) 2 else 0xFFFFFFFF) =
      (case e of Returned k \<Rightarrow> RD k 2 | _ \<Rightarrow> 0xFFFFFFFF)" if "call_ends 30000000 ?n e" for e
    using that by (cases e) (auto simp: call_ends_def dest: step_trap_pc)
  have l: "kcall_loop 0 ?n = Some k \<longleftrightarrow> (\<exists>e. call_ends 30000000 ?n e \<and> k = end_machine e)" for k
    using kcall_loop_spec[of 0 ?n k] by simp
  have "kcall m fn a2 a3 a4 a5 a6 = Some (r, m') \<longleftrightarrow>
     (\<exists>k. kcall_loop 0 ?n = Some k \<and> m' = kcall_leave m k \<and> r = (if pc k = KCALL_RET then RD k 2 else 0xFFFFFFFF))"
    by (auto simp: kcall_def split: option.split)
  then show ?thesis using r by (auto simp: l)
qed

lemma kcall_enter_fixed: "fixed (kcall_enter m fn a2 a3 a4 a5 a6) = (cfg m, sysmode m, True, realmm (mem m), root_img (dev m))"
  by (simp add: kcall_enter_def Let_def fixed_def clear_pending_def)

lemma fixed_trapped: "step k = Trapped t \<Longrightarrow> fixed t = fixed k"
  using fixed_step[of k t] by simp

lemma call_ends_fixed: "call_ends r m e \<Longrightarrow> fixed (end_machine e) = fixed m"
  by (cases e) (auto simp: call_ends_def dest!: callee_fixed fixed_trapped)

lemma kcall_keeps:
  assumes "kcall m fn a2 a3 a4 a5 a6 = Some (r, m')"
  shows "cpu m' = cpu m" "fixed m' = fixed m"
  using assms call_ends_fixed[of 30000000 "kcall_enter m fn a2 a3 a4 a5 a6"]
  by (auto simp: kcall_iff kcall_leave_def kcall_enter_fixed) (auto simp: fixed_def)

lemma runq_remove_fixed: "runq_remove m p = Some m' \<Longrightarrow> fixed m' = fixed m"
  by (auto simp: runq_remove_def Let_def split_beta split: if_splits option.splits dest: kcall_keeps(2))

lemma runq_add_fixed: "runq_add m p = Some m' \<Longrightarrow> fixed m' = fixed m"
  by (auto simp: runq_add_def Let_def split_beta split: if_splits dest: kcall_keeps(2))

section \<open>Properties\<close>

text \<open>C11. A call into the kernel returns the callee's \<open>r2\<close> exactly if the callee comes back to the
  sentinel within 30 million steps, and all ones if it runs out of them or traps; in each case the
  machine afterwards is the one the callee left, under the caller's own processor state.\<close>

theorem kcall_returns:
  "kcall m fn a2 a3 a4 a5 a6 = Some (r, m') \<longleftrightarrow>
   (\<exists>e. call_ends 30000000 (kcall_enter m fn a2 a3 a4 a5 a6) e \<and> m' = kcall_leave m (end_machine e) \<and>
        r = (case e of Returned k \<Rightarrow> RD k 2 | _ \<Rightarrow> 0xFFFFFFFF))"
  by (rule kcall_iff)

text \<open>C12. The caller cannot tell that a call happened but by what it did to memory and devices: its
  registers, program counter, delay slot and instruction count are as they were, so are the
  configuration and the boot medium, and at no point of the call can an interrupt be taken.\<close>

theorem kcall_invisible:
  assumes "kcall m fn a2 a3 a4 a5 a6 = Some (r, m')"
  shows "cpu m' = cpu m \<and> in_kcall m' = in_kcall m \<and> cfg m' = cfg m \<and> sysmode m' = sysmode m \<and>
    root_img (dev m') = root_img (dev m) \<and>
    (\<nexists>i k. callee i (kcall_enter m fn a2 a3 a4 a5 a6) k \<and> interruptible k)"
proof -
  have "in_kcall k" if "callee i (kcall_enter m fn a2 a3 a4 a5 a6) k" for i k
    using callee_fixed[OF that] by (simp add: kcall_enter_fixed) (simp add: fixed_def)
  then show ?thesis
    using kcall_keeps[OF assms] by (auto simp: fixed_def interruptible_def)
qed

text \<open>A function of one instruction, \<open>jmp r1\<close>.\<close>

definition ret_machine :: machine where
  "ret_machine = machine0\<lparr>mem := mem_w32 mem0 0x1000 0xF400C001\<rparr>"

theorem kcall_invisible_witness:
  "\<exists>m'. kcall ret_machine 0x1000 7 0 0 0 0 = Some (7, m') \<and> cpu m' = cpu0"
proof -
  have "case kcall ret_machine 0x1000 7 0 0 0 0 of Some (r, _) \<Rightarrow> r = 7 | None \<Rightarrow> False" by code_simp
  then obtain m' where k: "kcall ret_machine 0x1000 7 0 0 0 0 = Some (7, m')" by (auto split: option.splits)
  from kcall_invisible[OF this] k show ?thesis by (auto simp: ret_machine_def machine0_def)
qed

text \<open>A page fault inside a call is not delivered: the callee makes no further step, the call uses up
  its 30 million steps and gives all ones, and the fault, which names the callee's address, is
  still pending when the caller goes on.\<close>

theorem kcall_leaves_fault:
  assumes "callee i (kcall_enter m fn a2 a3 a4 a5 a6) k" "i \<le> 30000000"
    and "fault_pending k" "pc k \<noteq> 0x00DEAD00" "\<not> intercepted k (pc k)"
  shows "\<exists>m'. kcall m fn a2 a3 a4 a5 a6 = Some (0xFFFFFFFF, m') \<and>
    ufault (mmu m') = ufault (mmu k) \<and> mem m' = mem k \<and> cpu m' = cpu m"
proof -
  obtain n where n: "call_ends (30000000 - i) k (Runaway n)" "stuck_at k n"
    using stuck_runs[OF assms(3,5,4)] by blast
  have "call_ends 30000000 (kcall_enter m fn a2 a3 a4 a5 a6) (Runaway n)"
    using call_ends_callee[OF assms(1) n(1)] assms(2) by simp
  then have "kcall m fn a2 a3 a4 a5 a6 = Some (0xFFFFFFFF, kcall_leave m n)"
    by (auto simp: kcall_iff intro!: exI[of _ "Runaway n"])
  then show ?thesis using n(2) by (auto simp: kcall_leave_def stuck_at_def sameD)
qed

text \<open>A call to a function whose page is not there.\<close>

definition away_machine :: machine where
  "away_machine = machine0\<lparr>
     mem := mem_w32 mem0 0xFFF7F204 0x5001,
     mmu := mmu0\<lparr>translate_on := True\<rparr>, cfg := cfg0\<lparr>procexp := True\<rparr>\<rparr>"

theorem kcall_leaves_fault_witness:
  "\<exists>m'. kcall away_machine 0x3000 0 0 0 0 0 = Some (0xFFFFFFFF, m') \<and> fault_pending m'"
proof -
  let ?n = "kcall_enter away_machine 0x3000 0 0 0 0 0"
  have "case step ?n of Running k \<Rightarrow> fault_pending k \<and> pc k = 0x3000 \<and> force_sig_pc (cfg k) = 0 | _ \<Rightarrow> False"
    by code_simp
  then obtain k where k: "step ?n = Running k" "fault_pending k" "pc k = 0x3000" "force_sig_pc (cfg k) = 0"
    by (auto split: step_result.splits)
  have "pc ?n \<noteq> 0x00DEAD00" by (simp add: kcall_enter_def Let_def clear_pending_def)
  then have "callee 1 ?n k" using k(1) by (simp add: callee_Suc)
  from kcall_leaves_fault[OF this] k show ?thesis by (auto simp: intercepted_def)
qed

end
