(* ===== verification/Umem.thy ===== *)
theory Umem
  imports Tlb
begin

text \<open>
  User memory as the emulator's own services reach it (\<^verbatim>\<open>proc.c\<close>): a string read out of a process,
  bytes copied into one, and the check that a whole buffer is resident before a service starts.

  Each of them probes with \<open>translate\<close>, which records a page fault on a miss; the lemmas show that
  the copies put the fault state back, that the check leaves either a resident buffer or exactly
  one restartable fault, and that a resident buffer is read without another.
\<close>

section \<open>Operations\<close>

abbreviation set_pending :: "machine \<Rightarrow> bool \<Rightarrow> machine" where
  "set_pending m b \<equiv> set_ufault m ((ufault (mmu m))\<lparr>ufault_pending := b\<rparr>)"

text \<open>One probe: the fault flag is cleared, the byte's address translated; \<open>None\<close> where it is not
  resident.\<close>

definition probe :: "machine \<Rightarrow> u32 \<Rightarrow> u32 option \<times> machine" where
  "probe m va =
     (let (pa, m) = translate (set_pending m False) va False
      in (if fault_pending m \<or> pa = 0 then None else Some pa, m))"

text \<open>The loops of \<open>uread_str\<close> and \<open>uwrite_mem\<close>; the number is the room left in the buffer.\<close>

fun uread_bytes :: "machine \<Rightarrow> u32 \<Rightarrow> nat \<Rightarrow> u8 list \<times> machine" where
  "uread_bytes m va 0 = ([], m)"
| "uread_bytes m va (Suc n) =
     (case probe m va of
        (None, m) \<Rightarrow> ([], m)
      | (Some pa, m) \<Rightarrow>
          (let c = rd8 m pa in
           if c = 0 then ([], m)
           else let (cs, m) = uread_bytes m (va + 1) n in (c # cs, m)))"

definition uread_str :: "machine \<Rightarrow> u32 \<Rightarrow> nat \<Rightarrow> u8 list \<times> machine" where
  "uread_str m va n =
     (let save = ufault (mmu m); (s, m) = uread_bytes m va (n - 1) in (s, set_ufault m save))"

fun uwrite_bytes :: "machine \<Rightarrow> u32 \<Rightarrow> u8 list \<Rightarrow> nat \<times> machine" where
  "uwrite_bytes m va [] = (0, m)"
| "uwrite_bytes m va (b # bs) =
     (case probe m va of
        (None, m) \<Rightarrow> (0, m)
      | (Some pa, m) \<Rightarrow> (let (k, m) = uwrite_bytes (wr8 m pa b) (va + 1) bs in (Suc k, m)))"

definition uwrite_mem :: "machine \<Rightarrow> u32 \<Rightarrow> u8 list \<Rightarrow> nat \<times> machine" where
  "uwrite_mem m va src =
     (let save = ufault (mmu m); (k, m) = uwrite_bytes m va src in (k, set_ufault m save))"

text \<open>The services read a resident buffer with \<open>mem_r8(translate(va + i, 0))\<close>.\<close>

fun uread_buf :: "machine \<Rightarrow> u32 \<Rightarrow> nat \<Rightarrow> u8 list \<times> machine" where
  "uread_buf m va 0 = ([], m)"
| "uread_buf m va (Suc n) =
     (let (pa, m) = translate m va False;
          (bs, m') = uread_buf m (va + 1) n
      in (rd8 m pa # bs, m'))"

text \<open>The page loop of \<open>ubuf_fault\<close>.  Its bounds are page-aligned and it steps by a page until it
  meets the upper one, so it makes \<open>(hi - lo) / 4096\<close> passes.\<close>

fun ubuf_pages :: "machine \<Rightarrow> u32 \<Rightarrow> nat \<Rightarrow> u32 option \<times> machine" where
  "ubuf_pages m p 0 = (None, m)"
| "ubuf_pages m p (Suc n) =
     (case probe m p of
        (None, m) \<Rightarrow> (Some p, m)
      | (Some _, m) \<Rightarrow> ubuf_pages m (p + 0x1000) n)"

definition ubuf_count :: "u32 \<Rightarrow> u32 \<Rightarrow> nat" where
  "ubuf_count va len =
     unat (page_no ((((va + len - 1) AND NOT 0xFFF) + 0x1000) - (va AND NOT 0xFFF)))"

definition ubuf_fault :: "machine \<Rightarrow> u32 \<Rightarrow> u32 \<Rightarrow> bool \<Rightarrow> u32 \<Rightarrow> bool \<times> machine" where
  "ubuf_fault m va len forwrite tpc =
     (if len = 0 then (False, m)
      else
        (let save = fault_pending m in
         case ubuf_pages m (va AND NOT 0xFFF) (ubuf_count va len) of
           (Some p, m) \<Rightarrow>
             (True, set_pc (set_ufault m \<lparr>ufault_pending = True, ufault_va = p, ufault_pc = tpc,
                ufault_code = False, ufault_write = forwrite, ufault_width = 4\<rparr>) tpc)
         | (None, m) \<Rightarrow> (False, set_pending m save)))"

section \<open>Probes\<close>

text \<open>The address a byte of a process is at, and whether it is resident, both read off the page tables.\<close>

definition uaddr :: "machine \<Rightarrow> u32 \<Rightarrow> u32" where
  "uaddr m va = fst (xlat_spec (set_pending m False) va False)"

definition resident :: "machine \<Rightarrow> u32 \<Rightarrow> bool" where
  "resident m va \<longleftrightarrow>
     \<not> ufault_pending (snd (xlat_spec (set_pending m False) va False)) \<and> uaddr m va \<noteq> 0"

text \<open>Addresses that go through the user's tables.\<close>

definition user_va :: "machine \<Rightarrow> u32 \<Rightarrow> bool" where
  "user_va m va \<longleftrightarrow> \<not> (realmm (mem m) \<and> va \<ge> 0xC0000000)"

text \<open>The translation state is sound: the TLB agrees with the tables.\<close>

definition mmu_ok :: "machine \<Rightarrow> bool" where
  "mmu_ok m \<longleftrightarrow> tlb_ok m \<and> devmap_ok m"

text \<open>What a probe may change: the TLB, the fault record and the counters.\<close>

definition probed :: "machine \<Rightarrow> machine \<Rightarrow> bool" where
  "probed m m' \<longleftrightarrow> same_but_mmu m m' \<and> mmu_ok m'"

lemma probed_trans: "probed m m' \<Longrightarrow> probed m' m'' \<Longrightarrow> probed m m''"
  by (auto simp: probed_def intro: same_trans)

lemma probed_refl: "mmu_ok m \<Longrightarrow> probed m m"
  by (simp add: probed_def)

lemma devmap_ok_same: "same_but_mmu m m' \<Longrightarrow> devmap_ok m' = devmap_ok m"
  by (simp add: devmap_ok_def sameD)

lemma mmu_ok_set_ufault [simp]: "mmu_ok (set_ufault m f) \<longleftrightarrow> mmu_ok m"
  by (simp add: mmu_ok_def devmap_ok_def set_ufault_def[of m f])
     (simp add: set_ufault_def[symmetric])

lemma probed_set_ufault [simp]: "probed m (set_ufault m' f) \<longleftrightarrow> probed m m'"
  by (simp add: probed_def)

lemma user_spec_view:
  assumes "same_but_mmu n n'" "\<not> fault_pending n" "\<not> fault_pending n'"
  shows "user_spec n' va code =
    (fst (user_spec n va code),
     if ufault_pending (snd (user_spec n va code)) then snd (user_spec n va code) else ufault (mmu n'))"
proof (cases "mode_apr n code AND 1 = 0")
  case True
  then show ?thesis using assms(2,3) by (simp add: user_spec_def Let_def same_entries[OF assms(1)])
next
  case False
  then show ?thesis
  proof (cases "fb_frame n (mode_apr n code) va code")
    case None
    then show ?thesis using assms(2,3) False
      by (simp add: user_spec_def Let_def same_entries[OF assms(1)] sameD[OF assms(1)])
  next
    case (Some x)
    then show ?thesis using assms(2,3) False
      by (cases x) (simp add: user_spec_def Let_def same_entries[OF assms(1)] sameD[OF assms(1)])
  qed
qed

lemma xlat_user:
  assumes "user_va n va"
  shows "xlat_spec n va code = (if \<not> translate_on (mmu n) then (va, ufault (mmu n)) else user_spec n va code)"
  using assms by (auto simp: xlat_spec_def user_va_def)

lemma cleared [simp]:
  "\<not> fault_pending (set_pending m False)"
  "user_va (set_ufault m f) va = user_va m va" "translate_on (mmu (set_ufault m f)) = translate_on (mmu m)"
  by (simp_all add: set_ufault_def user_va_def)

lemma user_spec_same:
  assumes "same_but_mmu m m'" "user_va m va"
  shows "xlat_spec (set_pending m' False) va code =
    (fst (xlat_spec (set_pending m False) va code),
     if ufault_pending (snd (xlat_spec (set_pending m False) va code))
     then snd (xlat_spec (set_pending m False) va code) else (ufault (mmu m'))\<lparr>ufault_pending := False\<rparr>)"
proof -
  have s: "same_but_mmu (set_pending m False) (set_pending m' False)" using assms(1) by simp
  have u: "user_va m' va" using assms by (simp add: user_va_def sameD)
  show ?thesis
  proof (cases "translate_on (mmu m)")
    case True
    then show ?thesis
      using user_spec_view[OF s] sameD(10)[OF assms(1)] u assms(2) by (simp add: xlat_user)
  next
    case False
    then show ?thesis using sameD(10)[OF assms(1)] u assms(2) by (simp add: xlat_user)
  qed
qed

lemma resident_same:
  assumes "same_but_mmu m m'" "user_va m va"
  shows "resident m' va = resident m va" "uaddr m' va = uaddr m va"
  using user_spec_same[OF assms, of False] by (auto simp: resident_def uaddr_def split: if_splits)

lemma user_va_same: "same_but_mmu m m' \<Longrightarrow> user_va m' va = user_va m va"
  by (simp add: user_va_def sameD)

text \<open>A probe finds exactly the resident bytes, and a successful one leaves the fault record alone but
  for the flag it cleared.\<close>

lemma probe_spec:
  assumes "mmu_ok m" "probe m va = (r, m')"
  shows "probed m m'" and "r = (if resident m va then Some (uaddr m va) else None)"
    and "user_va m va \<Longrightarrow> r \<noteq> None \<Longrightarrow> ufault (mmu m') = (ufault (mmu m))\<lparr>ufault_pending := False\<rparr>"
proof -
  let ?n = "set_pending m False"
  obtain pa where t: "translate ?n va False = (pa, m')"
    and r: "r = (if fault_pending m' \<or> pa = 0 then None else Some pa)"
    using assms(2) by (auto simp: probe_def split: prod.splits)
  have n: "tlb_ok ?n" "devmap_ok ?n" using mmu_ok_set_ufault[of m] assms(1) by (simp_all add: mmu_ok_def)
  note ts = translate_spec[OF n t]
  have s: "same_but_mmu m m'" using same_translate[OF t] by simp
  then show "probed m m'" using ts assms(1) devmap_ok_same[OF s] by (simp add: probed_def mmu_ok_def)
  have x: "xlat_spec ?n va False = (pa, ufault (mmu m'))" using ts by simp
  show "r = (if resident m va then Some (uaddr m va) else None)"
    by (simp add: r resident_def uaddr_def x)
  assume "user_va m va" "r \<noteq> None"
  then show "ufault (mmu m') = (ufault (mmu m))\<lparr>ufault_pending := False\<rparr>"
    using user_spec_same[OF same_refl, of m va False] x r by (auto split: if_splits)
qed

text \<open>A page is resident as a whole.\<close>

lemma or_nonzero: "(x :: u32) \<noteq> 0 \<Longrightarrow> x OR y \<noteq> 0"
  by (metis bit.disj_zero_right or.left_idem)

lemma page_nonzero:
  assumes "page_no a = page_no b" "page_off b = 0" "b \<noteq> 0"
  shows "(a :: u32) \<noteq> 0"
  using assms page_split[of a b] by auto

lemma resident_page:
  assumes "page_no va = page_no p" "page_off p = 0" "user_va m p" "resident m p"
  shows "resident m va"
proof -
  let ?n = "set_pending m False"
  have u: "user_va m va" using assms(3) va_le_page[OF assms(1), of "0xC0000000"] by (simp add: user_va_def)
  have x: "xlat_spec ?n a False = (if \<not> translate_on (mmu ?n) then (a, ufault (mmu ?n)) else user_spec ?n a False)"
    if "user_va m a" for a
    using that by (auto simp: xlat_spec_def user_va_def set_ufault_def)
  have v: "va \<noteq> 0" if "p \<noteq> 0" using page_nonzero[OF assms(1,2) that] .
  have c: "cphys (mem m) va \<noteq> 0" if "cphys (mem m) p \<noteq> 0"
    using page_nonzero[OF cphys_page[OF assms(1)] _ that] assms(2) by simp
  show ?thesis
    using assms(4) v c or_nonzero
    unfolding resident_def uaddr_def x[OF u] x[OF assms(3)]
    by (auto simp: user_spec_def Let_def fb_frame_page[OF assms(1)] assms(2) set_ufault_def split: option.splits if_splits)
qed

section \<open>The check of a buffer\<close>

lemma ubuf_pages_spec:
  "\<lbrakk>mmu_ok m; \<And>j. j < n \<Longrightarrow> user_va m (p + of_nat j * 0x1000); ubuf_pages m p n = (r, m')\<rbrakk> \<Longrightarrow>
   probed m m' \<and>
   (case r of
      None \<Rightarrow> (\<forall>j<n. resident m (p + of_nat j * 0x1000)) \<and>
        ufault (mmu m') = (if n = 0 then ufault (mmu m) else (ufault (mmu m))\<lparr>ufault_pending := False\<rparr>)
    | Some q \<Rightarrow> \<exists>k<n. q = p + of_nat k * 0x1000 \<and> \<not> resident m q \<and> (\<forall>j<k. resident m (p + of_nat j * 0x1000)))"
proof (induction n arbitrary: m p)
  case 0
  then show ?case by (auto simp: probed_refl)
next
  case (Suc n)
  obtain r1 m1 where p: "probe m p = (r1, m1)" by fastforce
  note ps = probe_spec[OF Suc.prems(1) p]
  have u0: "user_va m p" using Suc.prems(2)[of 0] by simp
  show ?case
  proof (cases "resident m p")
    case False
    then show ?thesis using Suc.prems(3) ps(1,2) p by (auto intro!: exI[of _ 0])
  next
    case True
    then have r1: "r1 \<noteq> None" using ps(2) by simp
    have s: "same_but_mmu m m1" and ok: "mmu_ok m1" using ps(1) by (simp_all add: probed_def)
    have sh: "(p + 0x1000) + of_nat j * 0x1000 = p + of_nat (Suc j) * 0x1000" for j :: nat
      by (simp add: algebra_simps)
    have uv: "user_va m (p + of_nat (Suc j) * 0x1000)" if "j < n" for j using Suc.prems(2) that by blast
    then have uv1: "\<And>j. j < n \<Longrightarrow> user_va m1 ((p + 0x1000) + of_nat j * 0x1000)"
      unfolding sh user_va_same[OF s] .
    have rest: "ubuf_pages m1 (p + 0x1000) n = (r, m')"
      using Suc.prems(3) p r1 by (auto split: option.splits)
    have rs: "resident m1 (p + of_nat (Suc j) * 0x1000) = resident m (p + of_nat (Suc j) * 0x1000)" if "j < n" for j
      by (rule resident_same(1)[OF s uv[OF that]])
    have all: "(\<forall>j<Suc k. P j) \<longleftrightarrow> P 0 \<and> (\<forall>j<k. P (Suc j))" for P and k :: nat
      by (metis not_less_eq zero_less_Suc old.nat.exhaust)
    have t: "probed m m'" if "probed m1 m'" using probed_trans[OF ps(1) that] .
    have f: "ufault (mmu m1) = (ufault (mmu m))\<lparr>ufault_pending := False\<rparr>" using ps(3)[OF u0 r1] .
    show ?thesis
    proof (cases r)
      case None
      then show ?thesis
        using Suc.IH[OF ok uv1 rest] t f True rs unfolding sh by (simp add: all)
    next
      case (Some q)
      then obtain k where k: "k < n" "q = p + of_nat (Suc k) * 0x1000" "\<not> resident m1 q"
        "\<forall>j<k. resident m1 (p + of_nat (Suc j) * 0x1000)" and pm: "probed m1 m'"
        using Suc.IH[OF ok uv1 rest] unfolding sh by auto
      have "\<forall>j<Suc k. resident m (p + of_nat j * 0x1000)"
        unfolding all using k rs True by simp
      moreover have "\<not> resident m q" using k(1,2,3) rs by simp
      ultimately show ?thesis using Some t[OF pm] k(1,2) by (auto intro!: exI[of _ "Suc k"])
    qed
  qed
qed

text \<open>The pages the check walks are those of the buffer.\<close>

lemma unat_page_base: "unat ((x :: u32) AND NOT 0xFFF) = 4096 * (unat x div 4096)"
proof -
  have "x AND NOT 0xFFF = push_bit 12 (page_no x)" using page_base_shift(2)[of x] by simp
  moreover have "unat (push_bit 12 (page_no x)) = 4096 * unat (page_no x)"
    using page_bound[of x] by (simp add: push_bit_eq_mult unat_word_ariths)
  ultimately show ?thesis by (simp only: unat_page_no)
qed

lemma unat_last_byte:
  fixes va len :: u32
  assumes "len \<noteq> 0" "unat va + unat len \<le> 4294963200"
  shows "unat (va + len - 1) = unat va + unat len - 1"
proof -
  have l1: "1 \<le> unat len" using assms(1) by (simp add: unat_gt_0 Suc_leI)
  have "unat (len - 1) = unat len - 1" using l1 by (subst unat_sub) (simp_all add: word_le_nat_alt)
  then have "unat (va + (len - 1)) = unat va + (unat len - 1)"
    using assms(2) l1 by (subst unat_add_small) simp_all
  then show ?thesis using l1 by (simp add: add_diff_eq)
qed

lemma of_nat_unat: "of_nat (unat (x :: u32)) = x"
  by simp

lemma ubuf_count_pages:
  assumes "len \<noteq> 0" "unat va + unat len \<le> 4294963200"
  shows "ubuf_count va len = (unat va + unat len - 1) div 4096 - unat va div 4096 + 1"
proof -
  let ?lo = "unat va div 4096" and ?hi = "(unat va + unat len - 1) div 4096"
  have l1: "1 \<le> unat len" using assms(1) by (simp add: unat_gt_0 Suc_leI)
  have le: "?lo \<le> ?hi" using l1 by (intro div_le_mono) simp
  have hi: "?hi < 1048575" using assms(2) l1 by (intro less_mult_imp_div_less) simp
  have w: "((va + len - 1) AND NOT 0xFFF) = of_nat (4096 * ?hi)" "(va AND NOT 0xFFF) = of_nat (4096 * ?lo)"
    using of_nat_unat[of "(va + len - 1) AND NOT 0xFFF"] of_nat_unat[of "va AND NOT 0xFFF"]
    by (simp_all only: unat_page_base unat_last_byte[OF assms])
  have "(((va + len - 1) AND NOT 0xFFF) + 0x1000) - (va AND NOT 0xFFF) = of_nat (4096 * ?hi + 4096) - of_nat (4096 * ?lo)"
    unfolding w by simp
  also have "\<dots> = of_nat (4096 * ?hi + 4096 - 4096 * ?lo)" using le by (subst of_nat_diff) simp_all
  also have "4096 * ?hi + 4096 - 4096 * ?lo = 4096 * (?hi - ?lo + 1)" using le by (simp add: algebra_simps diff_mult_distrib2)
  finally have e: "(((va + len - 1) AND NOT 0xFFF) + 0x1000) - (va AND NOT 0xFFF) = of_nat (4096 * (?hi - ?lo + 1))" .
  have "4096 * (x - y + 1) < 4294967296" if "x < 1048575" for x y :: nat using that by simp
  from this[OF hi] have "4096 * (?hi - ?lo + 1) < 4294967296" .
  then have "unat ((((va + len - 1) AND NOT 0xFFF) + 0x1000) - (va AND NOT 0xFFF)) = 4096 * (?hi - ?lo + 1)"
    unfolding e by (rule unat_of_nat_small)
  then show ?thesis by (simp only: ubuf_count_def unat_page_no) simp
qed

text \<open>Every byte of the buffer is on one of the pages walked.\<close>

lemma ubuf_page_of:
  assumes "len \<noteq> 0" "unat va + unat len \<le> 4294963200" "i < unat len"
  defines "j \<equiv> (unat va + i) div 4096 - unat va div 4096"
  shows "j < ubuf_count va len" "page_no (va + of_nat i) = page_no ((va AND NOT 0xFFF) + of_nat j * 0x1000)"
    and "page_off ((va AND NOT 0xFFF) + of_nat j * 0x1000) = 0"
proof -
  let ?lo = "unat va div 4096"
  have le: "?lo \<le> (unat va + i) div 4096" by (intro div_le_mono) simp
  have "(unat va + i) div 4096 \<le> (unat va + unat len - 1) div 4096" using assms(3) by (intro div_le_mono) simp
  then show "j < ubuf_count va len" unfolding ubuf_count_pages[OF assms(1,2)] j_def by linarith
  have hi: "(unat va + i) div 4096 < 1048575" using assms(2,3) by (intro less_mult_imp_div_less) simp
  have "unat (of_nat i :: u32) = i" using assms(2,3) by (intro unat_of_nat_small) simp
  then have s: "unat (va + of_nat i) = unat va + i" using assms(2,3) by (subst unat_add_small) simp_all
  have j: "j < 1048576" using hi by (simp add: j_def)
  have "unat (of_nat j :: u32) = j" using j by (intro unat_of_nat_small) simp
  then have j4: "unat (of_nat j * 0x1000 :: u32) = 4096 * j" using j by (simp add: unat_word_ariths)
  have lj: "?lo + j = (unat va + i) div 4096" using le by (simp add: j_def)
  have "unat (va AND NOT 0xFFF) + unat (of_nat j * 0x1000 :: u32) = 4096 * ((unat va + i) div 4096)"
    unfolding unat_page_base j4 lj[symmetric] by simp
  moreover from this have "unat (va AND NOT 0xFFF) + unat (of_nat j * 0x1000 :: u32) < 2 ^ 32"
    using hi by simp
  ultimately have "unat ((va AND NOT 0xFFF) + of_nat j * 0x1000) = 4096 * ((unat va + i) div 4096)"
    by (simp only: unat_add_small)
  then show "page_no (va + of_nat i) = page_no ((va AND NOT 0xFFF) + of_nat j * 0x1000)"
    and "page_off ((va AND NOT 0xFFF) + of_nat j * 0x1000) = 0"
    by (simp_all only: word_unat_eq_iff unat_page_no unat_page_off s) simp_all
qed

text \<open>A buffer in the user's address space, clear of the last page.\<close>

definition user_buf :: "machine \<Rightarrow> u32 \<Rightarrow> u32 \<Rightarrow> bool" where
  "user_buf m va len \<longleftrightarrow>
     unat va + unat len \<le> 4294963200 \<and> (realmm (mem m) \<longrightarrow> unat va + unat len \<le> 0xC0000000)"

lemma user_buf_va:
  assumes "user_buf m va len" "i < unat len"
  shows "user_va m (va + of_nat i)"
proof -
  have "unat (of_nat i :: u32) = i" using assms by (intro unat_of_nat_small) (simp add: user_buf_def)
  then have "unat (va + of_nat i) = unat va + i"
    using assms by (subst unat_add_small) (simp_all add: user_buf_def)
  then show ?thesis using assms by (auto simp: user_va_def user_buf_def word_le_nat_alt)
qed

text \<open>Every page the check walks holds a byte of the buffer.\<close>

lemma ubuf_page_byte:
  assumes "len \<noteq> 0" "unat va + unat len \<le> 4294963200" "j < ubuf_count va len"
  shows "\<exists>i<unat len. (unat va + i) div 4096 - unat va div 4096 = j"
proof (intro exI conjI)
  let ?lo = "unat va div 4096"
  let ?i = "4096 * (?lo + j) - unat va"
  have l1: "1 \<le> unat len" using assms(1) by (simp add: unat_gt_0 Suc_leI)
  have j: "?lo + j \<le> (unat va + unat len - 1) div 4096"
  proof -
    have "?lo \<le> (unat va + unat len - 1) div 4096" using l1 by (intro div_le_mono) simp
    then show ?thesis using assms(3) unfolding ubuf_count_pages[OF assms(1,2)] by linarith
  qed
  then have "4096 * (?lo + j) \<le> unat va + unat len - 1"
    by (simp add: less_eq_div_iff_mult_less_eq mult.commute)
  then show "?i < unat len" using l1 by linarith
  show "(unat va + ?i) div 4096 - ?lo = j"
  proof (cases "j = 0")
    case True
    then have "?i = 0" by simp
    then show ?thesis using True by simp
  next
    case False
    have "4096 * q + r \<le> 4096 * (q + j)" if "r < 4096" for q r :: nat using False that by (cases j) simp_all
    from this[of "unat va mod 4096" ?lo] have "unat va \<le> 4096 * (?lo + j)" by simp
    then have "unat va + ?i = 4096 * (?lo + j)" by simp
    then show ?thesis by simp
  qed
qed

lemma ubuf_page_user:
  assumes "len \<noteq> 0" "user_buf m va len" "j < ubuf_count va len"
  shows "user_va m ((va AND NOT 0xFFF) + of_nat j * 0x1000)"
proof -
  have b: "unat va + unat len \<le> 4294963200" using assms(2) by (simp add: user_buf_def)
  obtain i where i: "i < unat len" "(unat va + i) div 4096 - unat va div 4096 = j"
    using ubuf_page_byte[OF assms(1) b assms(3)] by blast
  have "page_no (va + of_nat i) = page_no ((va AND NOT 0xFFF) + of_nat j * 0x1000)"
    using ubuf_page_of(2)[OF assms(1) b i(1)] i(2) by simp
  from va_le_page[OF this, of "0xC0000000"] user_buf_va[OF assms(2) i(1)] show ?thesis
    by (simp add: user_va_def)
qed

section \<open>Copies\<close>

lemma uread_bytes_spec:
  "\<lbrakk>mmu_ok m; \<And>i. i < n \<Longrightarrow> user_va m (va + of_nat i); uread_bytes m va n = (s, m')\<rbrakk> \<Longrightarrow> probed m m' \<and>
   s = takeWhile (\<lambda>c. c \<noteq> 0) (map (\<lambda>i. rd8 m (uaddr m (va + of_nat i))) (takeWhile (\<lambda>i. resident m (va + of_nat i)) [0..<n]))"
proof (induction n arbitrary: m va s m')
  case 0
  then show ?case by (auto simp: probed_refl)
next
  case (Suc n)
  obtain r m1 where p: "probe m va = (r, m1)" by fastforce
  note ps = probe_spec[OF Suc.prems(1) p]
  have sm: "same_but_mmu m m1" and ok: "mmu_ok m1" using ps(1) by (simp_all add: probed_def)
  have up: "[0..<Suc n] = 0 # map Suc [0..<n]" by (simp add: map_Suc_upt upt_conv_Cons)
  show ?case
  proof (cases r)
    case None
    then have "\<not> resident m va" using ps(2) by (simp split: if_splits)
    then show ?thesis using Suc.prems(3) p None ps(1) unfolding up by auto
  next
    case (Some pa)
    then have pa: "resident m va" "pa = uaddr m va" using ps(2) by (auto split: if_splits)
    show ?thesis
    proof (cases "rd8 m1 pa = 0")
      case True
      then show ?thesis using Suc.prems(3) p Some ps(1) pa sameD(1)[OF sm] unfolding up by auto
    next
      case False
      obtain cs m2 where r2: "uread_bytes m1 (va + 1) n = (cs, m2)" by fastforce
      have sh: "(va + 1) + of_nat i = va + of_nat (Suc i)" for i :: nat by (simp add: add.assoc)
      have uv: "user_va m (va + of_nat (Suc i))" if "i < n" for i using Suc.prems(2) that by blast
      then have "\<And>i. i < n \<Longrightarrow> user_va m1 ((va + 1) + of_nat i)" unfolding sh user_va_same[OF sm] .
      note ih = Suc.IH[OF ok this r2]
      have e: "resident m1 ((va + 1) + of_nat i) = resident m (va + of_nat (Suc i))"
        "uaddr m1 ((va + 1) + of_nat i) = uaddr m (va + of_nat (Suc i))" if "i \<in> set [0..<n]" for i
        using that resident_same[OF sm uv[of i]] unfolding sh by auto
      have "takeWhile (\<lambda>i. resident m1 ((va + 1) + of_nat i)) [0..<n] = takeWhile (\<lambda>i. resident m (va + of_nat (Suc i))) [0..<n]"
        by (rule takeWhile_cong) (use e in auto)
      then have "map (\<lambda>i. rd8 m1 (uaddr m1 ((va + 1) + of_nat i))) (takeWhile (\<lambda>i. resident m1 ((va + 1) + of_nat i)) [0..<n]) =
          map (\<lambda>i. rd8 m (uaddr m (va + of_nat (Suc i)))) (takeWhile (\<lambda>i. resident m (va + of_nat (Suc i))) [0..<n])"
        using e(2) by (auto simp: sameD(1)[OF sm] dest!: set_takeWhileD)
      then show ?thesis
        using ih Suc.prems(3) p Some False pa r2 sameD(1)[OF sm] probed_trans[OF ps(1)] unfolding up
        by (auto simp: takeWhile_map comp_def)
    qed
  qed
qed

text \<open>Reading a resident buffer byte by byte raises no fault.\<close>

lemma translate_resident:
  assumes "mmu_ok m" "user_va m va" "resident m va" "\<not> fault_pending m"
  shows "fst (translate m va False) = uaddr m va \<and> ufault (mmu (snd (translate m va False))) = ufault (mmu m) \<and>
    probed m (snd (translate m va False))"
proof -
  have "set_pending m False = m" using assms(4) by (simp add: set_ufault_def)
  then have p: "probe m va = (let (pa, m') = translate m va False in (if fault_pending m' \<or> pa = 0 then None else Some pa, m'))"
    by (simp add: probe_def)
  obtain pa m' where t: "translate m va False = (pa, m')" by fastforce
  note ps = probe_spec[OF assms(1) p[unfolded t Let_def prod.case]]
  have "(if fault_pending m' \<or> pa = 0 then None else Some pa) = Some (uaddr m va)" using ps(2) assms(3) by simp
  then have "pa = uaddr m va" "\<not> (fault_pending m' \<or> pa = 0)" by (simp_all split: if_splits)
  moreover have "(ufault (mmu m))\<lparr>ufault_pending := False\<rparr> = ufault (mmu m)" using assms(4) by simp
  ultimately show ?thesis using ps(1) ps(3)[OF assms(2)] t by simp
qed

lemma uread_buf_spec:
  "\<lbrakk>mmu_ok m; \<And>i. i < n \<Longrightarrow> user_va m (va + of_nat i); \<And>i. i < n \<Longrightarrow> resident m (va + of_nat i);
    \<not> fault_pending m; uread_buf m va n = (bs, m')\<rbrakk> \<Longrightarrow>
   bs = map (\<lambda>i. rd8 m (uaddr m (va + of_nat i))) [0..<n] \<and> probed m m' \<and> ufault (mmu m') = ufault (mmu m)"
proof (induction n arbitrary: m va bs m')
  case 0
  then show ?case by (simp add: probed_refl)
next
  case (Suc n)
  obtain pa m1 where t: "translate m va False = (pa, m1)" by fastforce
  have 0: "user_va m va" "resident m va" using Suc.prems(2)[of 0] Suc.prems(3)[of 0] by simp_all
  note tr = translate_resident[OF Suc.prems(1) 0 Suc.prems(4), unfolded t fst_conv snd_conv]
  have sm: "same_but_mmu m m1" and ok: "mmu_ok m1" using tr by (simp_all add: probed_def)
  have sh: "(va + 1) + of_nat i = va + of_nat (Suc i)" for i :: nat by (simp add: add.assoc)
  have uv: "user_va m (va + of_nat (Suc i))" if "i < n" for i using Suc.prems(2) that by blast
  have rs: "resident m1 ((va + 1) + of_nat i)" "uaddr m1 ((va + 1) + of_nat i) = uaddr m (va + of_nat (Suc i))"
    if "i < n" for i
    using resident_same[OF sm uv[OF that]] Suc.prems(3)[of "Suc i"] that unfolding sh by simp_all
  have uv1: "\<And>i. i < n \<Longrightarrow> user_va m1 ((va + 1) + of_nat i)" using uv unfolding sh user_va_same[OF sm] .
  have np: "\<not> fault_pending m1" using tr Suc.prems(4) by simp
  obtain cs m2 where r2: "uread_buf m1 (va + 1) n = (cs, m2)" by fastforce
  note ih = Suc.IH[OF ok uv1 rs(1) np r2]
  have up: "[0..<Suc n] = 0 # map Suc [0..<n]" by (simp add: map_Suc_upt upt_conv_Cons)
  have "cs = map (\<lambda>i. rd8 m (uaddr m (va + of_nat (Suc i)))) [0..<n]" using ih rs(2) by (simp add: sameD(1)[OF sm])
  moreover have va0: "va + of_nat 0 = va" by simp
  moreover have "bs = rd8 m (uaddr m va) # cs" "m' = m2"
    using Suc.prems(5) t r2 tr sameD(1)[OF sm] by simp_all
  ultimately have "bs = map (\<lambda>i. rd8 m (uaddr m (va + of_nat i))) [0..<Suc n]"
    unfolding up by (simp only: list.map map_map comp_def va0)
  then show ?case using ih tr probed_trans[of m m1] \<open>m' = m2\<close> by simp
qed

lemma ubuf_fault_spec:
  assumes "mmu_ok m" "user_buf m va len" "ubuf_fault m va len w tpc = (r, m')"
  shows "mem m' = mem m \<and> RD m' = RD m \<and> dev m' = dev m \<and>
    (\<not> r \<longrightarrow> (\<forall>i<unat len. resident m (va + of_nat i)) \<and> ufault (mmu m') = ufault (mmu m) \<and> pc m' = pc m) \<and>
    (r \<longrightarrow> pc m' = tpc \<and> (\<exists>p. ufault (mmu m') = \<lparr>ufault_pending = True, ufault_va = p, ufault_pc = tpc,
        ufault_code = False, ufault_write = w, ufault_width = 4\<rparr> \<and>
        \<not> resident m p \<and> (\<exists>i<unat len. page_no (va + of_nat i) = page_no p)))"
proof (cases "len = 0")
  case True
  then show ?thesis using assms(3) by (auto simp: ubuf_fault_def)
next
  case False
  have b: "unat va + unat len \<le> 4294963200" using assms(2) by (simp add: user_buf_def)
  let ?p = "va AND NOT 0xFFF" let ?n = "ubuf_count va len"
  obtain q m1 where u: "ubuf_pages m ?p ?n = (q, m1)" by fastforce
  note us = ubuf_pages_spec[OF assms(1) ubuf_page_user[OF False assms(2)] u]
  have sm: "same_but_mmu m m1" using us by (simp add: probed_def)
  note s = sameD[OF sm]
  have n0: "?n \<noteq> 0" by (simp add: ubuf_count_pages[OF False b])
  show ?thesis
  proof (cases q)
    case None
    then have m': "r = False" "m' = set_pending m1 (fault_pending m)"
      using assms(3) u False by (simp_all add: ubuf_fault_def)
    have pages: "\<forall>j<?n. resident m (?p + of_nat j * 0x1000)"
      and f: "ufault (mmu m1) = (ufault (mmu m))\<lparr>ufault_pending := False\<rparr>" using us None n0 by simp_all
    have "resident m (va + of_nat i)" if i: "i < unat len" for i
    proof -
      note o = ubuf_page_of[OF False b i]
      show ?thesis
        by (rule resident_page[OF o(2,3) ubuf_page_user[OF False assms(2) o(1)] pages[rule_format, OF o(1)]])
    qed
    moreover have "RD m' = RD m" using m'(2) s(2) by (simp add: RD_def set_ufault_def fun_eq_iff)
    ultimately show ?thesis using m' f s(1-3) by (simp add: set_ufault_def)
  next
    case (Some p)
    then have m': "r = True" "m' = set_pc (set_ufault m1 \<lparr>ufault_pending = True, ufault_va = p, ufault_pc = tpc,
        ufault_code = False, ufault_write = w, ufault_width = 4\<rparr>) tpc"
      using assms(3) u False by (simp_all add: ubuf_fault_def)
    obtain k where k: "k < ?n" "p = ?p + of_nat k * 0x1000" "\<not> resident m p" using us Some by auto
    obtain i where i: "i < unat len" "(unat va + i) div 4096 - unat va div 4096 = k"
      using ubuf_page_byte[OF False b k(1)] by blast
    have "page_no (va + of_nat i) = page_no p" using ubuf_page_of(2)[OF False b i(1)] i(2) k(2) by simp
    then show ?thesis using m' k(3) i(1) s by (auto simp: RD_def set_ufault_def set_pc_def fun_eq_iff)
  qed
qed

section \<open>Properties\<close>

text \<open>The check before an emulator-serviced system call.  Either it passes: then every byte of the
  buffer is resident and the fault record is what it was.  Or it fails: then exactly one fault is
  pending, on a page of the buffer that is not resident, marked with the direction of the access, and
  the program counter is back on the system call.  Memory, registers and devices are untouched.\<close>

theorem user_buffer_check:
  assumes "mmu_ok m" "user_buf m va len" "ubuf_fault m va len w tpc = (r, m')"
  shows "mem m' = mem m \<and> RD m' = RD m \<and> dev m' = dev m \<and>
    (\<not> r \<longrightarrow> (\<forall>i<unat len. resident m (va + of_nat i)) \<and> ufault (mmu m') = ufault (mmu m) \<and> pc m' = pc m) \<and>
    (r \<longrightarrow> pc m' = tpc \<and> (\<exists>p. ufault (mmu m') = \<lparr>ufault_pending = True, ufault_va = p, ufault_pc = tpc,
        ufault_code = False, ufault_write = w, ufault_width = 4\<rparr> \<and>
        \<not> resident m p \<and> (\<exists>i<unat len. page_no (va + of_nat i) = page_no p)))"
  using assms by (rule ubuf_fault_spec)

text \<open>A process with one page, \<open>0x1000\<close>, at frame \<open>0x7000\<close>, the write-protect bit set.\<close>

definition wp_machine :: machine where
  "wp_machine = cow_machine\<lparr>mmu := (mmu cow_machine)\<lparr>xlat_write := False\<rparr>\<rparr>"

lemma wp_machine_ok:
  "mmu_ok wp_machine" "translate_on (mmu wp_machine)" "\<not> realmm (mem wp_machine)"
  "mode_apr wp_machine False = 0x5001" "mmu_lookup wp_machine 0x5001 0x1234 = Some (0x7234, 0x7005)"
  "\<not> xlat_write (mmu wp_machine)"
proof -
  have f: "tlb_flush wp_machine = wp_machine"
    by (simp add: wp_machine_def cow_machine_def machine0_def mmu0_def tlb_flush_def empty_ent_def)
  have "tlb_ok wp_machine" using tlb_ok_flush[of wp_machine] by (simp add: f)
  moreover have "devmap_ok wp_machine"
    by (simp add: devmap_ok_def wp_machine_def cow_machine_def machine0_def mmu0_def)
  ultimately show "mmu_ok wp_machine" by (simp add: mmu_ok_def)
  show "translate_on (mmu wp_machine)" "\<not> realmm (mem wp_machine)" "\<not> xlat_write (mmu wp_machine)"
    by (simp_all add: wp_machine_def cow_machine_def machine0_def mmu0_def mem0_def)
  show "mode_apr wp_machine False = 0x5001" "mmu_lookup wp_machine 0x5001 0x1234 = Some (0x7234, 0x7005)"
    by code_simp+
qed

theorem user_buffer_check_witness:
  "fst (ubuf_fault wp_machine 0x1234 8 True 0x2000) = False \<and>
   resident wp_machine 0x1238 \<and>
   (let m = snd (ubuf_fault wp_machine 0x1FFC 8 True 0x2000) in pc m = 0x2000 \<and> ufault_va (ufault (mmu m)) = 0x2000)"
proof -
  have b: "user_buf wp_machine 0x1234 8" by (simp add: user_buf_def wp_machine_ok(3))
  obtain r m' where u: "ubuf_fault wp_machine 0x1234 8 True 0x2000 = (r, m')" by fastforce
  have r: "fst (ubuf_fault wp_machine 0x1234 8 True 0x2000) = False" by code_simp
  then have "\<not> r" using u by simp
  then have "\<forall>i<unat (8 :: u32). resident wp_machine (0x1234 + of_nat i)"
    using user_buffer_check[OF wp_machine_ok(1) b u] by blast
  then have "resident wp_machine (0x1234 + of_nat 4)" by (rule allE[of _ 4]) simp
  moreover have "let m = snd (ubuf_fault wp_machine 0x1FFC 8 True 0x2000) in pc m = 0x2000 \<and> ufault_va (ufault (mmu m)) = 0x2000"
    by code_simp
  ultimately show ?thesis using r by simp
qed

text \<open>A string read out of a process is the bytes from its address up to the first NUL, the first
  byte that is not resident or the end of the buffer, whichever comes first; and neither it nor a copy
  into a process leaves a fault behind, or takes one away, on any machine.\<close>

theorem user_copies:
  assumes "mmu_ok m" "\<forall>i<n - 1. user_va m (va + of_nat i)"
  shows "fst (uread_str m va n) = takeWhile (\<lambda>c. c \<noteq> 0)
      (map (\<lambda>i. rd8 m (uaddr m (va + of_nat i))) (takeWhile (\<lambda>i. resident m (va + of_nat i)) [0..<n - 1])) \<and>
    mem (snd (uread_str m va n)) = mem m \<and>
    ufault (mmu (snd (uread_str m va n))) = ufault (mmu m) \<and>
    (\<forall>m va src. ufault (mmu (snd (uwrite_mem m va src))) = ufault (mmu m))"
proof -
  obtain s m1 where r: "uread_bytes m va (n - 1) = (s, m1)" by fastforce
  have u: "\<And>i. i < n - 1 \<Longrightarrow> user_va m (va + of_nat i)" using assms(2) by blast
  note rs = uread_bytes_spec[OF assms(1) u r]
  then have "mem m1 = mem m" by (simp add: probed_def sameD)
  then show ?thesis
    using rs r by (simp add: uread_str_def uwrite_mem_def Let_def set_ufault_def split: prod.split)
qed

theorem user_copies_witness:
  "fst (uread_str (wr8 wp_machine 0x7234 65) 0x1234 2) = [65]"
proof -
  let ?m = "wr8 wp_machine 0x7234 65"
  have f: "tlb_flush ?m = ?m"
    by (simp add: wp_machine_def cow_machine_def machine0_def mmu0_def tlb_flush_def empty_ent_def)
  have "mmu_ok ?m" using tlb_ok_flush[of ?m] wp_machine_ok(1) by (simp add: f mmu_ok_def devmap_ok_def)
  moreover have "\<forall>i<2 - 1. user_va ?m (0x1234 + of_nat i)" using wp_machine_ok(3) by (simp add: user_va_def)
  ultimately have e: "fst (uread_str ?m 0x1234 2) = takeWhile (\<lambda>c. c \<noteq> 0)
      (map (\<lambda>i. rd8 ?m (uaddr ?m (0x1234 + of_nat i))) (takeWhile (\<lambda>i. resident ?m (0x1234 + of_nat i)) [0..<2 - 1]))"
    using user_copies[of ?m 2 "0x1234"] by blast
  have "resident ?m 0x1234" "rd8 ?m (uaddr ?m 0x1234) = 65" by code_simp+
  then show ?thesis unfolding e by simp
qed

text \<open>The copy into a process does not ask for write access: a byte goes straight into the frame the
  read translation finds, whatever the descriptor says, where a store of the process itself to a
  page marked write-protected raises the write fault (\<open>cow_store_faults\<close>).  On a page shared
  copy-on-write after a fork the other process sees the byte.\<close>

theorem user_write_ignores_protection:
  assumes "mmu_ok m" "translate_on (mmu m)" "user_va m va" "mode_apr m False AND 1 \<noteq> 0"
    and "mmu_lookup m (mode_apr m False) va = Some (pa, pd)" "pa \<noteq> 0" "\<not> xlat_write (mmu m)"
  shows "fst (uwrite_mem m va [b]) = 1 \<and> rd8 (snd (uwrite_mem m va [b])) pa = b \<and>
    ufault (mmu (snd (uwrite_mem m va [b]))) = ufault (mmu m)"
proof -
  let ?n = "set_pending m False"
  have s: "same_but_mmu m ?n" by simp
  have pd: "mmu_pd m (mode_apr m False) va = Some pd" using assms(5) by (simp add: mmu_pd_def)
  then have pa: "pa = (pd AND 0xFFFFF000) OR (va AND 0xFFF)"
    using assms(5) mmu_lookup_pd[of m "mode_apr m False" va] by simp
  have fb: "fb_frame m (mode_apr m False) va False = Some (pd AND 0xFFFFF000, pd)" by (simp add: fb_frame_def pd)
  have "xlat_spec ?n va False = (pa, ufault (mmu ?n))"
    using assms(2,3,4,7) sameD(16)[OF s] by (simp add: xlat_user user_spec_def same_entries[OF s] fb pa Let_def)
  then have r: "resident m va" "uaddr m va = pa" using assms(6) by (simp_all add: resident_def uaddr_def)
  obtain q m1 where p: "probe m va = (q, m1)" by fastforce
  have q: "q = Some pa" using probe_spec(2)[OF assms(1) p] r by simp
  have "uwrite_bytes m va [b] = (1, wr8 m1 pa b)" using p q by simp
  then have "uwrite_mem m va [b] = (1, set_ufault (wr8 m1 pa b) (ufault (mmu m)))" by (simp add: uwrite_mem_def)
  then show ?thesis using mem8.get_put_same[of "mem m1" pa b] by (simp add: set_ufault_def)
qed

theorem user_write_ignores_protection_witness:
  "0x7005 AND PTE_WP \<noteq> 0 \<and> mmu_lookup wp_machine 0x5001 0x1234 = Some (0x7234, 0x7005) \<and>
   rd8 (snd (uwrite_mem wp_machine 0x1234 [65])) 0x7234 = 65"
  using user_write_ignores_protection[of wp_machine "0x1234" "0x7234" "0x7005" 65] wp_machine_ok
  by (simp add: user_va_def)

end
