(* ===== verification/Usermode.thy ===== *)
theory Usermode
  imports Step
begin

text \<open>
  Running one program with no kernel (\<^verbatim>\<open>usermode.c\<close>) and the a.out header it starts from
  (\<^verbatim>\<open>aout.c\<close>): the system calls answered by the emulator itself, the argument stack, and the loop
  that steps the processor until the program exits.

  The host's files are byte lists named by paths, an open one is its bytes and a position, and
  \<open>time\<close> is a value.  \<open>do_syscall\<close> is \<open>None\<close> where its recursion does not end and \<open>Overrun\<close> where
  it stores past the descriptor table; \<open>run_loop\<close> is \<open>None\<close> where the program runs for ever.
\<close>

section \<open>The executable\<close>

record aout =
  ao_magic :: u32
  ao_text :: u32
  ao_data :: u32
  ao_bss :: u32
  ao_syms :: u32
  ao_entry :: u32
  ao_trsize :: u32
  ao_drsize :: u32
  ao_img :: "u8 list"

definition be32_at :: "u8 list \<Rightarrow> nat \<Rightarrow> u32" where
  "be32_at l p = be32 (l ! p) (l ! (p + 1)) (l ! (p + 2)) (l ! (p + 3))"

text \<open>\<open>aout_load_mem\<close>, and \<open>aout_load\<close> after it has read the file, are \<open>aout_parse\<close> of the image;
  \<open>None\<close> is the return of -1.\<close>

definition aout_parse :: "u8 list \<Rightarrow> aout option" where
  "aout_parse img =
     (if length img < 32 then None
      else
        let a = \<lparr>ao_magic = be32_at img 0, ao_text = be32_at img 4, ao_data = be32_at img 8,
                 ao_bss = be32_at img 12, ao_syms = be32_at img 16, ao_entry = be32_at img 20,
                 ao_trsize = be32_at img 24, ao_drsize = be32_at img 28, ao_img = img\<rparr>
        in if ao_magic a AND 0xFFFF = 0x010B then Some a else None)"

type_synonym host_fs = "u8 list \<Rightarrow> u8 list option"

definition aout_load :: "host_fs \<Rightarrow> u8 list \<Rightarrow> aout option" where
  "aout_load fs path = (case fs path of None \<Rightarrow> None | Some img \<Rightarrow> aout_parse img)"

definition aout_load_mem :: "u8 list \<Rightarrow> aout option" where
  "aout_load_mem img = aout_parse img"

section \<open>System calls\<close>

record user =
  u_fds :: "u32 \<Rightarrow> (u8 list \<times> nat) option"   \<comment> \<open>\<open>FILE *fds[64]\<close>\<close>
  u_next_fd :: nat
  u_exited :: u32                             \<comment> \<open>an \<open>int\<close>, -1 while the program runs\<close>
  u_err :: u32                                \<comment> \<open>\<open>sys_err\<close>\<close>
  u_stdout :: "u8 list"
  u_stderr :: "u8 list"

text \<open>What the host supplies: its files and the seconds \<open>time\<close> gives.\<close>

record host =
  h_fs :: host_fs
  h_time :: u32

definition u_put :: "bool \<Rightarrow> u8 list \<Rightarrow> user \<Rightarrow> user" where
  "u_put to_out bs u =
     (if to_out then u\<lparr>u_stdout := u_stdout u @ bs\<rparr> else u\<lparr>u_stderr := u_stderr u @ bs\<rparr>)"

definition mem_bytes :: "machine \<Rightarrow> u32 \<Rightarrow> nat \<Rightarrow> u8 list" where
  "mem_bytes m a n = map (\<lambda>i. rd8 m (a + of_nat i)) [0..<n]"

definition user_file :: "user \<Rightarrow> u32 \<Rightarrow> (u8 list \<times> nat) option" where
  "user_file u fd = (if fd < 64 then u_fds u fd else None)"

definition sys_read :: "machine \<Rightarrow> user \<Rightarrow> u32 \<Rightarrow> u32 \<Rightarrow> u32 \<Rightarrow> u32 \<times> machine \<times> user" where
  "sys_read m u a0 a1 a2 =
     (case user_file u a0 of
        None \<Rightarrow> (0, m, u)
      | Some (f, pos) \<Rightarrow>
          (let k = (if a2 > 65536 then 65536 else unat a2); got = take k (drop pos f)
           in (of_nat (length got), m\<lparr>mem := mem_load (mem m) a1 got\<rparr>,
               u\<lparr>u_fds := (u_fds u)(a0 \<mapsto> (f, pos + length got))\<rparr>)))"

definition sys_open :: "host \<Rightarrow> machine \<Rightarrow> user \<Rightarrow> u32 \<Rightarrow> (u32 \<times> user) c_result" where
  "sys_open h m u a0 =
     (case h_fs h (mem_cstr (mem m) a0 512) of
        None \<Rightarrow> Ok (0, u\<lparr>u_err := 2\<rparr>)
      | Some f \<Rightarrow>
          if u_next_fd u \<ge> 64 then Overrun
          else Ok (of_nat (u_next_fd u),
                   u\<lparr>u_fds := (u_fds u)(of_nat (u_next_fd u) \<mapsto> (f, 0)), u_next_fd := u_next_fd u + 1\<rparr>))"

definition sys_lseek :: "user \<Rightarrow> u32 \<Rightarrow> u32 \<Rightarrow> u32 \<Rightarrow> u32 \<times> user" where
  "sys_lseek u a0 a1 whence =
     (case user_file u a0 of
        None \<Rightarrow> (0, u)
      | Some (f, pos) \<Rightarrow>
          (let p = (if whence = 0 then unat a1 else if whence = 1 then pos + unat a1
                    else if whence = 2 then length f + unat a1 else pos)
           in (of_nat p, u\<lparr>u_fds := (u_fds u)(a0 \<mapsto> (f, p))\<rparr>)))"

definition sys_gettimeofday :: "host \<Rightarrow> machine \<Rightarrow> u32 \<Rightarrow> u32 \<Rightarrow> machine" where
  "sys_gettimeofday h m a0 a1 =
     (let m = wr32 m a0 (h_time h); m = wr32 m (a0 + 4) 0
      in if a1 \<noteq> 0 then wr32 (wr32 m a1 0) (a1 + 4) 0 else m)"

text \<open>The pieces of a writev, and their total length in 32 bits.\<close>

definition iovecs :: "machine \<Rightarrow> u32 \<Rightarrow> nat \<Rightarrow> (u32 \<times> u32) list" where
  "iovecs m a n = map (\<lambda>i. (rd32 m (a + 8 * of_nat i), rd32 m (a + 8 * of_nat i + 4))) [0..<n]"

definition sys_writev :: "machine \<Rightarrow> user \<Rightarrow> u32 \<Rightarrow> u32 \<Rightarrow> u32 \<Rightarrow> u32 \<times> user" where
  "sys_writev m u a0 a1 a2 =
     (let vs = iovecs m a1 (unat a2)
      in (sum_list (map snd vs),
          u_put (a0 = 1) (concat (map (\<lambda>(base, len). mem_bytes m base (unat len)) vs)) u))"

text \<open>The result of a call that is neither \<open>indir\<close> nor \<open>exit\<close>.\<close>

definition sys_dispatch :: "host \<Rightarrow> machine \<Rightarrow> user \<Rightarrow> u32 \<Rightarrow> (u32 \<times> machine \<times> user) c_result" where
  "sys_dispatch h m u n =
     (let a0 = RD m 2; a1 = RD m 3; a2 = RD m 4; a3 = RD m 5 in
      if n = 3 then Ok (sys_read m u a0 a1 a2)
      else if n = 4 then Ok (a2, m, u_put (a0 = 1) (mem_bytes m a1 (unat a2)) u)
      else if n = 5 then
        (case sys_open h m u a0 of Ok (ret, u) \<Rightarrow> Ok (ret, m, u) | Fail \<Rightarrow> Fail | Overrun \<Rightarrow> Overrun)
      else if n = 6 then
        Ok (0, m, if a0 < 64 then u\<lparr>u_fds := (u_fds u)(a0 := None)\<rparr> else u)
      else if n = 19 then (let (ret, u) = sys_lseek u a0 a1 a3 in Ok (ret, m, u))
      else if n = 20 \<or> n = 39 then Ok (4242, m, u)
      else if n = 64 then Ok (4096, m, u)
      else if n = 115 \<or> n = 116 then Ok (0, sys_gettimeofday h m a0 a1, u)
      else if n = 121 then (let (ret, u) = sys_writev m u a0 a1 a2 in Ok (ret, m, u))
      else if n \<in> {38, 139, 62, 187, 188, 189} then Ok (0, m\<lparr>mem := mem_zero (mem m) a1 64\<rparr>, u)
      else Ok (0, m, u))"

text \<open>\<open>indir\<close> takes the number from the first argument and moves the others down.\<close>

definition sys_shift :: "machine \<Rightarrow> machine" where
  "sys_shift m =
     (let c = cpu m;
          r = (cpu_r c)(9 := RD m 2);
          r = r(2 := RD m 3, 3 := RD m 4, 4 := RD m 5, 5 := RD m 6)
      in m\<lparr>cpu := c\<lparr>cpu_r := r\<rparr>\<rparr>)"

partial_function (option) do_syscall :: "host \<Rightarrow> machine \<Rightarrow> user \<Rightarrow> (machine \<times> user) c_result option" where
  "do_syscall h m u =
     (let u = u\<lparr>u_err := 0\<rparr>; n = RD m 9 in
      if n = 0 then do_syscall h (sys_shift m) u
      else if n = 1 then Some (Ok (m, u\<lparr>u_exited := RD m 2\<rparr>))
      else Some (case sys_dispatch h m u n of
          Ok (ret, m, u) \<Rightarrow> Ok (WR m 2 (if u_err u \<noteq> 0 then u_err u else ret), u)
        | Fail \<Rightarrow> Fail
        | Overrun \<Rightarrow> Overrun))"

section \<open>The argument stack\<close>

abbreviation (input) STACK_TOP :: u32 where "STACK_TOP \<equiv> 0x7FFF0000"
abbreviation (input) HDR_PAGE :: nat where "HDR_PAGE \<equiv> 8192"

text \<open>The strings, pushed one below the other; the pointers are those of \<open>ptr\<close>, in order.\<close>

fun push_args :: "mem_state \<Rightarrow> u32 \<Rightarrow> u8 list list \<Rightarrow> u32 list \<times> mem_state \<times> u32" where
  "push_args m sp [] = ([], m, sp)"
| "push_args m sp (s # ss) =
     (let sp = sp - of_nat (length s + 1);
          m = mem_load m sp (s @ [0]);
          (ps, m, low) = push_args m sp ss
      in (sp # ps, m, low))"

fun put_words :: "mem_state \<Rightarrow> u32 \<Rightarrow> u32 list \<Rightarrow> mem_state" where
  "put_words m a [] = m"
| "put_words m a (w # ws) = put_words (mem_w32 m a w) (a + 4) ws"

definition build_stack :: "mem_state \<Rightarrow> u8 list list \<Rightarrow> (u32 \<times> mem_state) c_result" where
  "build_stack m argv =
     (if length argv > 64 then Overrun
      else
        let (ptr, m, sp) = push_args m STACK_TOP argv;
            sp = sp AND NOT 7;
            nwords = 1 + of_nat (length argv) + 1;
            sp = sp - 4 * nwords;
            sp = sp AND NOT 7;
            m = mem_w32 m sp (of_nat (length argv));
            m = put_words m (sp + 4) ptr
        in Ok (sp, mem_w32 m (sp + 4 + 4 * of_nat (length argv)) 0))"

section \<open>The run\<close>

datatype run_end = Exited | Trap_end | Limit_end

text \<open>The loop of \<open>run_user\<close>: a \<open>tb0 0,r0,128\<close> is a system call, any other trap ends the run.\<close>

partial_function (option) run_loop :: "host \<Rightarrow> machine \<Rightarrow> user \<Rightarrow> u64 \<Rightarrow> (run_end \<times> machine \<times> user) c_result option" where
  "run_loop h m u limit =
     (if \<not> cpu_count (cpu m) < limit then Some (Ok (Limit_end, m, u))
      else
        (case step m of
           NoStep \<Rightarrow> None
         | Running m \<Rightarrow> run_loop h m u limit
         | Trapped m \<Rightarrow>
             if trap_vector m \<noteq> 128 then Some (Ok (Trap_end, m, u))
             else
               (case do_syscall h m u of
                  None \<Rightarrow> None
                | Some Fail \<Rightarrow> Some Fail
                | Some Overrun \<Rightarrow> Some Overrun
                | Some (Ok (m, u)) \<Rightarrow>
                    if 0 \<le> sint (u_exited u) then Some (Ok (Exited, m, u))
                    else
                      (let m = set_pc m (trap_pc m + (if u_err u \<noteq> 0 then 4 else 8))
                       in run_loop h (m\<lparr>trap_taken := False\<rparr>) u limit))))"

text \<open>Placing text, data and bss; the copies read past the image where its header claims too much.\<close>

definition load_program :: "machine \<Rightarrow> aout \<Rightarrow> machine c_result" where
  "load_program m a =
     (let text = unat (ao_text a); data = unat (ao_data a) in
      if HDR_PAGE + text + data > length (ao_img a) then Overrun
      else
        (let dv = (ao_text a + 4095) AND NOT 4095;
             mm = mem_load (mem m) 0 (take text (drop HDR_PAGE (ao_img a)));
             mm = mem_load mm dv (take data (drop (HDR_PAGE + text) (ao_img a)));
             mm = mem_zero mm (dv + ao_data a) (unat (ao_bss a))
         in Ok (m\<lparr>mem := mm\<rparr>)))"

definition run_user ::
  "host \<Rightarrow> machine \<Rightarrow> user \<Rightarrow> u8 list \<Rightarrow> u8 list list \<Rightarrow> u64 \<Rightarrow> (run_end \<times> machine \<times> user) c_result option"
where
  "run_user h m u path argv limit =
     (case aout_load (h_fs h) path of
        None \<Rightarrow> Some Fail
      | Some a \<Rightarrow>
          (case load_program m a of
             Fail \<Rightarrow> Some Fail
           | Overrun \<Rightarrow> Some Overrun
           | Ok m \<Rightarrow>
               let m = set_pc (m\<lparr>cpu := cpu0\<rparr>) (ao_entry a) in
               (case build_stack (mem m) argv of
                  Fail \<Rightarrow> Some Fail
                | Overrun \<Rightarrow> Some Overrun
                | Ok (sp, mm) \<Rightarrow> run_loop h (WR (m\<lparr>mem := mm\<rparr>) 31 sp) u limit)))"

section \<open>The recursion of \<open>indir\<close>\<close>

lemma do_syscall_shift: "RD m 9 = 0 \<Longrightarrow> do_syscall h m u = do_syscall h (sys_shift m) (u\<lparr>u_err := 0\<rparr>)"
  by (subst do_syscall.simps) simp

lemma do_syscall_direct: "RD m 9 \<noteq> 0 \<Longrightarrow> do_syscall h m u \<noteq> None"
  by (subst do_syscall.simps) (simp add: Let_def)

lemma sys_shift_regs:
  "RD (sys_shift m) 9 = RD m 2" "RD (sys_shift m) 2 = RD m 3" "RD (sys_shift m) 3 = RD m 4"
  "RD (sys_shift m) 4 = RD m 5" "RD (sys_shift m) 5 = RD m 6" "RD (sys_shift m) 6 = RD m 6"
  by (simp_all add: sys_shift_def RD_def Let_def)

text \<open>The words \<open>indir\<close> can find a number in.\<close>

definition indir_regs :: "machine \<Rightarrow> u32 list" where
  "indir_regs m = [RD m 9, RD m 2, RD m 3, RD m 4, RD m 5, RD m 6]"

lemma do_syscall_diverges:
  assumes "do_syscall h m u = Some r"
  shows "\<exists>x\<in>set (indir_regs m). x \<noteq> 0"
proof (rule do_syscall.raw_induct[OF _ assms, where P = "\<lambda>h m u r. \<exists>x\<in>set (indir_regs m). x \<noteq> 0"])
  fix ds h m u r
  assume ih: "\<And>h m u r. ds h m u = Some r \<Longrightarrow> \<exists>x\<in>set (indir_regs m). x \<noteq> 0"
    and s: "(let u = u\<lparr>u_err := 0\<rparr>; n = RD m 9 in
      if n = 0 then ds h (sys_shift m) u
      else if n = 1 then Some (Ok (m, u\<lparr>u_exited := RD m 2\<rparr>))
      else Some (case sys_dispatch h m u n of
          Ok (ret, m, u) \<Rightarrow> Ok (WR m 2 (if u_err u \<noteq> 0 then u_err u else ret), u)
        | Fail \<Rightarrow> Fail | Overrun \<Rightarrow> Overrun)) = Some r"
  show "\<exists>x\<in>set (indir_regs m). x \<noteq> 0"
  proof (cases "RD m 9 = 0")
    case True
    then have "ds h (sys_shift m) (u\<lparr>u_err := 0\<rparr>) = Some r" using s by (simp add: Let_def)
    from ih[OF this] show ?thesis by (auto simp: indir_regs_def sys_shift_regs)
  qed (simp add: indir_regs_def)
qed

lemma do_syscall_ends:
  assumes "\<exists>x\<in>set (indir_regs m). x \<noteq> 0"
  shows "do_syscall h m u \<noteq> None"
proof -
  note d = do_syscall_direct and s = do_syscall_shift sys_shift_regs
  have 1: "do_syscall h m u \<noteq> None" if "RD m 2 \<noteq> 0" for m u
    using d s that by (cases "RD m 9 = 0") simp_all
  have 2: "do_syscall h m u \<noteq> None" if "RD m 3 \<noteq> 0" for m u
    using d 1 s that by (cases "RD m 9 = 0") simp_all
  have 3: "do_syscall h m u \<noteq> None" if "RD m 4 \<noteq> 0" for m u
    using d 2 s that by (cases "RD m 9 = 0") simp_all
  have 4: "do_syscall h m u \<noteq> None" if "RD m 5 \<noteq> 0" for m u
    using d 3 s that by (cases "RD m 9 = 0") simp_all
  have 5: "do_syscall h m u \<noteq> None" if "RD m 6 \<noteq> 0" for m u
    using d 4 s that by (cases "RD m 9 = 0") simp_all
  show ?thesis using assms d 1 2 3 4 5 by (auto simp: indir_regs_def)
qed

section \<open>The run loop\<close>

text \<open>The machine as \<open>run_user\<close> leaves it: no kernel, no translation, no fault.\<close>

definition user_ok :: "machine \<Rightarrow> bool" where
  "user_ok m \<longleftrightarrow> \<not> sysmode m \<and> \<not> realmm (mem m) \<and> \<not> translate_on (mmu m) \<and> \<not> fault_pending m"

lemma memop_user:
  assumes "memop m sub D ea = Some m'" "\<not> translate_on (mmu m)" "\<not> fault_pending m"
  shows "still m m'"
proof -
  have t: "translate (set_xlat_write m b) ea False = (ea, set_xlat_write m b)" for b
    using assms(2) by (simp add: translate_def set_xlat_write_def)
  have x: "set_xlat_write (set_xlat_write m b) False = set_xlat_write m False"
    "\<not> fault_pending (set_xlat_write m False)" "still m (set_xlat_write m False)" for b
    using assms(3) by (simp_all add: set_xlat_write_def still_def ctl_def)
  have s: "still m n" if "still (set_xlat_write m False) n" for n using still_trans[OF x(3) that] .
  show ?thesis
    using assms(1) x(2) still_memop_sha[THEN s] still_memop_timer[THEN s] still_memop_access[THEN s] s[OF still_refl]
    unfolding memop_def Let_def t prod.case x(1)
    by (auto split: option.splits if_splits)
qed

lemma exec_user:
  assumes "exec m w = Done m' br t d" "user_ok m"
  shows "user_ok m'" "cpu_count (cpu m') = cpu_count (cpu m)"
proof -
  have u: "\<not> sysmode m" "\<not> realmm (mem m)" "\<not> translate_on (mmu m)" "\<not> fault_pending m"
    using assms(2) by (simp_all add: user_ok_def)
  have f: "sysmode m' = sysmode m" "realmm (mem m') = realmm (mem m)"
    using fixed_exec[OF assms(1)] by (simp_all add: fixed_def)
  have "(translate_on (mmu m') = translate_on (mmu m) \<and> ufault (mmu m') = ufault (mmu m) \<and> ctl m' = ctl m)"
    using exec_cases[OF assms(1)] memop_user[OF _ u(3,4)] by (auto simp: still_def regs_only_def)
  then show "user_ok m'" "cpu_count (cpu m') = cpu_count (cpu m)" using u f by (simp_all add: user_ok_def ctl_def)
qed

lemma user_ok_upd [simp]:
  "user_ok (m\<lparr>cpu := c\<rparr>) = user_ok m" "user_ok (m\<lparr>trap_taken := b\<rparr>) = user_ok m"
  "user_ok (m\<lparr>trap_taken := b, trap_vector := v, trap_pc := p\<rparr>) = user_ok m"
  "user_ok (set_pc m a) = user_ok m" "user_ok (count_insn m) = user_ok m" "user_ok (sequence m br t d) = user_ok m"
  "user_ok (WR m n v) = user_ok m"
  by (simp_all add: user_ok_def count_insn_def sequence_def Let_def)

text \<open>Each step of a user-mode machine counts one instruction.\<close>

lemma step_user:
  assumes "user_ok m"
  shows "step m = Running m' \<Longrightarrow> user_ok m' \<and> cpu_count (cpu m') = cpu_count (cpu m) + 1"
    and "step m = Trapped m' \<Longrightarrow> user_ok m' \<and> cpu_count (cpu m') = cpu_count (cpu m) + 1"
proof -
  have u: "\<not> sysmode m" "\<not> realmm (mem m)" "\<not> translate_on (mmu m)" "\<not> fault_pending m"
    using assms by (simp_all add: user_ok_def)
  have s: "step m = run_insn m (rd32 m (pc m))"
    using user_step_pure[OF u(1,2)] u(3,4) by (simp add: fetch_and_run_def translate_def)
  let ?w = "rd32 m (pc m)" let ?c = "count_insn m"
  have c: "user_ok ?c" "cpu_count (cpu ?c) = cpu_count (cpu m) + 1" using assms by simp (simp add: count_insn_def)
  have seq: "cpu_count (cpu (sequence n br t d)) = cpu_count (cpu n)" for n br t d
    by (simp add: sequence_def Let_def)
  show "user_ok m' \<and> cpu_count (cpu m') = cpu_count (cpu m) + 1" if "step m = Running m'"
    using that exec_user[of ?c ?w] c seq unfolding s run_insn_def take_trap_def
    by (auto split: insn_result.splits if_splits)
  show "user_ok m' \<and> cpu_count (cpu m') = cpu_count (cpu m) + 1" if "step m = Trapped m'"
    using that exec_trap[of ?c ?w] c unfolding s run_insn_def take_trap_def
    by (auto split: insn_result.splits if_splits simp: trap_of_def)
qed

text \<open>A system call changes memory, registers and the program's files only.\<close>

definition call_keeps :: "machine \<Rightarrow> machine \<Rightarrow> bool" where
  "call_keeps m m' \<longleftrightarrow> cpu_count (cpu m') = cpu_count (cpu m) \<and> (user_ok m \<longrightarrow> user_ok m')"

lemma call_keeps_simps [simp]:
  "call_keeps m m" "call_keeps m (WR n k v) = call_keeps m n" "call_keeps m (sys_shift n) = call_keeps m n"
  "realmm x = realmm (mem n) \<Longrightarrow> call_keeps m (n\<lparr>mem := x\<rparr>) = call_keeps m n"
  by (auto simp: call_keeps_def sys_shift_def Let_def user_ok_def)

lemma call_keeps_shift: "call_keeps (sys_shift m) m' \<Longrightarrow> call_keeps m m'"
  by (auto simp: call_keeps_def sys_shift_def Let_def)

lemma sys_dispatch_keeps: "sys_dispatch h m u n = Ok (ret, m', u') \<Longrightarrow> call_keeps m m'"
  by (auto simp: sys_dispatch_def Let_def sys_read_def sys_gettimeofday_def
      split: if_splits option.splits prod.splits c_result.splits)

lemma do_syscall_keeps:
  assumes "do_syscall h m u = Some (Ok (m', u'))"
  shows "call_keeps m m'"
proof -
  have "r = Ok (m', u') \<longrightarrow> call_keeps m m'" if "do_syscall h m u = Some r" for r
  proof (rule do_syscall.raw_induct[OF _ that, where P = "\<lambda>h m u r. r = Ok (m', u') \<longrightarrow> call_keeps m m'"])
    fix ds h m u r
    assume ih: "\<And>h m u r. ds h m u = Some r \<Longrightarrow> r = Ok (m', u') \<longrightarrow> call_keeps m m'"
      and s: "(let u = u\<lparr>u_err := 0\<rparr>; n = RD m 9 in
        if n = 0 then ds h (sys_shift m) u
        else if n = 1 then Some (Ok (m, u\<lparr>u_exited := RD m 2\<rparr>))
        else Some (case sys_dispatch h m u n of
            Ok (ret, m, u) \<Rightarrow> Ok (WR m 2 (if u_err u \<noteq> 0 then u_err u else ret), u)
          | Fail \<Rightarrow> Fail | Overrun \<Rightarrow> Overrun)) = Some r"
    show "r = Ok (m', u') \<longrightarrow> call_keeps m m'"
    proof (cases "RD m 9 = 0")
      case True
      then have "ds h (sys_shift m) (u\<lparr>u_err := 0\<rparr>) = Some r" using s by (simp add: Let_def)
      from ih[OF this] show ?thesis using call_keeps_shift by blast
    next
      case False
      then show ?thesis using s sys_dispatch_keeps[of h m]
        by (auto simp: Let_def split: if_splits c_result.splits)
    qed
  qed
  with assms show ?thesis by blast
qed

text \<open>The states the loop goes through.\<close>

inductive loop_reaches :: "host \<Rightarrow> machine \<Rightarrow> user \<Rightarrow> machine \<Rightarrow> user \<Rightarrow> bool" where
  reach_start: "loop_reaches h m u m u"
| reach_insn: "step m = Running m1 \<Longrightarrow> loop_reaches h m1 u m' u' \<Longrightarrow> loop_reaches h m u m' u'"
| reach_call: "step m = Trapped m1 \<Longrightarrow> trap_vector m1 = 128 \<Longrightarrow> do_syscall h m1 u = Some (Ok (m2, u2)) \<Longrightarrow>
    loop_reaches h ((set_pc m2 (trap_pc m2 + (if u_err u2 \<noteq> 0 then 4 else 8)))\<lparr>trap_taken := False\<rparr>) u2 m' u' \<Longrightarrow>
    loop_reaches h m u m' u'"

text \<open>Where the loop cannot go on: an instruction C gives no meaning to, or the endless system call.\<close>

definition stuck :: "machine \<Rightarrow> bool" where
  "stuck m \<longleftrightarrow> (case step m of NoStep \<Rightarrow> True | Running _ \<Rightarrow> False
     | Trapped m1 \<Rightarrow> trap_vector m1 = 128 \<and> (\<forall>x\<in>set (indir_regs m1). x = 0))"

lemma left_less:
  assumes "count < limit"
  shows "unat (limit - (count + 1)) < unat (limit - (count :: u64))"
proof -
  have "count + 1 \<le> limit" using assms by (simp add: inc_le)
  moreover have "unat (count + 1) = unat count + 1"
  proof -
    have "unat count + unat (1 :: u64) < 2 ^ LENGTH(64)"
      using assms unsigned_less[where w = limit and 'a = nat] by (simp add: word_less_nat_alt)
    then have "unat (count + 1) = unat count + unat (1 :: u64)" by (simp only: unat_add_lem)
    then show ?thesis by simp
  qed
  ultimately show ?thesis using assms by (simp add: unat_sub word_less_nat_alt word_le_nat_alt)
qed

lemma run_loop_stuck:
  assumes "user_ok m" "run_loop h m u limit = None"
  shows "\<exists>m' u'. loop_reaches h m u m' u' \<and> cpu_count (cpu m') < limit \<and> stuck m'"
  using assms
proof (induction "unat (limit - cpu_count (cpu m))" arbitrary: m u rule: less_induct)
  case less
  note r = less.prems(2)[unfolded run_loop.simps[of h m u limit]]
  have lt: "cpu_count (cpu m) < limit" using r by (auto split: if_splits)
  have go: "\<exists>m' u'. loop_reaches h n v m' u' \<and> cpu_count (cpu m') < limit \<and> stuck m'"
    if "user_ok n" "cpu_count (cpu n) = cpu_count (cpu m) + 1" "run_loop h n v limit = None" for n v
    using less.hyps[OF _ that(1,3)] left_less[OF lt] that(2) by simp
  show ?case
  proof (cases "step m")
    case (Running m1)
    then have "run_loop h m1 u limit = None" using r lt by simp
    from go[OF _ _ this] step_user(1)[OF less.prems(1) Running] show ?thesis
      using reach_insn[OF Running] by blast
  next
    case (Trapped m1)
    note t = step_user(2)[OF less.prems(1) Trapped]
    have v: "trap_vector m1 = 128" using r lt Trapped by (auto split: if_splits)
    show ?thesis
    proof (cases "do_syscall h m1 u")
      case None
      then have "stuck m" using do_syscall_ends[of m1 h u] Trapped v by (auto simp: stuck_def)
      then show ?thesis using lt reach_start by blast
    next
      case (Some res)
      then obtain m2 u2 where d: "do_syscall h m1 u = Some (Ok (m2, u2))" "\<not> 0 \<le> sint (u_exited u2)"
        using r lt Trapped v by (cases res) (auto split: if_splits)
      let ?n = "(set_pc m2 (trap_pc m2 + (if u_err u2 \<noteq> 0 then 4 else 8)))\<lparr>trap_taken := False\<rparr>"
      have "run_loop h ?n u2 limit = None" using r lt Trapped v d by (simp add: Let_def)
      moreover have "user_ok ?n" "cpu_count (cpu ?n) = cpu_count (cpu m) + 1"
        using do_syscall_keeps[OF d(1)] t by (simp_all add: call_keeps_def set_pc_def)
      ultimately show ?thesis using go[of ?n u2] reach_call[OF Trapped v d(1)] by blast
    qed
  next
    case NoStep
    then have "stuck m" by (simp add: stuck_def)
    then show ?thesis using lt reach_start by blast
  qed
qed

section \<open>The stack in memory\<close>

text \<open>The lower half of the address space is not folded.\<close>

lemma cphys_low: "unat a < 0x80000000 \<Longrightarrow> cphys m a = a"
  by (simp add: word_unat_eq_iff unat_cphys)

lemma unat_plus_low:
  "unat a + n < 0x80000000 \<Longrightarrow> unat (a + of_nat n :: u32) = unat a + n"
  by (subst unat_add_small) (simp_all add: unat_of_nat_small)

lemma unat_minus_low: "n \<le> unat a \<Longrightarrow> n < 0x80000000 \<Longrightarrow> unat (a - of_nat n :: u32) = unat a - n"
  by (subst unat_sub) (simp_all add: word_le_nat_alt unat_of_nat_small)

lemma load_low:
  assumes "unat a + length bs < 0x80000000" "unat b < 0x80000000"
  shows "mem_r8 (mem_load m a bs) b =
    (if unat a \<le> unat b \<and> unat b < unat a + length bs then bs ! (unat b - unat a) else mem_r8 m b)"
proof -
  have c: "cphys m (a + of_nat i) = a + of_nat i" if "i < length bs" for i
    using that assms(1) by (intro cphys_low) (simp add: unat_plus_low)
  show ?thesis
  proof (cases "unat a \<le> unat b \<and> unat b < unat a + length bs")
    case True
    let ?i = "unat b - unat a"
    have i: "?i < length bs" using True by linarith
    have "unat (a + of_nat ?i) = unat b" using True assms(2) by (subst unat_plus_low) simp_all
    then have b: "b = a + of_nat ?i" by (simp only: word_unat_eq_iff)
    have "inj_on (\<lambda>i. cphys m (a + of_nat i)) {..<length bs}"
    proof (rule inj_onI)
      fix i j assume "i \<in> {..<length bs}" "j \<in> {..<length bs}" "cphys m (a + of_nat i) = cphys m (a + of_nat j)"
      then have "unat (a + of_nat i) = unat (a + of_nat j)" "i < length bs" "j < length bs" using c by simp_all
      then show "i = j" using assms(1) by (simp add: unat_plus_low)
    qed
    from mem_load_read[OF this i] have "mem_r8 (mem_load m a bs) b = bs ! ?i" by (simp only: b[symmetric])
    then show ?thesis using True by simp
  next
    case False
    have "cphys m (a + of_nat i) \<noteq> cphys m b" if "i < length bs" for i
    proof
      assume "cphys m (a + of_nat i) = cphys m b"
      then have "unat (a + of_nat i) = unat b" using c[OF that] cphys_low[OF assms(2)] by simp
      then show False using False that assms(1) by (simp add: unat_plus_low)
    qed
    then show ?thesis using False by (auto simp: mem_load_other)
  qed
qed

text \<open>Reading back a string and its terminator.\<close>

lemma cstr_read:
  assumes "\<And>j. j < length s \<Longrightarrow> mem_r8 m (p + of_nat j) = s ! j" "0 \<notin> set s"
  shows "mem_cstr_upto m p (length s) = s"
  using assms
proof (induction s arbitrary: p)
  case (Cons c s)
  have "mem_cstr_upto m (p + 1) (length s) = s"
  proof (rule Cons.IH)
    fix j assume "j < length s"
    then show "mem_r8 m (p + 1 + of_nat j) = s ! j" using Cons.prems(1)[of "Suc j"] by (simp add: add.assoc)
  qed (use Cons.prems(2) in simp)
  then show ?case using Cons.prems(1)[of 0] Cons.prems(2) by (auto simp: Let_def)
qed simp

abbreviation args_size :: "u8 list list \<Rightarrow> nat" where
  "args_size ss \<equiv> sum_list (map (\<lambda>s. length s + 1) ss)"

lemma push_args_spec:
  "\<lbrakk>args_size ss \<le> unat sp; unat sp \<le> 0x7FFF0000; push_args m sp ss = (ps, m', low)\<rbrakk> \<Longrightarrow>
   length ps = length ss \<and> unat low = unat sp - args_size ss \<and>
   (\<forall>b. unat b < 0x80000000 \<longrightarrow> unat b < unat low \<or> unat sp \<le> unat b \<longrightarrow> mem_r8 m' b = mem_r8 m b) \<and>
   (\<forall>i<length ss. unat low \<le> unat (ps ! i) \<and> unat (ps ! i) + length (ss ! i) < unat sp \<and>
      (\<forall>j<length (ss ! i). mem_r8 m' (ps ! i + of_nat j) = ss ! i ! j))"
proof (induction ss arbitrary: m sp ps m' low)
  case (Cons s ss)
  let ?sp = "sp - of_nat (length s + 1)" let ?m = "mem_load m ?sp (s @ [0])"
  obtain qs where r: "push_args ?m ?sp ss = (qs, m', low)" and ps: "ps = ?sp # qs"
    using Cons.prems(3) by (auto simp: Let_def split: prod.splits)
  have sp: "unat ?sp = unat sp - (length s + 1)" using Cons.prems(1,2) by (intro unat_minus_low) auto
  have le: "args_size ss \<le> unat ?sp" using Cons.prems(1) unfolding sp by simp
  note ih = Cons.IH[OF le _ r]
  have sple: "unat ?sp \<le> 0x7FFF0000" using Cons.prems(2) sp by simp
  have ll: "unat ?sp + length (s @ [0]) < 0x80000000" using Cons.prems(1,2) sp by simp
  note l = load_low[OF ll]
  have 0: "unat low \<le> unat ?sp" "unat ?sp + length s < unat sp" using ih[OF sple] Cons.prems(1) sp by simp_all
  have str: "mem_r8 m' (?sp + of_nat j) = s ! j" if "j < length s" for j
  proof -
    have u: "unat (?sp + of_nat j) = unat ?sp + j" using that ll by (intro unat_plus_low) simp
    then have "mem_r8 m' (?sp + of_nat j) = mem_r8 ?m (?sp + of_nat j)" using ih[OF sple] ll that by simp
    also have "\<dots> = (s @ [0]) ! j" using l[of "?sp + of_nat j" m] u ll that by simp
    finally show ?thesis using that by (simp add: nth_append)
  qed
  have fr: "mem_r8 m' b = mem_r8 m b"
    if "unat b < 0x80000000" "unat b < unat low \<or> unat sp \<le> unat b" for b
    using ih[OF sple] l[OF that(1), of m] that 0 sp Cons.prems(1) by auto
  have all: "\<forall>i<length (s # ss). unat low \<le> unat (ps ! i) \<and> unat (ps ! i) + length ((s # ss) ! i) < unat sp \<and>
      (\<forall>j<length ((s # ss) ! i). mem_r8 m' (ps ! i + of_nat j) = (s # ss) ! i ! j)"
    using ih[OF sple] 0 str ps by (auto simp: nth_Cons split: nat.split)
  show ?case using ih[OF sple] fr all sp Cons.prems(1) ps by simp
qed auto

lemma w32_low:
  assumes "unat a + 4 < 0x80000000" "unat b < 0x80000000" "unat b < unat a \<or> unat a + 4 \<le> unat b"
  shows "mem_r8 (mem_w32 m a v) b = mem_r8 m b"
proof -
  have u: "unat (a + 1) = unat a + 1" "unat (a + 2) = unat a + 2" "unat (a + 3) = unat a + 3"
    using unat_plus_low[of a 1] unat_plus_low[of a 2] unat_plus_low[of a 3] assms(1) by simp_all
  then have c: "cphys m a = a" "cphys m (a + 1) = a + 1" "cphys m (a + 2) = a + 2" "cphys m (a + 3) = a + 3"
    using assms(1) by (intro cphys_low; simp)+
  have "b \<notin> {a, a + 1, a + 2, a + 3}" using assms(3) u by auto
  then show ?thesis using cphys_low[OF assms(2), of m] by (simp add: mem_r8_flat flat_mem_w32 c)
qed

lemma r32_frame:
  assumes "\<And>i. i \<in> {0, 1, 2, 3} \<Longrightarrow> mem_r8 m' (a + i) = mem_r8 m (a + i)"
  shows "mem_r32 m' a = mem_r32 m a"
  using assms[of 0] assms[of 1] assms[of 2] assms[of 3] by (simp add: mem_r32_bytes)

lemma w32_low_word:
  assumes "unat a + 4 < 0x80000000" "unat b + 4 < 0x80000000" "unat b + 4 \<le> unat a \<or> unat a + 4 \<le> unat b"
  shows "mem_r32 (mem_w32 m a v) b = mem_r32 m b"
proof (rule r32_frame)
  fix i :: u32 assume "i \<in> {0, 1, 2, 3}"
  then have i: "unat i \<le> 3" by auto
  then have "unat (b + i) = unat b + unat i" using assms(2) by (intro unat_add_small) simp
  then show "mem_r8 (mem_w32 m a v) (b + i) = mem_r8 m (b + i)"
    using i assms by (intro w32_low) auto
qed

lemma put_words_spec:
  "unat a + 4 * length ws < 0x80000000 \<Longrightarrow>
   (\<forall>b. unat b < 0x80000000 \<longrightarrow> unat b < unat a \<or> unat a + 4 * length ws \<le> unat b \<longrightarrow>
      mem_r8 (put_words m a ws) b = mem_r8 m b) \<and>
   (\<forall>i<length ws. mem_r32 (put_words m a ws) (a + 4 * of_nat i) = ws ! i)"
proof (induction ws arbitrary: m a)
  case (Cons w ws)
  let ?m = "mem_w32 m a w"
  have a4: "unat (a + 4) = unat a + 4" using Cons.prems unat_plus_low[of a 4] by simp
  have ih: "\<forall>b. unat b < 0x80000000 \<longrightarrow> unat b < unat (a + 4) \<or> unat (a + 4) + 4 * length ws \<le> unat b \<longrightarrow>
      mem_r8 (put_words ?m (a + 4) ws) b = mem_r8 ?m b"
    "\<forall>i<length ws. mem_r32 (put_words ?m (a + 4) ws) (a + 4 + 4 * of_nat i) = ws ! i"
    using Cons.IH[of "a + 4" ?m] Cons.prems a4 by simp_all
  have "mem_r8 (put_words ?m (a + 4) ws) (a + i) = mem_r8 ?m (a + i)" if "i \<in> {0, 1, 2, 3}" for i
  proof -
    have i: "unat i \<le> 3" using that by auto
    then have "unat (a + i) = unat a + unat i" using Cons.prems by (intro unat_add_small) simp
    then show ?thesis using ih(1) a4 i Cons.prems by simp
  qed
  then have "mem_r32 (put_words ?m (a + 4) ws) a = mem_r32 ?m a" by (rule r32_frame)
  then have 0: "mem_r32 (put_words ?m (a + 4) ws) a = w" by simp
  have words: "\<forall>i<length (w # ws). mem_r32 (put_words m a (w # ws)) (a + 4 * of_nat i) = (w # ws) ! i"
  proof (intro allI impI)
    fix i assume "i < length (w # ws)"
    then show "mem_r32 (put_words m a (w # ws)) (a + 4 * of_nat i) = (w # ws) ! i"
      using 0 ih(2) by (cases i) (simp_all add: algebra_simps)
  qed
  have "mem_r8 (put_words m a (w # ws)) b = mem_r8 m b"
    if b: "unat b < 0x80000000" "unat b < unat a \<or> unat a + 4 * length (w # ws) \<le> unat b" for b
  proof -
    have "mem_r8 (put_words ?m (a + 4) ws) b = mem_r8 ?m b" using ih(1) a4 b by auto
    also have "\<dots> = mem_r8 m b" using b Cons.prems by (intro w32_low) auto
    finally show ?thesis by simp
  qed
  with words show ?case by blast
qed simp

lemma unat_and_not7: "unat (a AND NOT 7 :: u32) = 8 * (unat a div 8)"
proof -
  have "a AND NOT 7 = push_bit 3 (drop_bit 3 a)"
  proof (rule bit_word_eqI)
    have "bit (7 :: u32) n \<longleftrightarrow> n < 3" for n
    proof -
      have "(7 :: u32) = mask 3" by (simp add: mask_eq_exp_minus_1)
      show ?thesis unfolding \<open>7 = mask 3\<close> by (auto simp: bit_mask_iff)
    qed
    then have b7: "bit (7 :: u32) n \<longleftrightarrow> n < 3" for n .
    fix n assume n: "n < LENGTH(32)"
    show "bit (a AND NOT 7) n = bit (push_bit 3 (drop_bit 3 a)) n"
      unfolding bit_and_iff bit_not_iff b7 bit_push_bit_iff bit_drop_bit_eq comp_def possible_bit_word
      using n by (cases "n < 3") auto
  qed
  moreover have "unat (drop_bit 3 a) = unat a div 8"
    by (simp only: unat_drop_bit_eq) (simp add: drop_bit_eq_div)
  moreover have "8 * (unat a div 8) < 4294967296" using unat_u32_bound[of a] by simp
  ultimately show ?thesis by (simp add: push_bit_eq_mult unat_word_ariths)
qed

text \<open>Where the words of the stack go, and what they leave alone.\<close>

lemma stack_words:
  fixes m :: mem_state
  assumes n: "length argv \<le> 64" and sp: "unat sp + 4 * (length argv + 2) < 0x80000000"
    and al: "length ps = length argv"
  defines "m' \<equiv> mem_w32 (put_words (mem_w32 m sp (of_nat (length argv))) (sp + 4) ps) (sp + 4 + 4 * of_nat (length argv)) 0"
  shows "mem_r32 m' sp = of_nat (length argv)" "mem_r32 m' (sp + 4 + 4 * of_nat (length argv)) = 0"
    and "i < length argv \<Longrightarrow> mem_r32 m' (sp + 4 + 4 * of_nat i) = ps ! i"
    and "unat b < 0x80000000 \<Longrightarrow> unat sp + 4 * (length argv + 2) \<le> unat b \<Longrightarrow> mem_r8 m' b = mem_r8 m b"
proof -
  let ?n = "length argv"
  let ?m1 = "mem_w32 m sp (of_nat ?n)" let ?m2 = "put_words ?m1 (sp + 4) ps"
  have s4: "unat (sp + 4) = unat sp + 4" using sp unat_plus_low[of sp 4] by simp
  have e: "unat (sp + 4 + 4 * of_nat k) = unat sp + 4 + 4 * k" if "k \<le> ?n" for k
    using unat_plus_low[of sp "4 + 4 * k"] that sp by (simp add: algebra_simps)
  have "unat (sp + 4) + 4 * length ps < 0x80000000" using sp s4 al by simp
  note pw = put_words_spec[OF this, of ?m1]
  have "mem_r8 ?m2 (sp + i) = mem_r8 ?m1 (sp + i)" if "i \<in> {0, 1, 2, 3}" for i
  proof -
    have i: "unat i \<le> 3" using that by auto
    then have "unat (sp + i) = unat sp + unat i" using sp by (intro unat_add_small) simp
    then show ?thesis using pw s4 i sp by simp
  qed
  then have "mem_r32 ?m2 sp = mem_r32 ?m1 sp" by (rule r32_frame)
  moreover have "mem_r32 m' sp = mem_r32 ?m2 sp"
    unfolding m'_def using sp e[of ?n] by (intro w32_low_word) simp_all
  ultimately show "mem_r32 m' sp = of_nat ?n" by simp
  show "mem_r32 m' (sp + 4 + 4 * of_nat ?n) = 0" by (simp add: m'_def)
  show "mem_r32 m' (sp + 4 + 4 * of_nat i) = ps ! i" if "i < ?n"
  proof -
    have "mem_r32 m' (sp + 4 + 4 * of_nat i) = mem_r32 ?m2 (sp + 4 + 4 * of_nat i)"
      unfolding m'_def using that sp e[of ?n] e[of i] by (intro w32_low_word) simp_all
    then show ?thesis using pw that al by simp
  qed
  assume b: "unat b < 0x80000000" "unat sp + 4 * (?n + 2) \<le> unat b"
  have "mem_r8 m' b = mem_r8 ?m2 b"
    unfolding m'_def using b sp e[of ?n] by (intro w32_low) simp_all
  also have "\<dots> = mem_r8 ?m1 b" using pw b s4 al by simp
  also have "\<dots> = mem_r8 m b" using b sp by (intro w32_low) simp_all
  finally show "mem_r8 m' b = mem_r8 m b" .
qed

section \<open>Properties\<close>


text \<open>A program that is one branch to itself.\<close>

definition spins :: "machine \<Rightarrow> bool" where
  "spins m \<longleftrightarrow> user_ok m \<and> \<not> cpu_has_pending (cpu m) \<and> rd32 m (pc m) = 0xC0000000"

lemma spins_step: "spins m \<Longrightarrow> \<exists>m'. step m = Running m' \<and> spins m'"
proof -
  assume s: "spins m"
  then have u: "\<not> sysmode m" "\<not> realmm (mem m)" "\<not> translate_on (mmu m)" "\<not> fault_pending m"
    by (simp_all add: spins_def user_ok_def)
  let ?m = "sequence (count_insn m) (pc m) True False"
  have "exec (count_insn m) 0xC0000000 = Done (count_insn m) (pc m) True False"
    by (simp add: exec_def exec_br_def disp26_def count_insn_def Let_def)
  then have "step m = Running ?m"
    using user_step_pure[OF u(1,2)] u(3,4) s
    by (simp add: fetch_and_run_def translate_def run_insn_def spins_def) (simp add: count_insn_def)
  moreover have "spins ?m" using s by (simp add: spins_def) (simp add: sequence_def count_insn_def Let_def)
  ultimately show ?thesis by blast
qed

lemma spins_reaches: "loop_reaches h m u m' u' \<Longrightarrow> spins m \<Longrightarrow> spins m'"
proof (induction rule: loop_reaches.induct)
  case (reach_insn m m1 h u m' u')
  then show ?case using spins_step[of m] by fastforce
next
  case (reach_call m m1 h u m2 u2 m' u')
  then show ?case using spins_step[of m] by fastforce
qed


text \<open>C36. The argument stack: for up to 64 arguments that fit, the stack pointer is a multiple of 8, the
  word there is their number, the words above it point to NUL-terminated copies of them in order, and
  a null pointer ends the list.\<close>

theorem stack_layout:
  assumes "length argv \<le> 64" "\<forall>s\<in>set argv. 0 \<notin> set s" "args_size argv \<le> 0x7FF00000"
  shows "\<exists>sp m'. build_stack m argv = Ok (sp, m') \<and> unat sp mod 8 = 0 \<and>
    mem_r32 m' sp = of_nat (length argv) \<and> mem_r32 m' (sp + 4 + 4 * of_nat (length argv)) = 0 \<and>
    (\<forall>i<length argv. mem_cstr m' (mem_r32 m' (sp + 4 + 4 * of_nat i)) (length (argv ! i) + 1) = argv ! i)"
proof -
  let ?n = "length argv"
  obtain ps m1 low where p: "push_args m STACK_TOP argv = (ps, m1, low)" by (metis prod_cases3)
  have "args_size argv \<le> unat STACK_TOP" "unat STACK_TOP \<le> 0x7FFF0000" using assms(3) by simp_all
  note ps = push_args_spec[OF this p]
  let ?a = "low AND NOT 7" let ?b = "?a - 4 * (1 + of_nat ?n + 1)" let ?sp = "?b AND NOT 7"
  have low: "unat low \<ge> 0xF0000" "unat low \<le> 0x7FFF0000" using ps assms(3) by simp_all
  have a: "unat ?a \<le> unat low" "unat ?a + 8 > unat low" unfolding unat_and_not7 by simp_all
  have w: "4 * (1 + of_nat ?n + 1) = (of_nat (4 * (?n + 2)) :: u32)" by (simp add: algebra_simps)
  have b: "unat ?b = unat ?a - 4 * (?n + 2)"
    unfolding w using assms(1) low a by (intro unat_minus_low) simp_all
  have sp: "unat ?sp \<le> unat ?b" "unat ?sp mod 8 = 0" unfolding unat_and_not7 by simp_all
  have room: "unat ?sp + 4 * (?n + 2) \<le> unat low" using sp(1) b a(1) low assms(1) by simp
  then have r: "unat ?sp + 4 * (?n + 2) < 0x80000000" using low by simp
  have lp: "length ps = length argv" using ps by simp
  note sw = stack_words[OF assms(1) r lp, where m = m1]
  define m' where "m' = mem_w32 (put_words (mem_w32 m1 ?sp (of_nat ?n)) (?sp + 4) ps) (?sp + 4 + 4 * of_nat ?n) 0"
  have bs: "build_stack m argv = Ok (?sp, m')" using assms(1) p by (simp add: build_stack_def Let_def m'_def)
  have "mem_cstr m' (mem_r32 m' (?sp + 4 + 4 * of_nat i)) (length (argv ! i) + 1) = argv ! i" if i: "i < ?n" for i
  proof -
    have q: "unat low \<le> unat (ps ! i)" "unat (ps ! i) + length (argv ! i) < 0x7FFF0000"
      "\<And>j. j < length (argv ! i) \<Longrightarrow> mem_r8 m1 (ps ! i + of_nat j) = argv ! i ! j"
      using ps i by auto
    have "mem_r8 m' (ps ! i + of_nat j) = argv ! i ! j" if j: "j < length (argv ! i)" for j
    proof -
      have u: "unat (ps ! i + of_nat j) = unat (ps ! i) + j" using q(2) j by (intro unat_plus_low) simp
      have "mem_r8 m' (ps ! i + of_nat j) = mem_r8 m1 (ps ! i + of_nat j)"
        unfolding m'_def using u q(1,2) j room by (intro sw(4)) simp_all
      then show ?thesis using q(3)[OF j] by simp
    qed
    then have "mem_cstr_upto m' (ps ! i) (length (argv ! i)) = argv ! i"
      using assms(2) i by (intro cstr_read) simp_all
    then show ?thesis using sw(3)[OF i] by (simp add: mem_cstr_def m'_def)
  qed
  then show ?thesis using bs sp(2) sw(1,2) by (intro exI[of _ ?sp] exI[of _ m']) (simp add: m'_def)
qed

theorem stack_layout_witness:
  "\<exists>sp m'. build_stack mem0 [c_string ''a'', c_string ''-l''] = Ok (sp, m') \<and>
     mem_cstr m' (mem_r32 m' (sp + 4 + 4 * of_nat 1)) 3 = c_string ''-l''"
proof -
  have l: "length (c_string ''-l'') = 2" by (simp add: c_string_def)
  have "\<forall>s\<in>set [c_string ''a'', c_string ''-l'']. 0 \<notin> set s" by code_simp
  moreover have "args_size [c_string ''a'', c_string ''-l''] \<le> 0x7FF00000" by (simp add: c_string_def)
  ultimately obtain sp m' where b: "build_stack mem0 [c_string ''a'', c_string ''-l''] = Ok (sp, m')"
    and a: "\<forall>i<length [c_string ''a'', c_string ''-l''].
      mem_cstr m' (mem_r32 m' (sp + 4 + 4 * of_nat i)) (length ([c_string ''a'', c_string ''-l''] ! i) + 1) =
        [c_string ''a'', c_string ''-l''] ! i"
    using stack_layout[of "[c_string ''a'', c_string ''-l'']" mem0] by auto
  have "mem_cstr m' (mem_r32 m' (sp + 4 + 4 * of_nat 1)) 3 = c_string ''-l''"
    using a[rule_format, of 1] by (simp add: l)
  with b show ?thesis by blast
qed

text \<open>C37. A system call returns exactly when one of the six registers \<open>indir\<close> can draw a number from is
  not zero; with all of them zero the emulator recurses for ever.\<close>

theorem syscall_returns:
  "do_syscall h m u \<noteq> None \<longleftrightarrow> (\<exists>x\<in>set [RD m 9, RD m 2, RD m 3, RD m 4, RD m 5, RD m 6]. x \<noteq> 0)"
  using do_syscall_ends[of m h u] do_syscall_diverges[of h m u] unfolding indir_regs_def by blast

end
