(* ===== verification/Console.thy ===== *)
theory Console
  imports Prelude
begin

text \<open>
  The interactive console (\<^verbatim>\<open>console.c\<close>, first half): the socket or the host's own terminal, the telnet
  layer, the line discipline with echo and editing, the terminal modes and the polling.

  What the host does is a part of the state.  The client's side of the socket is the bytes it will
  send before it hangs up, the bytes it has been sent, and for each \<open>send\<close> how much that call takes
  (0: it fails; all of it once the list is used up); \<open>net_polls\<close> are the answers of
  \<open>FIONREAD\<close>.  The terminal is the bursts its reads return, an empty one standing for end of file.
  The build is the one with sockets; the browser's is in \<^verbatim>\<open>Web\<close>.

  The lemmas show that telnet commands are invisible in the input, that output does not depend on
  how it is cut up, and that what the screen shows is what the guest reads.
\<close>

section \<open>State\<close>

type_synonym bytes = "u8 list"

record con_state =
  con_use_sock :: bool
  con_csock :: bool             \<comment> \<open>\<open>con_csock != CON_BADSOCK\<close>\<close>
  con_eof :: bool
  con_pushback :: "u8 option"   \<comment> \<open>\<open>None\<close> is -1\<close>
  con_line :: bytes             \<comment> \<open>\<open>con_line[0..con_line_len)\<close>\<close>
  con_line_pos :: nat
  con_std :: bytes              \<comment> \<open>\<open>con_std_buf[con_std_pos..con_std_len)\<close>\<close>
  tty_sg :: bytes
  tty_tc :: bytes
  tty_ltc :: bytes
  tty_lmode :: u32
  host_raw :: bool              \<comment> \<open>\<open>host_tio_raw\<close>\<close>
  host_tty :: bool              \<comment> \<open>\<open>isatty(0)\<close>\<close>
  net_accept :: bool            \<comment> \<open>whether \<open>accept\<close> succeeds\<close>
  net_in :: bytes
  net_out :: bytes
  net_sends :: "nat list"
  net_polls :: "nat list"
  std_in :: "bytes list"
  std_out :: bytes
  std_err :: bytes

definition con0 :: con_state where
  "con0 = \<lparr>con_use_sock = False, con_csock = False, con_eof = False, con_pushback = None,
     con_line = [], con_line_pos = 0, con_std = [], tty_sg = [13, 13, 0x7F, 0x15, 0, 0x18],
     tty_tc = [3, 0x1C, 0x11, 0x13, 4, 0xFF], tty_ltc = [0x1A, 0x19, 0x12, 0x0F, 0x17, 0x16],
     tty_lmode = 0, host_raw = False, host_tty = False, net_accept = True, net_in = [], net_out = [],
     net_sends = [], net_polls = [], std_in = [], std_out = [], std_err = []\<rparr>"

section \<open>The socket\<close>

text \<open>One \<open>send\<close>: how many bytes it took.\<close>

definition send :: "bytes \<Rightarrow> con_state \<Rightarrow> nat \<times> con_state" where
  "send bs s =
     (let r = (case net_sends s of [] \<Rightarrow> length bs | k # ks \<Rightarrow> min k (length bs))
      in (r, s\<lparr>net_sends := tl (net_sends s), net_out := net_out s @ take r bs\<rparr>))"

function (sequential) send_loop :: "bytes \<Rightarrow> con_state \<Rightarrow> con_state" where
  "send_loop [] s = s"
| "send_loop (b # bs) s =
     (case send (b # bs) s of
        (0, s) \<Rightarrow> s\<lparr>con_eof := True\<rparr>
      | (Suc r, s) \<Rightarrow> send_loop (drop (Suc r) (b # bs)) s)"
  by pat_completeness auto
termination by (relation "measure (length o fst)") (auto simp: send_def)

definition con_send_raw :: "bytes \<Rightarrow> con_state \<Rightarrow> con_state" where
  "con_send_raw bs s = (if \<not> con_csock s \<or> con_eof s then s else send_loop bs s)"

text \<open>The telnet greeting: WILL ECHO, WILL SGA, DO SGA.\<close>

definition con_ensure_client :: "con_state \<Rightarrow> con_state" where
  "con_ensure_client s =
     (if \<not> con_use_sock s \<or> con_csock s \<or> con_eof s then s
      else if \<not> net_accept s then s\<lparr>con_eof := True\<rparr>
      else con_send_raw [255, 251, 1, 255, 251, 3, 255, 253, 3] (s\<lparr>con_csock := True\<rparr>))"

definition con_recv_raw :: "con_state \<Rightarrow> u8 option \<times> con_state" where
  "con_recv_raw s =
     (case con_pushback s of
        Some b \<Rightarrow> (Some b, s\<lparr>con_pushback := None\<rparr>)
      | None \<Rightarrow>
          (case (if con_csock s then net_in s else []) of
             [] \<Rightarrow> (None, s\<lparr>con_eof := True\<rparr>)
           | b # bs \<Rightarrow> (Some b, s\<lparr>net_in := bs\<rparr>)))"

text \<open>What can still come in.\<close>

definition pending_in :: "con_state \<Rightarrow> nat" where
  "pending_in s = length (net_in s) + (if con_pushback s = None then 0 else 1)"

lemma recv_less: "con_recv_raw s = (Some b, s') \<Longrightarrow> pending_in s' < pending_in s"
  by (auto simp: con_recv_raw_def pending_in_def split: option.splits list.splits if_splits)

lemma recv_less_sym: "(Some b, s') = con_recv_raw s \<Longrightarrow> pending_in s' < pending_in s"
  using recv_less by metis

lemma recv_le: "pending_in (snd (con_recv_raw s)) \<le> pending_in s"
  by (auto simp: con_recv_raw_def pending_in_def split: option.splits list.splits if_splits)

text \<open>The states receiving bytes leads through.\<close>

inductive receives :: "con_state \<Rightarrow> con_state \<Rightarrow> bool" where
  receives_refl: "receives s s"
| receives_step: "receives s s1 \<Longrightarrow> receives s (snd (con_recv_raw s1))"

lemma receives_recv: "con_recv_raw s = (r, s') \<Longrightarrow> receives s s'"
  using receives_step[OF receives_refl, of s] by simp

lemma receives_trans: "receives s1 s2 \<Longrightarrow> receives s s1 \<Longrightarrow> receives s s2"
  by (induction rule: receives.induct) (auto intro: receives_step)

lemma receives_le: "receives s s' \<Longrightarrow> pending_in s' \<le> pending_in s"
  by (induction rule: receives.induct) (auto intro: order.trans[OF recv_le])

section \<open>Telnet\<close>

text \<open>The inner loop of \<open>con_in_byte\<close>: the rest of a subnegotiation, to its \<open>IAC SE\<close>.\<close>

function con_skip_sb :: "con_state \<Rightarrow> bool \<times> con_state" where
  "con_skip_sb s =
     (case con_recv_raw s of
        (None, s) \<Rightarrow> (False, s)
      | (Some d, s) \<Rightarrow>
          if d = 255 then
            (case con_recv_raw s of
               (None, s) \<Rightarrow> (False, s)
             | (Some e, s) \<Rightarrow> if e = 240 then (True, s) else con_skip_sb s)
          else con_skip_sb s)"
  by pat_completeness auto
termination by (relation "measure pending_in") (auto dest!: recv_less_sym)

declare con_skip_sb.simps [simp del]

lemma skip_sb_receives: "receives s (snd (con_skip_sb s))"
proof (induction s rule: con_skip_sb.induct)
  case (1 s)
  obtain r s1 where a: "con_recv_raw s = (r, s1)" by fastforce
  obtain q s2 where b: "con_recv_raw s1 = (q, s2)" by fastforce
  note r1 = receives_recv[OF a] and r2 = receives_trans[OF receives_recv[OF b] receives_recv[OF a]]
  have i1: "receives s2 (snd (con_skip_sb s2))" if "r = Some 255" "q = Some e" "e \<noteq> 240" for e
    using "1.IH"(1)[OF a[symmetric] that(1) refl b[symmetric] that(2,3)] .
  have i2: "receives s1 (snd (con_skip_sb s1))" if "r = Some d" "d \<noteq> 255" for d
    using "1.IH"(2)[OF a[symmetric] that] .
  show ?case
    using con_skip_sb.simps[of s] a b r1 r2 i1 i2 by (auto split: option.split intro: receives_trans)
qed

lemma skip_sb_sym: "(b, s') = con_skip_sb s \<Longrightarrow> pending_in s' \<le> pending_in s"
  using receives_le[OF skip_sb_receives[of s]] by (metis snd_conv)

function con_in_byte :: "con_state \<Rightarrow> u8 option \<times> con_state" where
  "con_in_byte s =
     (case con_recv_raw s of
        (None, s) \<Rightarrow> (None, s)
      | (Some b, s) \<Rightarrow>
          if b \<noteq> 255 then (Some b, s)
          else
            (case con_recv_raw s of
               (None, s) \<Rightarrow> (None, s)
             | (Some c, s) \<Rightarrow>
                 if c = 255 then (Some 255, s)
                 else if c \<ge> 251 \<and> c \<le> 254 then con_in_byte (snd (con_recv_raw s))
                 else if c = 250 then
                   (case con_skip_sb s of
                      (False, s) \<Rightarrow> (None, s)
                    | (True, s) \<Rightarrow> con_in_byte s)
                 else con_in_byte s))"
  by pat_completeness auto
termination
  by (relation "measure pending_in")
     (auto dest!: recv_less_sym skip_sb_sym intro: le_less_trans[OF recv_le])

declare con_in_byte.simps [simp del]


text \<open>What each operation on the socket leaves alone.\<close>

declare send_loop.simps(2) [simp del]

lemma send_eq:
  "send bs s = (r, s') \<Longrightarrow> s' = s\<lparr>net_sends := tl (net_sends s), net_out := net_out s @ take r bs\<rparr>"
  by (auto simp: send_def Let_def)

lemma send_loop_frame [simp]:
  "con_use_sock (send_loop bs s) = con_use_sock s" "con_csock (send_loop bs s) = con_csock s"
  "con_pushback (send_loop bs s) = con_pushback s" "con_line (send_loop bs s) = con_line s"
  "con_line_pos (send_loop bs s) = con_line_pos s" "con_std (send_loop bs s) = con_std s"
  "tty_sg (send_loop bs s) = tty_sg s" "tty_tc (send_loop bs s) = tty_tc s"
  "tty_ltc (send_loop bs s) = tty_ltc s" "net_in (send_loop bs s) = net_in s"
  by (induction bs s rule: send_loop.induct)
     (auto simp: send_loop.simps(2) dest!: send_eq split: prod.split nat.split)

lemma send_raw_frame [simp]:
  "con_use_sock (con_send_raw bs s) = con_use_sock s" "con_csock (con_send_raw bs s) = con_csock s"
  "con_pushback (con_send_raw bs s) = con_pushback s" "con_line (con_send_raw bs s) = con_line s"
  "con_line_pos (con_send_raw bs s) = con_line_pos s" "con_std (con_send_raw bs s) = con_std s"
  "tty_sg (con_send_raw bs s) = tty_sg s" "tty_tc (con_send_raw bs s) = tty_tc s"
  "tty_ltc (con_send_raw bs s) = tty_ltc s" "net_in (con_send_raw bs s) = net_in s"
  by (simp_all add: con_send_raw_def)

lemma pending_send [simp]: "pending_in (con_send_raw bs s) = pending_in s"
  by (simp add: pending_in_def)

lemma in_byte_receives:
  "receives (snd (con_recv_raw s)) (snd (con_in_byte s)) \<and>
   (fst (con_recv_raw s) = None \<longrightarrow> fst (con_in_byte s) = None)"
proof (induction s rule: con_in_byte.induct)
  case (1 s)
  let ?P = "\<lambda>s. receives (snd (con_recv_raw s)) (snd (con_in_byte s))"
  obtain r s1 where a: "con_recv_raw s = (r, s1)" by fastforce
  obtain q s2 where b: "con_recv_raw s1 = (q, s2)" by fastforce
  obtain ok s3 where k: "con_skip_sb s2 = (ok, s3)" by fastforce
  have r2: "receives s1 s2" by (rule receives_recv[OF b])
  have r3: "receives s1 s3" using receives_trans[OF skip_sb_receives[of s2] r2] k by simp
  have r4: "receives s1 (snd (con_recv_raw s2))" by (rule receives_step[OF r2])
  show ?case
  proof (cases "\<exists>c. r = Some 255 \<and> q = Some c")
    case False
    then show ?thesis using a b r2 
      by (auto simp: con_in_byte.simps[of s] split: option.split intro: receives_refl)
  next
    case True
    then obtain c where c: "r = Some 255" "q = Some c" by blast
    have b255: "\<not> (255 :: u8) \<noteq> 255" by simp
    note ih = "1.IH"[OF a[symmetric] c(1) b255 b[symmetric] c(2)]
    have w: "con_in_byte s = (if c = 255 then (Some 255, s2)
        else if 251 \<le> c \<and> c \<le> 254 then con_in_byte (snd (con_recv_raw s2))
        else if c = 250 then (if ok then con_in_byte s3 else (None, s3)) else con_in_byte s2)"
      using a b k c by (subst con_in_byte.simps) (simp split: bool.split)
    have i: "receives s1 (snd (con_in_byte t))" if "receives s1 t" "?P t" for t
      using receives_trans[OF that(2) receives_step[OF that(1)]] .
    have i1: "?P (snd (con_recv_raw s2))" if "c \<noteq> 255" "251 \<le> c \<and> c \<le> 254" using ih(1)[OF that] by simp
    have i2: "?P s3" if "c \<noteq> 255" "\<not> (251 \<le> c \<and> c \<le> 254)" "c = 250" ok
      using ih(2)[OF that(1-3) k[symmetric]] that(4) by simp
    have i3: "?P s2" if "c \<noteq> 255" "\<not> (251 \<le> c \<and> c \<le> 254)" "c \<noteq> 250" using ih(3)[OF that] by simp
    consider "c = 255" | "c \<noteq> 255" "251 \<le> c \<and> c \<le> 254" | "c = 250" ok | "c = 250" "\<not> ok"
      | "c \<noteq> 255" "\<not> (251 \<le> c \<and> c \<le> 254)" "c \<noteq> 250" by auto
    then have "receives s1 (snd (con_in_byte s))"
      using i[OF r4 i1] i[OF r3 i2] i[OF r2 i3] r2 r3 unfolding w by cases auto
    then show ?thesis using a c by simp
  qed
qed

lemma in_byte_le: "receives s (snd (con_in_byte s))"
  using receives_trans[OF in_byte_receives[THEN conjunct1] receives_step[OF receives_refl]] .

lemma in_byte_less:
  assumes "con_in_byte s = (Some b, s')"
  shows "pending_in s' < pending_in s"
proof -
  obtain r s1 where a: "con_recv_raw s = (r, s1)" by fastforce
  have "r \<noteq> None" "pending_in s' \<le> pending_in s1"
    using in_byte_receives[of s] receives_le a assms by auto
  then show ?thesis using recv_less a by fastforce
qed

lemma in_byte_less_sym: "(Some b, s') = con_in_byte s \<Longrightarrow> pending_in s' < pending_in s"
  using in_byte_less by metis

section \<open>The line discipline\<close>

text \<open>The end of a line: the byte a return is paired with is taken, another one is put back.\<close>

definition cr_pair :: "con_state \<Rightarrow> con_state" where
  "cr_pair s =
     (case con_in_byte s of
        (None, s) \<Rightarrow> s
      | (Some nx, s) \<Rightarrow> if nx \<noteq> 10 \<and> nx \<noteq> 0 then s\<lparr>con_pushback := Some nx\<rparr> else s)"

text \<open>\<open>con_cook_line\<close>; \<open>dst\<close> is the line so far.\<close>

function con_cook :: "nat \<Rightarrow> bytes \<Rightarrow> con_state \<Rightarrow> bytes \<times> con_state" where
  "con_cook cap dst s =
     (case con_in_byte s of
        (None, s) \<Rightarrow> (dst, s)
      | (Some b, s) \<Rightarrow>
          if b = 13 \<or> b = 10 then
            (let s = con_send_raw [13, 10] (if b = 13 then cr_pair s else s)
             in (if length dst < cap then dst @ [10] else dst, s))
          else if b = 0 then con_cook cap dst s
          else if b = 0x7F \<or> b = 8 then
            (if dst \<noteq> [] then con_cook cap (butlast dst) (con_send_raw [8, 32, 8] s)
             else con_cook cap dst s)
          else if b = 4 then (dst, s)
          else if length dst < cap then
            con_cook cap (dst @ [b]) (if b \<ge> 32 \<or> b = 9 then con_send_raw [b] s else s)
          else con_cook cap dst s)"
  by pat_completeness auto
termination by (relation "measure (\<lambda>(cap, dst, s). pending_in s)") (auto dest!: in_byte_less_sym)

declare con_cook.simps [simp del]

definition con_cook_line :: "nat \<Rightarrow> con_state \<Rightarrow> bytes \<times> con_state" where
  "con_cook_line cap s = con_cook cap [] s"

text \<open>A guest's read takes what it asked for off the line, and a new line once that one is used up.\<close>

abbreviation (input) LINE_CAP :: nat where "LINE_CAP \<equiv> 4100"

definition con_sock_read :: "nat \<Rightarrow> con_state \<Rightarrow> bytes \<times> con_state" where
  "con_sock_read mx s =
     (let (eof, s) =
        (if con_line_pos s \<ge> length (con_line s) then
           (let (l, s) = con_cook_line LINE_CAP (s\<lparr>con_line := [], con_line_pos := 0\<rparr>)
            in (l = [], s\<lparr>con_line := l\<rparr>))
         else (False, s))
      in if eof then ([], s)
         else
           (let avail = length (con_line s) - con_line_pos s;
                k = (if mx < avail then mx else avail)
            in (take k (drop (con_line_pos s) (con_line s)), s\<lparr>con_line_pos := con_line_pos s + k\<rparr>)))"

text \<open>Output: each newline becomes CR LF, in pieces of at most 2047 bytes.\<close>

fun con_out_loop :: "bytes \<Rightarrow> bytes \<Rightarrow> con_state \<Rightarrow> con_state" where
  "con_out_loop [] buf s = (if buf \<noteq> [] then con_send_raw buf s else s)"
| "con_out_loop (c # cs) buf s =
     (let buf = buf @ (if c = 10 then [13, 10] else [c])
      in if length buf \<ge> 2048 - 2 then con_out_loop cs [] (con_send_raw buf s)
         else con_out_loop cs buf s)"

definition con_sock_write :: "bytes \<Rightarrow> con_state \<Rightarrow> con_state" where
  "con_sock_write p s = con_out_loop p [] s"

definition con_write :: "bytes \<Rightarrow> bool \<Rightarrow> con_state \<Rightarrow> con_state" where
  "con_write p is_err s =
     (let s = con_ensure_client s in
      if con_use_sock s then con_sock_write p s
      else if is_err then s\<lparr>std_err := std_err s @ p\<rparr>
      else s\<lparr>std_out := std_out s @ p\<rparr>)"

definition con_write_str :: "bytes \<Rightarrow> con_state \<Rightarrow> con_state" where
  "con_write_str str s = con_write str False s"

section \<open>Terminal modes and polling\<close>

definition tty_flags :: "con_state \<Rightarrow> u32" where
  "tty_flags s = push_bit 8 (ucast (tty_sg s ! 4)) OR ucast (tty_sg s ! 5)"

definition tty_is_raw :: "con_state \<Rightarrow> bool" where
  "tty_is_raw s \<longleftrightarrow> tty_flags s AND (0x02 OR 0x20) \<noteq> 0"

definition host_tty_mode :: "bool \<Rightarrow> con_state \<Rightarrow> con_state" where
  "host_tty_mode raw s =
     (if con_use_sock s \<or> \<not> host_tty s then s
      else if raw = host_raw s then s
      else s\<lparr>host_raw := raw\<rparr>)"

text \<open>The answer of \<open>ioctl(fd, FIONREAD)\<close>.\<close>

definition poll :: "nat \<Rightarrow> con_state \<Rightarrow> nat \<times> con_state" where
  "poll there s =
     (case net_polls s of [] \<Rightarrow> (0, s) | k # ks \<Rightarrow> (min k there, s\<lparr>net_polls := ks\<rparr>))"

definition con_input_avail :: "con_state \<Rightarrow> u32 \<times> con_state" where
  "con_input_avail s =
     (let n = (if con_pushback s \<noteq> None then 1 else 0) +
              (if con_line_pos s < length (con_line s) then length (con_line s) - con_line_pos s else 0)
      in if con_eof s then (of_nat (if n \<noteq> 0 then n else 1), s)
         else if con_use_sock s then
           (let s = con_ensure_client s in
            if \<not> con_csock s then (of_nat n, s)
            else (let (k, s) = poll (length (net_in s)) s in (of_nat (n + k), s)))
         else
           (let (k, s) = poll (length (concat (std_in s))) s
            in (of_nat (n + length (con_std s) + k), s)))"

definition con_input_ready :: "con_state \<Rightarrow> bool \<times> con_state" where
  "con_input_ready s = (let (n, s) = con_input_avail s in (n \<noteq> 0, s))"

section \<open>Reading\<close>

definition con_std_getc :: "con_state \<Rightarrow> u8 option \<times> con_state" where
  "con_std_getc s =
     (case con_std s of
        c # cs \<Rightarrow> (Some c, s\<lparr>con_std := cs\<rparr>)
      | [] \<Rightarrow>
          (case std_in s of
             [] \<Rightarrow> (None, s)
           | b # bs \<Rightarrow>
               (case take 512 b of
                  [] \<Rightarrow> (None, s\<lparr>std_in := bs\<rparr>)
                | c # cs \<Rightarrow>
                    (Some c, s\<lparr>con_std := cs,
                       std_in := (if drop 512 b = [] then bs else drop 512 b # bs)\<rparr>))))"

definition con_in_key :: "con_state \<Rightarrow> u8 option \<times> con_state" where
  "con_in_key s =
     (case (if con_use_sock s then con_in_byte s else con_std_getc s) of
        (None, s) \<Rightarrow> (None, s)
      | (Some b, s) \<Rightarrow>
          if b = 13 \<and> con_use_sock s then
            (let (ready, s) = con_input_ready s in (Some b, if ready then cr_pair s else s))
          else (Some b, s))"

text \<open>The loops of \<open>con_read_raw\<close> and \<open>con_read_line\<close>; the number is the room left.\<close>

fun con_raw_more :: "nat \<Rightarrow> con_state \<Rightarrow> bytes \<times> con_state" where
  "con_raw_more 0 s = ([], s)"
| "con_raw_more (Suc n) s =
     (case con_input_ready s of
        (False, s) \<Rightarrow> ([], s)
      | (True, s) \<Rightarrow>
          (case con_in_key s of
             (None, s) \<Rightarrow> ([], s)
           | (Some c, s) \<Rightarrow> (let (cs, s) = con_raw_more n s in (c # cs, s))))"

definition con_read_raw :: "nat \<Rightarrow> con_state \<Rightarrow> bytes \<times> con_state" where
  "con_read_raw mx s =
     (let s = con_ensure_client s in
      if mx = 0 then ([], s)
      else
        (case con_in_key s of
           (None, s) \<Rightarrow> ([], s)
         | (Some b, s) \<Rightarrow> (let (bs, s) = con_raw_more (mx - 1) s in (b # bs, s))))"

fun con_std_line :: "nat \<Rightarrow> con_state \<Rightarrow> bytes \<times> con_state" where
  "con_std_line 0 s = ([], s)"
| "con_std_line (Suc n) s =
     (case con_std_getc s of
        (None, s) \<Rightarrow> ([], s)
      | (Some c, s) \<Rightarrow>
          if c = 10 then ([c], s)
          else (let (cs, s) = con_std_line n s in (c # cs, s)))"

definition con_read_line :: "nat \<Rightarrow> con_state \<Rightarrow> bytes \<times> con_state" where
  "con_read_line mx s =
     (let s = con_ensure_client s in
      if con_use_sock s then con_sock_read mx s else con_std_line mx s)"

section \<open>Output\<close>

definition onlcr :: "bytes \<Rightarrow> bytes" where
  "onlcr p = concat (map (\<lambda>c. if c = 10 then [13, 10] else [c]) p)"

text \<open>What a client has got of \<open>bs\<close>: all of it, or a part after which the connection is lost.\<close>

definition delivers :: "con_state \<Rightarrow> bytes \<Rightarrow> con_state \<Rightarrow> bool" where
  "delivers s bs s' \<longleftrightarrow> con_csock s' = con_csock s \<and> con_use_sock s' = con_use_sock s \<and>
     (\<exists>k \<le> length bs. net_out s' = net_out s @ take k bs \<and> (con_eof s' \<longleftrightarrow> k < length bs)) \<and>
     (0 \<notin> set (net_sends s) \<longrightarrow> \<not> con_eof s' \<and> 0 \<notin> set (net_sends s'))"

lemma delivers_append:
  assumes "delivers s a s1" "con_eof s1 \<Longrightarrow> s2 = s1" "\<not> con_eof s1 \<Longrightarrow> delivers s1 b s2"
  shows "delivers s (a @ b) s2"
proof -
  obtain k where k: "k \<le> length a" "net_out s1 = net_out s @ take k a" "con_eof s1 \<longleftrightarrow> k < length a"
    using assms(1) by (auto simp: delivers_def)
  show ?thesis
  proof (cases "con_eof s1")
    case True
    then show ?thesis using assms(1,2) k by (auto simp: delivers_def intro!: exI[of _ k])
  next
    case False
    then obtain j where j: "j \<le> length b" "net_out s2 = net_out s1 @ take j b" "con_eof s2 \<longleftrightarrow> j < length b"
      using assms(3) by (auto simp: delivers_def)
    show ?thesis using assms(1) assms(3)[OF False] False k j
      by (auto simp: delivers_def intro!: exI[of _ "length a + j"])
  qed
qed

lemma send_loop_delivers: "\<not> con_eof s \<Longrightarrow> delivers s bs (send_loop bs s)"
proof (induction bs s rule: send_loop.induct)
  case (2 b bs s)
  obtain r s1 where d: "send (b # bs) s = (r, s1)" by fastforce
  note e = send_eq[OF d]
  have r: "r \<le> length (b # bs)" using d by (auto simp: send_def Let_def split: list.splits)
  have nz: "0 \<notin> set (net_sends s) \<Longrightarrow> r \<noteq> 0"
    using d by (auto simp: send_def Let_def split: list.splits)
  have tl: "0 \<notin> set (net_sends s) \<Longrightarrow> 0 \<notin> set (tl (net_sends s))" by (cases "net_sends s") auto
  show ?case
  proof (cases r)
    case 0
    then show ?thesis using d e nz by (auto simp: delivers_def send_loop.simps(2) intro!: exI[of _ 0])
  next
    case (Suc q)
    have 1: "delivers s (take r (b # bs)) s1"
      using e r 2(2) tl by (auto simp: delivers_def intro!: exI[of _ r])
    have "delivers s1 (drop r (b # bs)) (send_loop (drop r (b # bs)) s1)"
      using "2.IH"[OF d[symmetric] Suc] 2(2) e Suc by simp
    from delivers_append[OF 1 _ this] have "delivers s (take r (b # bs) @ drop r (b # bs)) (send_loop (drop r (b # bs)) s1)"
      using e 2(2) by simp
    then show ?thesis using d Suc by (simp add: send_loop.simps(2))
  qed
qed (simp add: delivers_def)

lemma send_raw_delivers:
  "con_csock s \<Longrightarrow> \<not> con_eof s \<Longrightarrow> delivers s bs (con_send_raw bs s)"
  using send_loop_delivers by (simp add: con_send_raw_def)

lemma send_raw_dead: "con_eof s \<Longrightarrow> con_send_raw bs s = s"
  by (simp add: con_send_raw_def)

lemma out_loop_dead: "con_eof s \<Longrightarrow> con_out_loop p buf s = s"
  by (induction p buf s rule: con_out_loop.induct) (auto simp: send_raw_dead Let_def)

lemma out_loop_delivers:
  "con_csock s \<Longrightarrow> \<not> con_eof s \<Longrightarrow> delivers s (buf @ onlcr p) (con_out_loop p buf s)"
proof (induction p buf s rule: con_out_loop.induct)
  case (1 buf s)
  then show ?case using send_raw_delivers[of s buf] by (auto simp: onlcr_def delivers_def)
next
  case (2 c cs buf s)
  let ?b = "buf @ (if c = 10 then [13, 10] else [c])"
  have o: "buf @ onlcr (c # cs) = ?b @ onlcr cs" by (simp add: onlcr_def)
  show ?case
  proof (cases "length ?b \<ge> 2048 - 2")
    case False
    then show ?thesis using "2.IH"(2)[OF refl False 2(3,4)] by (simp add: o)
  next
    case True
    have d: "delivers s ?b (con_send_raw ?b s)" using 2(3,4) by (rule send_raw_delivers)
    have "delivers s (?b @ onlcr cs) (con_out_loop cs [] (con_send_raw ?b s))"
    proof (rule delivers_append[OF d])
      show "con_eof (con_send_raw ?b s) \<Longrightarrow> con_out_loop cs [] (con_send_raw ?b s) = con_send_raw ?b s"
        by (rule out_loop_dead)
      show "\<not> con_eof (con_send_raw ?b s) \<Longrightarrow> delivers (con_send_raw ?b s) (onlcr cs) (con_out_loop cs [] (con_send_raw ?b s))"
        using "2.IH"(1)[OF refl True] 2(3) by simp
    qed
    then show ?thesis using True by (simp add: o Let_def)
  qed
qed

text \<open>Output to a connected client: however the emulator cuts it into pieces and however much each
  \<open>send\<close> takes, the client gets the guest's bytes in order with every newline as CR LF; all of them
  when no send fails, otherwise a prefix after which the connection counts as closed.\<close>

theorem console_output:
  assumes "con_use_sock s" "con_csock s" "\<not> con_eof s"
  shows "\<exists>k \<le> length (onlcr p). net_out (con_write p e s) = net_out s @ take k (onlcr p) \<and>
    (con_eof (con_write p e s) \<longleftrightarrow> k < length (onlcr p)) \<and>
    (0 \<notin> set (net_sends s) \<longrightarrow> net_out (con_write p e s) = net_out s @ onlcr p)"
proof -
  have "con_write p e s = con_out_loop p [] s"
    using assms by (simp add: con_write_def con_ensure_client_def con_sock_write_def)
  then show ?thesis using out_loop_delivers[OF assms(2,3), of "[]" p] by (auto simp: delivers_def)
qed

theorem console_output_witness:
  "net_out (con_write [104, 10, 105] False (con0\<lparr>con_use_sock := True, con_csock := True, net_sends := [2, 1]\<rparr>)) =
     [104, 13, 10, 105]"
proof -
  let ?s = "con0\<lparr>con_use_sock := True, con_csock := True, net_sends := [2, 1]\<rparr>"
  have "con_use_sock ?s" "con_csock ?s" "\<not> con_eof ?s" by (simp_all add: con0_def)
  note out = console_output[OF this, of "[104, 10, 105]" False]
  have "0 \<notin> set (net_sends ?s)" by simp
  with out have "net_out (con_write [104, 10, 105] False ?s) = net_out ?s @ onlcr [104, 10, 105]" by blast
  then show ?thesis by (simp add: con0_def onlcr_def)
qed

section \<open>Input\<close>

text \<open>What a telnet client sends: data, option requests, subnegotiations and two-byte commands.\<close>

datatype tel = Data u8 | Opt u8 u8 | Sub bytes | Cmd u8

definition esc :: "bytes \<Rightarrow> bytes" where
  "esc bs = concat (map (\<lambda>b. if b = 255 then [255, 255] else [b]) bs)"

fun tel_enc :: "tel \<Rightarrow> bytes" where
  "tel_enc (Data b) = esc [b]"
| "tel_enc (Opt c x) = [255, c, x]"
| "tel_enc (Sub bs) = [255, 250] @ esc bs @ [255, 240]"
| "tel_enc (Cmd c) = [255, c]"

fun tel_ok :: "tel \<Rightarrow> bool" where
  "tel_ok (Data b) = True"
| "tel_ok (Opt c x) = (251 \<le> c \<and> c \<le> 254)"
| "tel_ok (Sub bs) = True"
| "tel_ok (Cmd c) = (c < 250)"

fun tel_data :: "tel \<Rightarrow> bytes" where
  "tel_data (Data b) = [b]"
| "tel_data t = []"

text \<open>A connection with nothing put back, and what it gives byte by byte.\<close>

definition live :: "con_state \<Rightarrow> bool" where
  "live s \<longleftrightarrow> con_csock s \<and> con_pushback s = None"

lemma recv_live:
  "live s \<Longrightarrow> net_in s = b # bs \<Longrightarrow> con_recv_raw s = (Some b, s\<lparr>net_in := bs\<rparr>)"
  "live s \<Longrightarrow> net_in s = [] \<Longrightarrow> con_recv_raw s = (None, s\<lparr>con_eof := True\<rparr>)"
  by (auto simp: con_recv_raw_def live_def)

lemma live_net_in [simp]: "live (s\<lparr>net_in := bs\<rparr>) \<longleftrightarrow> live s"
  by (simp add: live_def)

lemma live_send [simp]: "live (con_send_raw bs s) \<longleftrightarrow> live s"
  by (simp add: live_def)

lemma skip_sb_enc:
  "live s \<Longrightarrow> net_in s = esc bs @ 255 # 240 # rest \<Longrightarrow> con_skip_sb s = (True, s\<lparr>net_in := rest\<rparr>)"
proof (induction bs arbitrary: s)
  case Nil
  then show ?case by (subst con_skip_sb.simps) (simp add: esc_def recv_live)
next
  case (Cons b bs)
  have n: "net_in s = (if b = 255 then [255, 255] else [b]) @ esc bs @ 255 # 240 # rest"
    using Cons.prems(2) by (simp add: esc_def)
  have "con_skip_sb (s\<lparr>net_in := esc bs @ 255 # 240 # rest\<rparr>) = (True, s\<lparr>net_in := rest\<rparr>)"
    using Cons.IH[of "s\<lparr>net_in := esc bs @ 255 # 240 # rest\<rparr>"] Cons.prems(1) by simp
  then show ?case using n Cons.prems(1) by (subst con_skip_sb.simps) (simp add: recv_live split: if_splits)
qed

lemma in_byte_plain:
  "live s \<Longrightarrow> net_in s = b # bs \<Longrightarrow> b \<noteq> 255 \<Longrightarrow> con_in_byte s = (Some b, s\<lparr>net_in := bs\<rparr>)"
  by (subst con_in_byte.simps) (simp add: recv_live)

lemma in_byte_end: "live s \<Longrightarrow> net_in s = [] \<Longrightarrow> con_in_byte s = (None, s\<lparr>con_eof := True\<rparr>)"
  by (subst con_in_byte.simps) (simp add: recv_live)

lemma in_byte_tel:
  assumes "live s" "net_in s = tel_enc t @ rest" "tel_ok t"
  shows "con_in_byte s =
    (case tel_data t of [] \<Rightarrow> con_in_byte (s\<lparr>net_in := rest\<rparr>) | b # _ \<Rightarrow> (Some b, s\<lparr>net_in := rest\<rparr>))"
proof (cases t)
  case (Data b)
  then show ?thesis using assms
    by (subst con_in_byte.simps) (cases "b = 255"; simp add: esc_def recv_live)
next
  case (Opt c x)
  then show ?thesis using assms by (subst con_in_byte.simps) (auto simp: recv_live)
next
  case (Sub bs)
  have "con_skip_sb (s\<lparr>net_in := esc bs @ 255 # 240 # rest\<rparr>) = (True, s\<lparr>net_in := rest\<rparr>)"
    using skip_sb_enc[of "s\<lparr>net_in := esc bs @ 255 # 240 # rest\<rparr>" bs rest] assms(1) by simp
  then show ?thesis using assms Sub by (subst con_in_byte.simps) (simp add: recv_live)
next
  case (Cmd c)
  then have "unat c < 250" using assms(3) by (simp add: word_less_nat_alt)
  then have "c \<noteq> 255" "\<not> 251 \<le> c" "c \<noteq> 250" by (auto simp: word_le_nat_alt)
  then show ?thesis using assms Cmd by (subst con_in_byte.simps) (simp add: recv_live)
qed

text \<open>Reading up to \<open>n\<close> bytes.\<close>

fun con_bytes :: "nat \<Rightarrow> con_state \<Rightarrow> bytes \<times> con_state" where
  "con_bytes 0 s = ([], s)"
| "con_bytes (Suc n) s =
     (case con_in_byte s of
        (None, s) \<Rightarrow> ([], s)
      | (Some b, s) \<Rightarrow> (let (bs, s) = con_bytes n s in (b # bs, s)))"

lemma con_bytes_tel:
  "live s \<Longrightarrow> net_in s = concat (map tel_enc ts) \<Longrightarrow> \<forall>t\<in>set ts. tel_ok t \<Longrightarrow> length (concat (map tel_data ts)) < n \<Longrightarrow>
   con_bytes n s = (concat (map tel_data ts), s\<lparr>net_in := [], con_eof := True\<rparr>)"
proof (induction ts arbitrary: n s)
  case Nil
  then show ?case by (cases n) (simp_all add: in_byte_end)
next
  case (Cons t ts)
  let ?s = "s\<lparr>net_in := concat (map tel_enc ts)\<rparr>"
  have b: "con_in_byte s = (case tel_data t of [] \<Rightarrow> con_in_byte ?s | b # _ \<Rightarrow> (Some b, ?s))"
    using Cons.prems by (intro in_byte_tel) auto
  have ih: "con_bytes n ?s = (concat (map tel_data ts), s\<lparr>net_in := [], con_eof := True\<rparr>)"
    if "length (concat (map tel_data ts)) < n" for n
    using Cons.IH[of ?s n] Cons.prems(1,3) that by simp
  show ?case
  proof (cases n)
    case (Suc k)
    show ?thesis
    proof (cases "tel_data t")
      case Nil
      then have "con_bytes n s = con_bytes n ?s" using b Suc by simp
      then show ?thesis using ih[of n] Nil Cons.prems(4) by simp
    next
      case (Cons c cs)
      then have t: "tel_data t = [c]" by (cases t) auto
      then show ?thesis using b Suc ih[of k] Cons.prems(4) by simp
    qed
  qed (use Cons.prems(4) in simp)
qed



section \<open>The line editor\<close>

text \<open>The editor in one equation per key, the echo of each key, and a terminal: a row of cells and the
  column of the cursor.\<close>

definition edit :: "nat \<Rightarrow> bytes \<Rightarrow> u8 \<Rightarrow> bytes" where
  "edit cap l k =
     (if k = 0 then l else if k = 0x7F \<or> k = 8 then butlast l
      else if length l < cap then l @ [k] else l)"

definition echo_key :: "nat \<Rightarrow> bytes \<Rightarrow> u8 \<Rightarrow> bytes" where
  "echo_key cap l k =
     (if k = 0 then [] else if k = 0x7F \<or> k = 8 then (if l \<noteq> [] then [8, 32, 8] else [])
      else if length l < cap \<and> (k \<ge> 32 \<or> k = 9) then [k] else [])"

fun echo :: "nat \<Rightarrow> bytes \<Rightarrow> bytes \<Rightarrow> bytes" where
  "echo cap l [] = []"
| "echo cap l (k # ks) = echo_key cap l k @ echo cap (edit cap l k) ks"

fun screen_put :: "bytes \<times> nat \<Rightarrow> u8 \<Rightarrow> bytes \<times> nat" where
  "screen_put (cells, col) c =
     (if c = 8 then (cells, col - 1) else (take col cells @ [c] @ drop (col + 1) cells, col + 1))"

definition screen :: "bytes \<times> nat \<Rightarrow> bytes \<Rightarrow> bytes \<times> nat" where
  "screen t bs = foldl screen_put t bs"

definition ordinary :: "u8 \<Rightarrow> bool" where
  "ordinary k \<longleftrightarrow> k \<noteq> 4 \<and> k \<noteq> 10 \<and> k \<noteq> 13 \<and> k \<noteq> 255"

definition printable :: "u8 \<Rightarrow> bool" where
  "printable k \<longleftrightarrow> 32 \<le> k \<and> k < 0x7F"

lemma send_raw_all:
  "con_csock s \<Longrightarrow> \<not> con_eof s \<Longrightarrow> 0 \<notin> set (net_sends s) \<Longrightarrow>
   net_out (con_send_raw bs s) = net_out s @ bs \<and> \<not> con_eof (con_send_raw bs s) \<and>
   0 \<notin> set (net_sends (con_send_raw bs s))"
  using send_raw_delivers[of s bs] by (auto simp: delivers_def)

lemma con_cook_edit:
  "\<lbrakk>live s; \<not> con_eof s; 0 \<notin> set (net_sends s); net_in s = keys @ 10 # rest; \<forall>k\<in>set keys. ordinary k\<rbrakk> \<Longrightarrow>
   \<exists>s'. con_cook cap l s = (take (max cap (length (foldl (edit cap) l keys))) (foldl (edit cap) l keys @ [10]), s') \<and>
     net_in s' = rest \<and> net_out s' = net_out s @ echo cap l keys @ [13, 10]"
proof (induction keys arbitrary: l s)
  case Nil
  have "con_in_byte s = (Some 10, s\<lparr>net_in := rest\<rparr>)" using Nil(1,4) by (intro in_byte_plain) auto
  moreover have "net_out (con_send_raw [13, 10] (s\<lparr>net_in := rest\<rparr>)) = net_out s @ [13, 10]"
    using send_raw_all[of "s\<lparr>net_in := rest\<rparr>" "[13, 10]"] Nil(1-3) by (simp add: live_def)
  ultimately show ?case by (subst con_cook.simps) (auto simp: Let_def max_def)
next
  case (Cons k keys)
  let ?s = "s\<lparr>net_in := keys @ 10 # rest\<rparr>"
  have ord: "k \<noteq> 4" "k \<noteq> 10" "k \<noteq> 13" "k \<noteq> 255" using Cons.prems(5) by (simp_all add: ordinary_def)
  then have b: "con_in_byte s = (Some k, ?s)" using Cons.prems(1,4) by (intro in_byte_plain) auto
  have c: "con_csock ?s" "\<not> con_eof ?s" "0 \<notin> set (net_sends ?s)" using Cons.prems(1-3) by (simp_all add: live_def)
  define s1 where "s1 = (if echo_key cap l k = [] then ?s else con_send_raw (echo_key cap l k) ?s)"
  have s1: "live s1" "\<not> con_eof s1" "0 \<notin> set (net_sends s1)" "net_in s1 = keys @ 10 # rest"
    "net_out s1 = net_out s @ echo_key cap l k"
    using send_raw_all[OF c, of "echo_key cap l k"] c Cons.prems(1) by (auto simp: s1_def)
  have step: "con_cook cap l s = con_cook cap (edit cap l k) s1"
    using b ord by (subst con_cook.simps) (auto simp: edit_def echo_key_def s1_def)
  have "\<forall>k\<in>set keys. ordinary k" using Cons.prems(5) by simp
  from Cons.IH[OF s1(1-4) this, of "edit cap l k"] show ?case unfolding step using s1(5) by auto
qed

text \<open>What is on the screen: the line, and blanks where something was rubbed out.\<close>

lemma screen_append: "screen t (a @ b) = screen (screen t a) b"
  by (simp add: screen_def)

lemma screen_echo:
  "\<forall>k\<in>set keys. printable k \<or> k = 8 \<or> k = 0x7F \<or> k = 0 \<Longrightarrow>
   \<exists>j. screen (l @ replicate i 32, length l) (echo cap l keys) =
     (foldl (edit cap) l keys @ replicate j 32, length (foldl (edit cap) l keys))"
proof (induction keys arbitrary: l i)
  case Nil
  then show ?case by (auto simp: screen_def)
next
  case (Cons k keys)
  have "\<exists>j. screen (l @ replicate i 32, length l) (echo_key cap l k) =
      (edit cap l k @ replicate j 32, length (edit cap l k))"
  proof (cases "k = 0x7F \<or> k = 8")
    case True
    show ?thesis
    proof (cases l rule: rev_cases)
      case Nil
      then show ?thesis using True by (auto simp: screen_def edit_def echo_key_def)
    next
      case (snoc m c)
      have "screen (l @ replicate i 32, length l) [8, 32, 8] = (m @ replicate (Suc i) 32, length m)"
        by (simp add: screen_def snoc)
      then show ?thesis using True snoc by (intro exI[of _ "Suc i"]) (auto simp: edit_def echo_key_def)
    qed
  next
    case False
    then have k: "k = 0 \<or> printable k" using Cons.prems by auto
    show ?thesis
    proof (cases "k \<noteq> 0 \<and> length l < cap")
      case True
      then have p: "32 \<le> k" "k \<noteq> 8" using k False by (auto simp: printable_def)
      have "drop (length l + 1) (l @ replicate i 32) = replicate (i - 1) 32" by simp
      then have "screen (l @ replicate i 32, length l) [k] = (l @ [k] @ replicate (i - 1) 32, length l + 1)"
        using p by (simp add: screen_def)
      then show ?thesis using True False p by (auto simp: edit_def echo_key_def)
    next
      case False
      then show ?thesis using k \<open>\<not> (k = 0x7F \<or> k = 8)\<close> by (auto simp: screen_def edit_def echo_key_def)
    qed
  qed
  then obtain j where j: "screen (l @ replicate i 32, length l) (echo_key cap l k) =
      (edit cap l k @ replicate j 32, length (edit cap l k))" by blast
  have "\<forall>k\<in>set keys. printable k \<or> k = 8 \<or> k = 0x7F \<or> k = 0" using Cons.prems by simp
  from Cons.IH[OF this, of "edit cap l k" j] show ?case by (simp add: screen_append j)
qed

text \<open>C26. The line a client types: keys up to a newline, rubbed out with DEL or backspace, give the guest the
  line the editor model gives; what follows the newline stays for the next line; and the echo puts on
  the client's screen exactly that line, followed by blanks, with the cursor at its end.\<close>

theorem cooked_line:
  assumes "con_csock s" "con_pushback s = None" "\<not> con_eof s" "0 \<notin> set (net_sends s)"
    and "net_in s = keys @ 10 # rest" "\<forall>k\<in>set keys. printable k \<or> k = 8 \<or> k = 0x7F \<or> k = 0"
    and "length (foldl (edit cap) [] keys) < cap"
  shows "\<exists>s' e j. con_cook_line cap s = (foldl (edit cap) [] keys @ [10], s') \<and> net_in s' = rest \<and>
    net_out s' = net_out s @ e @ [13, 10] \<and>
    screen ([], 0) e = (foldl (edit cap) [] keys @ replicate j 32, length (foldl (edit cap) [] keys))"
proof -
  have "\<forall>k\<in>set keys. ordinary k" using assms(6) by (auto simp: ordinary_def printable_def)
  moreover have "live s" using assms(1,2) by (simp add: live_def)
  ultimately obtain s' where s': "con_cook cap [] s = (foldl (edit cap) [] keys @ [10], s')" "net_in s' = rest"
      "net_out s' = net_out s @ echo cap [] keys @ [13, 10]"
    using con_cook_edit[of s keys rest cap "[]"] assms(3-5,7) by (auto simp: max_def)
  obtain j where "screen ([], 0) (echo cap [] keys) = (foldl (edit cap) [] keys @ replicate j 32, length (foldl (edit cap) [] keys))"
    using screen_echo[OF assms(6), of "[]" 0 cap] by auto
  with s' show ?thesis by (auto simp: con_cook_line_def)
qed

theorem cooked_line_witness:
  "\<exists>s'. con_cook_line 4100 (con0\<lparr>con_csock := True, net_in := [108, 115, 115, 8, 10, 120]\<rparr>) = ([108, 115, 10], s') \<and>
     net_in s' = [120] \<and> net_out s' = [108, 115, 115, 8, 32, 8, 13, 10]"
proof -
  let ?s = "con0\<lparr>con_csock := True, net_in := [108, 115, 115, 8, 10, 120]\<rparr>"
  have l: "foldl (edit 4100) [] [108, 115, 115, 8] = [108, 115]" by (simp add: edit_def)
  have "\<exists>s' e j. con_cook_line 4100 ?s = (foldl (edit 4100) [] [108, 115, 115, 8] @ [10], s') \<and> net_in s' = [120] \<and>
      net_out s' = net_out ?s @ e @ [13, 10] \<and>
      screen ([], 0) e = (foldl (edit 4100) [] [108, 115, 115, 8] @ replicate j 32, length (foldl (edit 4100) [] [108, 115, 115, 8]))"
    by (rule cooked_line) (simp_all add: con0_def printable_def edit_def)
  then obtain s' where s': "con_cook_line 4100 ?s = ([108, 115, 10], s')" "net_in s' = [120]" unfolding l by auto
  have "net_out (snd (con_cook_line 4100 ?s)) = [108, 115, 115, 8, 32, 8, 13, 10]" by code_simp
  with s' show ?thesis by simp
qed

section \<open>The buffers\<close>

text \<open>The buffers stay within their arrays.  \<open>tty\<close> is what only line reading and the ioctls change.\<close>

definition con_ok :: "con_state \<Rightarrow> bool" where
  "con_ok s \<longleftrightarrow> length (con_line s) \<le> LINE_CAP \<and> con_line_pos s \<le> length (con_line s) \<and>
     length (con_std s) \<le> 512 \<and> length (tty_sg s) = 6 \<and> length (tty_tc s) = 6 \<and> length (tty_ltc s) = 6"

definition tty :: "con_state \<Rightarrow> bytes \<times> nat \<times> bytes \<times> bytes \<times> bytes" where
  "tty s = (con_line s, con_line_pos s, tty_sg s, tty_tc s, tty_ltc s)"

lemma tty_upd [simp]:
  "tty (s\<lparr>con_eof := b\<rparr>) = tty s" "tty (s\<lparr>con_csock := b\<rparr>) = tty s" "tty (s\<lparr>net_polls := ks\<rparr>) = tty s"
  "tty (s\<lparr>std_out := o1\<rparr>) = tty s" "tty (s\<lparr>std_err := o2\<rparr>) = tty s" "tty (s\<lparr>host_raw := b\<rparr>) = tty s"
  by (simp_all add: tty_def)

lemma tty_send_raw [simp]: "tty (con_send_raw bs s) = tty s"
  by (simp add: tty_def)

lemma tty_recv: "tty (snd (con_recv_raw s)) = tty s" "con_std (snd (con_recv_raw s)) = con_std s"
  by (auto simp: tty_def con_recv_raw_def split: option.split list.split)

lemma receives_tty: "receives s s' \<Longrightarrow> tty s' = tty s \<and> con_std s' = con_std s"
  by (induction rule: receives.induct) (auto simp: tty_recv)

lemma tty_in_byte: "con_in_byte s = (r, s') \<Longrightarrow> tty s' = tty s \<and> con_std s' = con_std s"
  using receives_tty[OF in_byte_le[of s]] by simp

lemma tty_cr_pair [simp]: "tty (cr_pair s) = tty s" "con_std (cr_pair s) = con_std s"
  using tty_in_byte[of s] by (auto simp: cr_pair_def tty_def split: prod.splits option.splits)

text \<open>Either a key ends the line, or the loop goes round with the same buffers.\<close>

lemma cook_round:
  assumes "con_in_byte s = (Some k, s1)" "k \<noteq> 13" "k \<noteq> 10" "k \<noteq> 4"
  shows "\<exists>l' s2. con_cook cap l s = con_cook cap l' s2 \<and> tty s2 = tty s \<and> con_std s2 = con_std s \<and>
    pending_in s2 < pending_in s \<and> (length l \<le> cap \<longrightarrow> length l' \<le> cap)"
proof -
  note b = in_byte_less[OF assms(1)] tty_in_byte[OF assms(1)]
  let ?l = "if k = 0 then l else if k = 0x7F \<or> k = 8 then butlast l else if length l < cap then l @ [k] else l"
  let ?e = "if k = 0 then [] else if k = 0x7F \<or> k = 8 then (if l = [] then [] else [8, 32, 8])
    else if length l < cap \<and> (k \<ge> 32 \<or> k = 9) then [k] else []"
  let ?s = "if ?e = [] then s1 else con_send_raw ?e s1"
  have "con_cook cap l s = con_cook cap ?l ?s"
    using assms by (simp add: con_cook.simps[of cap l s])
  moreover have "tty ?s = tty s" "con_std ?s = con_std s" "pending_in ?s < pending_in s" using b by simp_all
  moreover have "length l \<le> cap \<longrightarrow> length ?l \<le> cap" by auto
  ultimately show ?thesis by blast
qed

lemma tty_cook:
  "length l \<le> cap \<Longrightarrow> con_cook cap l s = (l', s') \<Longrightarrow> tty s' = tty s \<and> con_std s' = con_std s \<and> length l' \<le> cap"
proof (induction "pending_in s" arbitrary: l s l' s' rule: less_induct)
  case less
  obtain r s1 where b: "con_in_byte s = (r, s1)" by fastforce
  note t = tty_in_byte[OF b] and u = con_cook.simps[of cap l s]
  show ?case
  proof (cases "\<exists>k. r = Some k \<and> k \<noteq> 13 \<and> k \<noteq> 10 \<and> k \<noteq> 4")
    case True
    then obtain k where k: "r = Some k" "k \<noteq> 13" "k \<noteq> 10" "k \<noteq> 4" by blast
    from cook_round[OF b[unfolded k(1)] k(2-4), of cap l] obtain m s2 where
      e: "con_cook cap l s = con_cook cap m s2" and s2: "tty s2 = tty s" "con_std s2 = con_std s"
      "pending_in s2 < pending_in s" "length m \<le> cap" using less.prems(1) by blast
    have "con_cook cap m s2 = (l', s')" using less.prems(2) e by metis
    from less.hyps[OF s2(3,4) this] show ?thesis using s2(1,2) by simp
  next
    case False
    then show ?thesis using less.prems b t u by (cases r) (auto simp: Let_def split: if_splits)
  qed
qed

text \<open>Reading and writing keep the buffers in their arrays.\<close>

lemma con_ok_tty: "tty s' = tty s \<Longrightarrow> con_std s' = con_std s \<Longrightarrow> con_ok s' = con_ok s"
  by (simp add: con_ok_def tty_def)

lemma ensure_client_tty [simp]: "tty (con_ensure_client s) = tty s" "con_std (con_ensure_client s) = con_std s"
  by (simp_all add: con_ensure_client_def)

lemma con_ok_sock_read: "con_ok s \<Longrightarrow> con_ok (snd (con_sock_read n s))"
proof -
  assume ok: "con_ok s"
  obtain l s1 where c: "con_cook_line LINE_CAP (s\<lparr>con_line := [], con_line_pos := 0\<rparr>) = (l, s1)" by fastforce
  have "tty s1 = ([], 0, tty_sg s, tty_tc s, tty_ltc s)" "con_std s1 = con_std s" "length l \<le> LINE_CAP"
    using tty_cook[of "[]" LINE_CAP "s\<lparr>con_line := [], con_line_pos := 0\<rparr>" l s1] c
    by (simp_all add: con_cook_line_def tty_def)
  then show ?thesis using ok c by (auto simp: con_sock_read_def con_ok_def tty_def Let_def)
qed

lemma con_ok_std_getc: "con_ok s \<Longrightarrow> con_ok (snd (con_std_getc s))"
  by (auto simp: con_std_getc_def con_ok_def split: list.split dest: arg_cong[of _ _ length])

lemma con_ok_std_line: "con_ok s \<Longrightarrow> con_ok (snd (con_std_line n s))"
proof (induction n arbitrary: s)
  case (Suc n)
  obtain r s1 where g: "con_std_getc s = (r, s1)" by fastforce
  have "con_ok s1" using con_ok_std_getc[OF Suc.prems] g by simp
  then show ?case using Suc.IH[of s1] Suc.prems g by (auto split: option.split prod.split)
qed simp

lemma tty_avail [simp]:
  "tty (snd (con_input_avail s)) = tty s" "con_std (snd (con_input_avail s)) = con_std s"
  by (simp_all add: con_input_avail_def poll_def Let_def split: list.split)

lemma tty_ready [simp]:
  "tty (snd (con_input_ready s)) = tty s" "con_std (snd (con_input_ready s)) = con_std s"
  by (simp_all add: con_input_ready_def split_def Let_def)

lemma con_ok_in_key: "con_ok s \<Longrightarrow> con_ok (snd (con_in_key s))"
proof -
  assume ok: "con_ok s"
  obtain r s1 where g: "(if con_use_sock s then con_in_byte s else con_std_getc s) = (r, s1)" by fastforce
  have ok1: "con_ok s1"
  proof (cases "con_use_sock s")
    case True
    then show ?thesis using g tty_in_byte[of s r s1] con_ok_tty[of s1 s] ok by simp
  next
    case False
    then show ?thesis using g con_ok_std_getc[OF ok] by simp
  qed
  obtain b s2 where b: "con_input_ready s1 = (b, s2)" by fastforce
  have "con_ok s2" using tty_ready[of s1] b con_ok_tty[of s2 s1] ok1 by simp
  moreover have "con_ok (cr_pair s2)" using con_ok_tty[of "cr_pair s2" s2] \<open>con_ok s2\<close> by simp
  ultimately show ?thesis using ok1 unfolding con_in_key_def g by (cases r) (auto simp: b)
qed

lemma con_ok_raw_more: "con_ok s \<Longrightarrow> con_ok (snd (con_raw_more n s))"
proof (induction n arbitrary: s)
  case (Suc n)
  obtain b s1 where b: "con_input_ready s = (b, s1)" by fastforce
  have 1: "con_ok s1" using tty_ready[of s] b con_ok_tty[of s1 s] Suc.prems by simp
  obtain r s2 where r: "con_in_key s1 = (r, s2)" by fastforce
  have 2: "con_ok s2" using con_ok_in_key[OF 1] r by simp
  show ?case using Suc.IH[OF 2] 1 2 b r by (auto split: option.split prod.split bool.split)
qed simp

lemma con_ok_read:
  "con_ok s \<Longrightarrow> con_ok (snd (con_read_raw n s))" "con_ok s \<Longrightarrow> con_ok (snd (con_read_line n s))"
proof -
  assume ok: "con_ok s"
  have e: "con_ok (con_ensure_client s)" using con_ok_tty[of "con_ensure_client s" s] ok by simp
  obtain r s1 where r: "con_in_key (con_ensure_client s) = (r, s1)" by fastforce
  have "con_ok s1" using con_ok_in_key[OF e] r by simp
  then show "con_ok (snd (con_read_raw n s))"
    using e r con_ok_raw_more[of s1 "n - 1"] by (auto simp: con_read_raw_def Let_def split: option.split prod.split)
  show "con_ok (snd (con_read_line n s))"
    using con_ok_sock_read[OF e] con_ok_std_line[OF e] by (simp add: con_read_line_def Let_def)
qed

lemma tty_out_loop [simp]: "tty (con_out_loop p b s) = tty s \<and> con_std (con_out_loop p b s) = con_std s"
  by (induction p b s rule: con_out_loop.induct) (auto simp: Let_def)

lemma con_ok_write: "con_ok s \<Longrightarrow> con_ok (con_write p e s)"
  using con_ok_tty[of "con_write p e s" s] by (simp add: con_write_def con_sock_write_def Let_def)

section \<open>Lines across reads\<close>

fun con_reads :: "nat list \<Rightarrow> con_state \<Rightarrow> bytes \<times> con_state" where
  "con_reads [] s = ([], s)"
| "con_reads (n # ns) s =
     (let (a, s) = con_sock_read n s; (b, s) = con_reads ns s in (a @ b, s))"

lemma sock_read_left:
  assumes "con_line_pos s < length (con_line s)" "n \<le> length (con_line s) - con_line_pos s"
  shows "con_sock_read n s = (take n (drop (con_line_pos s) (con_line s)), s\<lparr>con_line_pos := con_line_pos s + n\<rparr>)"
  using assms by (auto simp: con_sock_read_def Let_def)

lemma con_reads_left:
  "\<lbrakk>con_line_pos s < length (con_line s) \<or> ns = []; 0 \<notin> set ns; sum_list ns \<le> length (con_line s) - con_line_pos s\<rbrakk> \<Longrightarrow>
   con_reads ns s = (take (sum_list ns) (drop (con_line_pos s) (con_line s)), s\<lparr>con_line_pos := con_line_pos s + sum_list ns\<rparr>)"
proof (induction ns arbitrary: s)
  case (Cons n ns)
  let ?s = "s\<lparr>con_line_pos := con_line_pos s + n\<rparr>"
  have r: "con_sock_read n s = (take n (drop (con_line_pos s) (con_line s)), ?s)"
    using Cons.prems by (intro sock_read_left) auto
  have "con_line_pos ?s < length (con_line ?s) \<or> ns = []" using Cons.prems by (cases ns) auto
  from Cons.IH[OF this] have "con_reads ns ?s = (take (sum_list ns) (drop (con_line_pos s + n) (con_line s)),
      s\<lparr>con_line_pos := con_line_pos s + n + sum_list ns\<rparr>)"
    using Cons.prems by simp
  then show ?case using r by (simp add: take_add add.commute add.left_commute)
qed simp

text \<open>A line survives being read in pieces: once the last line is used up, reads of any positive sizes that
  add up to the length of the next cooked line deliver that line, in order, and take no more of the
  client's input than cooking it did.\<close>

theorem line_survives_reads:
  assumes "con_line_pos s \<ge> length (con_line s)" "ns \<noteq> []" "0 \<notin> set ns"
    and "con_cook_line 4100 (s\<lparr>con_line := [], con_line_pos := 0\<rparr>) = (l, s')" "l \<noteq> []" "sum_list ns = length l"
  shows "fst (con_reads ns s) = l \<and> net_in (snd (con_reads ns s)) = net_in s'"
proof -
  obtain n ms where ns: "ns = n # ms" using assms(2) by (cases ns) auto
  have p: "con_line_pos s' = 0"
    using tty_cook[of "[]" 4100 "s\<lparr>con_line := [], con_line_pos := 0\<rparr>" l s'] assms(4)
    by (simp add: con_cook_line_def tty_def)
  have n: "con_sock_read n s = con_sock_read n (s'\<lparr>con_line := l\<rparr>)"
    using assms(1,4,5) p by (simp add: con_sock_read_def Let_def)
  then have "con_reads ns s = con_reads ns (s'\<lparr>con_line := l\<rparr>)" by (simp add: ns)
  also have "\<dots> = (take (sum_list ns) l, s'\<lparr>con_line := l, con_line_pos := sum_list ns\<rparr>)"
    using con_reads_left[of "s'\<lparr>con_line := l\<rparr>" ns] assms(3,5,6) p by simp
  finally show ?thesis using assms(6) by simp
qed

theorem line_survives_reads_witness:
  "fst (con_reads [1, 1, 1] (con0\<lparr>con_csock := True, net_in := [108, 115, 10, 120]\<rparr>)) = [108, 115, 10]"
proof -
  let ?s = "con0\<lparr>con_csock := True, net_in := [108, 115, 10, 120]\<rparr>"
  obtain l s' where c: "con_cook_line 4100 (?s\<lparr>con_line := [], con_line_pos := 0\<rparr>) = (l, s')" by fastforce
  have "fst (con_cook_line 4100 (?s\<lparr>con_line := [], con_line_pos := 0\<rparr>)) = [108, 115, 10]" by code_simp
  then have l: "l = [108, 115, 10]" using c by simp
  have "fst (con_reads [1, 1, 1] ?s) = l \<and> net_in (snd (con_reads [1, 1, 1] ?s)) = net_in s'"
    by (rule line_survives_reads[OF _ _ _ c]) (simp_all add: l con0_def)
  then show ?thesis using l by simp
qed

end
