(* ===== verification/Newproc.thy ===== *)
theory Newproc
  imports Kcall Umem Usermode Console "HOL-Library.Monad_Syntax"
begin

text \<open>
  The way a program starts under the kernel (\<^verbatim>\<open>cpu.c\<close>, \<open>proc_experiment\<close>): once the kernel idles, the
  emulator has it create a process by its own \<open>newproc\<close>, wires an image or a stub that calls \<open>execve\<close>
  into the new address space, parks the kernel's first process on a sentinel and loads the context.

  The phases of that one function are definitions of their own, in its order.  A phase is \<open>None\<close> where
  a step of the machine has no result or the image is read past its end.

  The lemmas run the instruction words the emulator plants on the emulator's own decoder: they do
  what the comments beside them say.
\<close>

section \<open>Options and state\<close>

record px_opts =
  px_procexec :: bool                  \<comment> \<open>\<open>procexec\<close>: the kernel's \<open>execve\<close> loads the program\<close>
  px_run_init :: bool
  px_interactive :: bool
  px_path :: "u8 list option"          \<comment> \<open>\<open>uprog_path\<close>\<close>
  px_argv :: "u8 list list"
  px_envp :: "u8 list list"

record px_state =
  procexp_cluster :: u32
  procexp_pid :: u32
  procexp_proc :: u32
  deliver_traps :: bool

abbreviation (input) P_SIZE :: u32 where "P_SIZE \<equiv> 512"
abbreviation (input) P_STAT :: u32 where "P_STAT \<equiv> 0x40"
abbreviation (input) P_PID :: u32 where "P_PID \<equiv> 0x4c"
abbreviation (input) P_CTX :: u32 where "P_CTX \<equiv> 0xc8"
abbreviation (input) P_UMAP :: u32 where "P_UMAP \<equiv> 0xd4"
abbreviation (input) G_ALLPROC :: u32 where "G_ALLPROC \<equiv> 0xC1015648"
abbreviation (input) G_PROCBASE :: u32 where "G_PROCBASE \<equiv> 0xC1015758"
abbreviation (input) G_NPROC :: u32 where "G_NPROC \<equiv> 0xC1014B80"
abbreviation (input) F_NEWPROC :: u32 where "F_NEWPROC \<equiv> 0xC004E3B0"
abbreviation (input) PROCEXP_TRAMP :: u32 where "PROCEXP_TRAMP \<equiv> 0xC0F00000"
abbreviation (input) PROCEXP_IDLE :: u32 where "PROCEXP_IDLE \<equiv> 0xC0F00020"
abbreviation (input) F_ICODE :: u32 where "F_ICODE \<equiv> 0xC0016E30"
abbreviation (input) F_LOAD_CONTEXT :: u32 where "F_LOAD_CONTEXT \<equiv> 0xC0017498"

section \<open>The process\<close>

text \<open>The first of the clusters 2 and 3 that the kernel's table says exists.\<close>

fun find_cluster :: "u32 list \<Rightarrow> machine \<Rightarrow> u32 \<Rightarrow> u32 \<times> machine" where
  "find_cluster [] m ctab = (0, m)"
| "find_cluster (c # cs) m ctab =
     (if ctab = 0 then (0, m)
      else
        (let (v, m) = vr32 m (ctab + c * 0xB0 + 0x14)
         in if v = c then (c, m) else find_cluster cs m ctab))"

text \<open>The new process and its context; \<open>None\<close> inside where there is none.\<close>

definition px_create :: "machine \<Rightarrow> px_state \<Rightarrow> ((u32 \<times> u32) option \<times> machine \<times> px_state) option" where
  "px_create m x =
     (let (head, m) = vr32 m G_ALLPROC;
          (ctab, m) = vr32 m 0xC1016D58;
          (clu, m) = find_cluster [2, 3] m ctab;
          x = x\<lparr>procexp_cluster := clu\<rparr>
      in do {
        (rc, m) \<leftarrow> kcall m F_NEWPROC 0 0 0 0 0;
        let (p, m) = vr32 m G_ALLPROC;
        if rc \<noteq> 0 \<or> p = head then Some (None, m, x)
        else
          (let m = (if clu \<noteq> 0 then vw32 m (p + 0x90) clu else m);
               (w, m) = vr32 m (p + P_PID);
               x = x\<lparr>procexp_pid := drop_bit 16 w, procexp_proc := p\<rparr>;
               (ctx, m) = vr32 m (p + P_CTX)
           in Some (Some (p, ctx), m, x))
      })"

text \<open>Its address space: map and page tables, and the bias between where the tables are and where
  the kernel says they are.\<close>

definition set_ktab_bias :: "u32 \<Rightarrow> machine \<Rightarrow> machine" where
  "set_ktab_bias b m = m\<lparr>mmu := (mmu m)\<lparr>ktab_bias := b\<rparr>\<rparr>"

definition px_space :: "machine \<Rightarrow> u32 \<Rightarrow> u32 \<Rightarrow> ((u32 \<times> u32) option \<times> machine) option" where
  "px_space m cur p =
     (let (vmap, m) = vr32 m (p + P_UMAP) in do {
        (pmap, m) \<leftarrow> kcall m 0xC008F55C vmap 0 0 0 0;
        let (umap, m) = vr32 m (cur + P_UMAP);
        let (_, m) = vr32 m (umap + 0x50);
        if pmap < 0xC0000000 \<or> pmap = 0xFFFFFFFF then Some (None, m)
        else
          (let (tva, m) = vr32 m pmap;
               (pa, m) = translate m tva False;
               (tpa, m) = vr32 m (pmap + 4)
           in Some (Some (vmap, pmap), set_ktab_bias (pa - tpa) m))
      })"

section \<open>The image\<close>

text \<open>Where text and data lie, in memory and in the file.\<close>

record px_image =
  xi_entry :: u32
  xi_txtaddr :: u32
  xi_txtoff :: u32
  xi_dataddr :: u32
  xi_datoff :: u32
  xi_hi :: u32

definition px_layout :: "aout \<Rightarrow> px_image" where
  "px_layout a =
     (let std = (drop_bit 16 (ao_magic a) AND 0xFF \<noteq> 0);
          txtoff = (if std then 0 else 8192); txtaddr = (if std then 8192 else 0);
          dataddr = txtaddr + ((ao_text a + 4095) AND NOT 4095)
      in \<lparr>xi_entry = ao_entry a, xi_txtaddr = txtaddr, xi_txtoff = txtoff, xi_dataddr = dataddr,
          xi_datoff = txtoff + ao_text a, xi_hi = (dataddr + ao_data a + ao_bss a + 0x1FFF) AND NOT 0x1FFF\<rparr>)"

definition file_byte :: "u8 list \<Rightarrow> u32 \<Rightarrow> u8 option" where
  "file_byte img i = (if unat i < length img then Some (img ! unat i) else None)"

definition image_byte :: "aout \<Rightarrow> px_image \<Rightarrow> u32 \<Rightarrow> u8 option" where
  "image_byte a i q =
     (if q \<ge> xi_txtaddr i \<and> q < xi_txtaddr i + ao_text a then file_byte (ao_img a) (xi_txtoff i + (q - xi_txtaddr i))
      else if q \<ge> xi_dataddr i \<and> q < xi_dataddr i + ao_data a then
        file_byte (ao_img a) (xi_datoff i + (q - xi_dataddr i))
      else Some 0)"

text \<open>The pages in turn; the count is of those the kernel did not map.\<close>

fun px_pages :: "(u32 \<Rightarrow> u8 option) \<Rightarrow> u32 \<Rightarrow> machine \<Rightarrow> u32 list \<Rightarrow> (nat \<times> machine) option" where
  "px_pages f pmap m [] = Some (0, m)"
| "px_pages f pmap m (va # vs) =
     (case kwalk m pmap va of
        (None, m) \<Rightarrow> do { (k, m) \<leftarrow> px_pages f pmap m vs; Some (Suc k, m) }
      | (Some pa, m) \<Rightarrow> do {
          bs \<leftarrow> those (map (\<lambda>i. f (va + of_nat i)) [0..<4096]);
          px_pages f pmap (m\<lparr>mem := mem_load (mem m) pa bs\<rparr>) vs
        })"

definition page_list :: "u32 \<Rightarrow> u32 list" where
  "page_list hi = map (\<lambda>k. of_nat k * 4096) [0..<unat hi div 4096]"

text \<open>\<open>vm_allocate\<close> and \<open>vm_map_pageable\<close> over one range; the flag is success.\<close>

definition px_range :: "machine \<Rightarrow> u32 \<Rightarrow> u32 \<Rightarrow> u32 \<Rightarrow> u32 \<Rightarrow> (bool \<times> machine) option" where
  "px_range m vmap slot lo hi =
     (let m = vw32 m slot lo in do {
        (e, m) \<leftarrow> kcall m 0xC008EB6C vmap slot (hi - lo) 0x90 0xFFFFFFFF;
        (w, m) \<leftarrow> kcall m 0xC0092350 vmap lo hi 1 0;
        Some (e = 0 \<and> w = 0, m)
      })"

section \<open>The arguments\<close>

fun uput_strings :: "u32 \<Rightarrow> machine \<Rightarrow> u32 \<Rightarrow> u8 list list \<Rightarrow> u32 list \<times> machine \<times> u32" where
  "uput_strings pmap m sp [] = ([], m, sp)"
| "uput_strings pmap m sp (s # ss) =
     (let sp = sp - of_nat (length s + 1);
          m = uput_bytes pmap m sp (s @ [0]);
          (ps, m, low) = uput_strings pmap m sp ss
      in (sp # ps, m, low))"

fun uput_words :: "u32 \<Rightarrow> machine \<Rightarrow> u32 \<Rightarrow> u32 list \<Rightarrow> machine" where
  "uput_words pmap m a [] = m"
| "uput_words pmap m a (w # ws) = uput_words pmap (uput32 pmap m a w) (a + 4) ws"

record px_args =
  xa_sp :: u32
  xa_path :: u32
  xa_null :: u32
  xa_argv :: u32
  xa_envp :: u32

definition px_gpath :: "px_opts \<Rightarrow> u8 list" where
  "px_gpath opt = take 1023 (case px_path opt of None \<Rightarrow> c_string ''/bin/sh'' | Some p \<Rightarrow> p)"

definition px_arguments :: "px_opts \<Rightarrow> u32 \<Rightarrow> machine \<Rightarrow> u32 \<Rightarrow> px_args \<times> machine" where
  "px_arguments opt pmap m stk_hi =
     (let av = (if px_argv opt = [] then [c_string ''prog''] else px_argv opt);
          argc = (if px_procexec opt then 0 else 1) :: u32;
          (aptr, m, sp) = uput_strings pmap m stk_hi av;
          (eptr, m, sp) = uput_strings pmap m sp (px_envp opt);
          (ppath, m, sp) = uput_strings pmap m sp [px_gpath opt];
          (pnull, m, sp) = uput_strings pmap m sp [c_string ''/dev/null''];
          sp = (sp - (argc + of_nat (length av) + 1 + of_nat (length (px_envp opt)) + 1) * 4) AND NOT 7;
          m = (if px_procexec opt then m else uput32 pmap m sp (of_nat (length av)));
          uargvp = sp + argc * 4;
          m = uput_words pmap m uargvp (aptr @ [0]);
          uenvpp = uargvp + of_nat (length av + 1) * 4;
          m = uput_words pmap m uenvpp (eptr @ [0])
      in (\<lparr>xa_sp = sp, xa_path = hd ppath, xa_null = hd pnull, xa_argv = uargvp, xa_envp = uenvpp\<rparr>, m))"

section \<open>Planted instructions\<close>

text \<open>\<open>open("/dev/null", O_RDWR, 0)\<close>, with both returns of the call going on.\<close>

definition boot_words :: "u32 \<Rightarrow> u32 list" where
  "boot_words unull =
     [0x5C400000 OR drop_bit 16 unull, 0x58420000 OR (unull AND 0xFFFF),
      0x58600002, 0x58800000, 0x59200005, 0xF000D080, 0xC0000001]"

text \<open>\<open>execve(path, argv, envp)\<close>.\<close>

definition stub_words :: "px_args \<Rightarrow> u32 list" where
  "stub_words x =
     [0x5C400000 OR drop_bit 16 (xa_path x), 0x58420000 OR (xa_path x AND 0xFFFF),
      0x5C600000 OR drop_bit 16 (xa_argv x), 0x58630000 OR (xa_argv x AND 0xFFFF),
      0x5C800000 OR drop_bit 16 (xa_envp x), 0x58840000 OR (xa_envp x AND 0xFFFF),
      0x5920003B, 0xF000D080, 0xC0000000, 0xC0000000]"

definition exec_words :: "px_args \<Rightarrow> u32 list" where
  "exec_words x = boot_words (xa_null x) @ boot_words (xa_null x) @ boot_words (xa_null x) @ stub_words x"

text \<open>The trampoline at \<open>a\<close>: the arguments out of the saved registers, on to \<open>_icode\<close>.\<close>

definition tramp_words :: "u32 \<Rightarrow> u32 list" where
  "tramp_words a =
     [0x584F0000, 0x58700000, 0x58800000,
      0xC0000000 OR (drop_bit 2 (F_ICODE - (a + 12)) AND 0x03FFFFFF)]"

fun mem_words :: "machine \<Rightarrow> u32 \<Rightarrow> u32 list \<Rightarrow> machine" where
  "mem_words m a [] = m"
| "mem_words m a (w # ws) = mem_words (wr32 m a w) (a + 4) ws"

text \<open>The flag is whether the page was free.\<close>

definition px_trampoline :: "machine \<Rightarrow> bool \<times> machine" where
  "px_trampoline m =
     (let (tpa, m) = translate m PROCEXP_TRAMP False in
      if rd32 m tpa \<noteq> 0 \<or> rd32 m (tpa + 4) \<noteq> 0 then (False, m)
      else
        (let m = mem_words m tpa (tramp_words PROCEXP_TRAMP)
         in (True, wr32 m (tpa + 0x20) 0xC0000000)))"

section \<open>Dispatch\<close>

text \<open>Every other runnable process comes off its queue, the idle process excepted.\<close>

fun px_quiesce :: "machine \<Rightarrow> u32 set \<Rightarrow> u32 list \<Rightarrow> machine option" where
  "px_quiesce m keep [] = Some m"
| "px_quiesce m keep (q # qs) =
     (if q \<in> keep then px_quiesce m keep qs
      else
        (let (st, m) = vr32 m (q + P_STAT) in do {
           m \<leftarrow> (if st = 3 then runq_remove m q else Some m);
           px_quiesce m keep qs
         }))"

definition px_dispatch ::
  "px_opts \<Rightarrow> machine \<Rightarrow> u32 \<Rightarrow> u32 \<Rightarrow> u32 \<Rightarrow> u32 \<Rightarrow> u32 \<Rightarrow> machine option" where
  "px_dispatch opt m cur p ctx entry sp =
     (let (pctx, m) = vr32 m (cur + P_CTX) in do {
        (_, m) \<leftarrow> kcall m 0xC00173EC pctx 0 0 0 0;
        let m = vw32 m (pctx + 0x80) PROCEXP_IDLE;
        let m = vw32 (vw32 (vw32 m (ctx + 0x3c) entry) (ctx + 0x40) sp) (ctx + 0x80) PROCEXP_TRAMP;
        m \<leftarrow> runq_remove m p;
        let (base, m) = vr32 m G_PROCBASE;
        let (np, m) = (if px_run_init opt then (0, m) else vr32 m G_NPROC);
        let (cpuno, m) = vr32 m 0xC0014008;
        let (idle, m) = vr32 m (0xC1015D18 + cpuno * 4);
        m \<leftarrow> px_quiesce m {p, cur, idle}
              (if base = 0 then [] else map (\<lambda>i. base + of_nat i * P_SIZE) [0..<unat np]);
        m \<leftarrow> runq_add m cur;
        Some (set_pc (WR (set_curproc m p ctx) 2 ctx) F_LOAD_CONTEXT)
      })"

section \<open>The experiment\<close>

definition px_hello :: "u8 list" where
  "px_hello = [10] @ c_string ''nX on the TC2000: starting /bin/sh...'' @ [10, 10]"

text \<open>Where the image or the stub goes, and the stack.\<close>

definition px_base :: "px_opts \<Rightarrow> u32" where
  "px_base opt = (if px_procexec opt then 0x20000000 else 0)"

definition px_stack :: "px_opts \<Rightarrow> u32 \<times> u32" where
  "px_stack opt =
     (if px_procexec opt then (px_base opt + 0x2000, px_base opt + 0x4000)
      else (STACK_TOP - 0x10000, STACK_TOP))"

text \<open>Arguments, stub, trampoline and dispatch; the flag is the return value.\<close>

definition px_finish ::
  "px_opts \<Rightarrow> px_image \<Rightarrow> machine \<Rightarrow> u32 \<Rightarrow> u32 \<Rightarrow> u32 \<Rightarrow> u32 \<Rightarrow> u32 \<Rightarrow> (bool \<times> machine) option" where
  "px_finish opt img m cur p ctx pmap stk_hi =
     (let (xa, m) = px_arguments opt pmap m stk_hi;
          m = (if px_procexec opt then uput_words pmap m (px_base opt) (exec_words xa) else m);
          (free, m) = px_trampoline m
      in if \<not> free then Some (False, m)
         else do { m \<leftarrow> px_dispatch opt m cur p ctx (xi_entry img) (xa_sp xa); Some (True, m) })"

text \<open>The address space is filled: a range for the image, one for the stack, the image's bytes.\<close>

definition px_ranges :: "px_opts \<Rightarrow> px_image \<Rightarrow> machine \<Rightarrow> u32 \<Rightarrow> u32 \<Rightarrow> (bool \<times> machine) option" where
  "px_ranges opt img m p vmap =
     (let slot = p + 0xe0; (lo, hi) = px_stack opt in do {
        (ok, m) \<leftarrow> px_range m vmap slot (px_base opt) (px_base opt + xi_hi img);
        if \<not> ok then Some (False, m) else px_range m vmap slot lo hi
      })"

definition px_load :: "aout option \<Rightarrow> px_image \<Rightarrow> machine \<Rightarrow> u32 \<Rightarrow> (nat \<times> machine) option" where
  "px_load a img m pmap =
     (case a of None \<Rightarrow> Some (0, m) | Some a \<Rightarrow> px_pages (image_byte a img) pmap m (page_list (xi_hi img)))"

definition px_start ::
  "px_opts \<Rightarrow> aout option \<Rightarrow> px_image \<Rightarrow> machine \<Rightarrow> u32 \<Rightarrow> u32 \<Rightarrow> u32 \<Rightarrow> u32 \<Rightarrow> u32 \<Rightarrow> (bool \<times> machine) option"
where
  "px_start opt a img m cur p ctx vmap pmap =
     do {
        (ok, m) \<leftarrow> px_ranges opt img m p vmap;
        if \<not> ok then Some (False, m)
        else do {
        (missing, m) \<leftarrow> px_load a img m pmap;
        if missing \<noteq> 0 then Some (False, m) else px_finish opt img m cur p ctx pmap (snd (px_stack opt))
      }}"

definition stub_image :: px_image where
  "stub_image = \<lparr>xi_entry = 0x20000000, xi_txtaddr = 0, xi_txtoff = 0, xi_dataddr = 0, xi_datoff = 0, xi_hi = 0x2000\<rparr>"

definition proc_experiment ::
  "host_fs \<Rightarrow> px_opts \<Rightarrow> machine \<Rightarrow> px_state \<Rightarrow> con_state \<Rightarrow> (bool \<times> machine \<times> px_state \<times> con_state) option"
where
  "proc_experiment fs opt m x c =
     (let (_, m) = vr32 m G_PROCBASE; (cur, m) = vr32 m G_CURPROC in do {
        (created, m, x) \<leftarrow> px_create m x;
        case created of None \<Rightarrow> Some (False, m, x, c)
        | Some (p, ctx) \<Rightarrow> do {
        (space, m) \<leftarrow> px_space m cur p;
        case space of None \<Rightarrow> Some (False, m, x, c)
        | Some (vmap, pmap) \<Rightarrow>
            (let a = (if px_procexec opt then None
                      else aout_load fs (case px_path opt of None \<Rightarrow> c_string ''/bin/sh'' | Some p \<Rightarrow> p));
                 img = (case a of None \<Rightarrow> stub_image | Some a \<Rightarrow> px_layout a)
             in if \<not> px_procexec opt \<and> a = None then Some (False, m, x, c)
                else do {
                  (ok, m) \<leftarrow> px_start opt a img m cur p ctx vmap pmap;
                  if \<not> ok then Some (False, m, x, c)
                  else Some (True, m, x\<lparr>deliver_traps := True\<rparr>,
                             if px_interactive opt then con_write_str px_hello c else c)
                })
        }})"

text \<open>The older experiment: an address space and nothing in it.\<close>

definition vm_experiment :: "machine \<Rightarrow> machine option" where
  "vm_experiment m =
     do {
       (pmap, m) \<leftarrow> kcall m 0xC0094058 0 0 0 0 0;
       if pmap < 0xC0000000 \<or> pmap = 0xFFFFFFFF then Some m
       else map_option snd (kcall m 0xC004F9BC pmap 0 0x80000000 1 0)
     }"

section \<open>What starting a process leaves alone\<close>

lemma fixed_mmu_walk [simp]: "fixed (snd (mmu_walk m apr va)) = fixed m"
  using fixed_same[OF same_mmu_walk[of m apr va]] by (metis prod.collapse)

lemma fixed_kwalk [simp]: "fixed (snd (kwalk m pmap va)) = fixed m"
  by (simp add: kwalk_def Let_def split_beta split: option.split)

lemma fixed_uput8 [simp]: "fixed (uput8 pmap m va v) = fixed m"
  using fixed_kwalk[of m pmap va]
  by (cases "kwalk m pmap va") (auto simp: uput8_def split: option.split)

lemma fixed_uput_bytes [simp]: "fixed (uput_bytes pmap m va bs) = fixed m"
  by (induction pmap m va bs rule: uput_bytes.induct) simp_all

lemma fixed_uput32 [simp]: "fixed (uput32 pmap m va v) = fixed m"
  by (simp add: uput32_def)

lemma fixed_uput_strings [simp]: "fixed (fst (snd (uput_strings pmap m sp ss))) = fixed m"
  by (induction pmap m sp ss rule: uput_strings.induct) (simp_all add: Let_def split_beta)

lemma fixed_uput_words [simp]: "fixed (uput_words pmap m a ws) = fixed m"
  by (induction pmap m a ws rule: uput_words.induct) simp_all

lemma fixed_mem_words [simp]: "fixed (mem_words m a ws) = fixed m"
  by (induction m a ws rule: mem_words.induct) simp_all

lemma fixed_px_arguments [simp]: "fixed (snd (px_arguments opt pmap m hi)) = fixed m"
  by (simp add: px_arguments_def Let_def split_beta)

lemma fixed_px_trampoline [simp]: "fixed (snd (px_trampoline m)) = fixed m"
  by (simp add: px_trampoline_def Let_def split_beta)

lemma fixed_find_cluster [simp]: "fixed (snd (find_cluster cs m ctab)) = fixed m"
  by (induction cs arbitrary: m) (simp_all add: Let_def split_beta)

lemma fixed_set_curproc [simp]: "fixed (set_curproc m p ctx) = fixed m"
  by (simp add: set_curproc_def Let_def split_beta)

lemma fixed_set_ktab_bias [simp]: "fixed (set_ktab_bias b m) = fixed m"
  by (simp add: set_ktab_bias_def fixed_def)

lemma fixed_px_pages: "px_pages f pmap m vs = Some (k, m') \<Longrightarrow> fixed m' = fixed m"
proof (induction f pmap m vs arbitrary: k rule: px_pages.induct)
  case (2 f pmap m va vs)
  obtain r n where w: "kwalk m pmap va = (r, n)" by fastforce
  have n: "fixed n = fixed m" using fixed_kwalk[of m pmap va] w by simp
  show ?case
    using 2 w n by (cases r) (auto simp: bind_eq_Some_conv)
qed simp

lemma fixed_px_range: "px_range m vmap slot lo hi = Some (b, m') \<Longrightarrow> fixed m' = fixed m"
  by (auto simp: px_range_def Let_def bind_eq_Some_conv dest!: kcall_keeps(2))

lemma fixed_px_quiesce: "px_quiesce m keep qs = Some m' \<Longrightarrow> fixed m' = fixed m"
proof (induction qs arbitrary: m)
  case (Cons q qs)
  obtain st n where v: "vr32 m (q + P_STAT) = (st, n)" by fastforce
  have n: "fixed n = fixed m" using fixed_vr32[of m "q + P_STAT"] v by simp
  show ?case
    using Cons.prems Cons.IH v n by (fastforce simp: bind_eq_Some_conv split: if_splits dest!: runq_remove_fixed)
qed simp

lemma fixed_px_dispatch: "px_dispatch opt m cur p ctx entry sp = Some m' \<Longrightarrow> fixed m' = fixed m"
  by (auto simp: px_dispatch_def Let_def split_beta bind_eq_Some_conv
      dest!: kcall_keeps(2) runq_remove_fixed runq_add_fixed fixed_px_quiesce)

lemma fixed_px_finish: "px_finish opt img m cur p ctx pmap hi = Some (b, m') \<Longrightarrow> fixed m' = fixed m"
  using fixed_px_arguments[of opt pmap m hi] fixed_px_trampoline
  by (auto simp: px_finish_def Let_def split_beta bind_eq_Some_conv split: if_splits dest!: fixed_px_dispatch)

lemma fixed_px_load: "px_load a img m pmap = Some (k, m') \<Longrightarrow> fixed m' = fixed m"
  by (auto simp: px_load_def split: option.splits dest: fixed_px_pages)

lemma fixed_px_ranges: "px_ranges opt img m p vmap = Some (b, m') \<Longrightarrow> fixed m' = fixed m"
  by (auto simp: px_ranges_def Let_def split_beta bind_eq_Some_conv split: if_splits dest!: fixed_px_range)

lemma fixed_px_start: "px_start opt a img m cur p ctx vmap pmap = Some (b, m') \<Longrightarrow> fixed m' = fixed m"
  by (auto simp: px_start_def bind_eq_Some_conv split: if_splits
      dest!: fixed_px_ranges fixed_px_load fixed_px_finish)

lemma fixed_px_create: "px_create m x = Some (r, m', x') \<Longrightarrow> fixed m' = fixed m"
  by (auto simp: px_create_def Let_def split_beta bind_eq_Some_conv split: if_splits dest!: kcall_keeps(2))

lemma fixed_px_space: "px_space m cur p = Some (r, m') \<Longrightarrow> fixed m' = fixed m"
  by (auto simp: px_space_def Let_def split_beta bind_eq_Some_conv split: if_splits dest!: kcall_keeps(2))

lemma fixed_proc_experiment: "proc_experiment fs opt m x c = Some (b, m', x', c') \<Longrightarrow> fixed m' = fixed m"
  by (auto simp: proc_experiment_def Let_def split_beta bind_eq_Some_conv split: if_splits option.splits
      dest!: fixed_px_create fixed_px_space fixed_px_start)

lemma fixed_vm_experiment: "vm_experiment m = Some m' \<Longrightarrow> fixed m' = fixed m"
  by (auto simp: vm_experiment_def bind_eq_Some_conv split: if_splits dest!: kcall_keeps(2))

section \<open>Running planted words\<close>

fun run_words :: "u32 list \<Rightarrow> machine \<Rightarrow> step_result" where
  "run_words [] m = Running m"
| "run_words (w # ws) m = (case run_insn m w of Running m \<Rightarrow> run_words ws m | r \<Rightarrow> r)"

definition calm :: "machine \<Rightarrow> bool" where
  "calm m \<longleftrightarrow> \<not> fault_pending m \<and> \<not> cpu_has_pending (cpu m)"

definition wrote :: "machine \<Rightarrow> u32 \<Rightarrow> u32 \<Rightarrow> machine" where
  "wrote m D v = set_pc (WR (count_insn m) D v) (pc m + 4)"

lemma wrote_simps [simp]:
  "calm (wrote m D v) = calm m" "pc (wrote m D v) = pc m + 4" "mem (wrote m D v) = mem m"
  by (simp_all add: calm_def wrote_def count_insn_def)

lemma RD_wrote: "D \<noteq> 0 \<Longrightarrow> RD (wrote m D v) k = (if k = D then v else RD m k)"
proof -
  have "RD (set_pc n a) k = RD n k" "RD (count_insn n) k = RD n k" for n a
    by (simp_all add: RD_def set_pc_def count_insn_def)
  then show "D \<noteq> 0 \<Longrightarrow> ?thesis" by (simp add: wrote_def RD_WR)
qed

lemma run_next:
  "calm m \<Longrightarrow> exec (count_insn m) w = next_insn (WR (count_insn m) D v) \<Longrightarrow> run_insn m w = Running (wrote m D v)"
  by (simp add: run_insn_def calm_def sequence_def wrote_def set_pc_def count_insn_def Let_def)

text \<open>An \<open>or\<close> or \<open>or.u\<close> whose immediate is filled in at run time.\<close>

lemma imm_fields:
  fixes c imm :: u32
  assumes "imm AND 0xFFFF = imm" "c AND 0xFFFF = 0"
  shows "(c OR imm) AND 0xFFFF = imm" "16 \<le> n \<Longrightarrow> drop_bit n imm = 0"
proof -
  have f: "(0xFFFF :: u32) = mask 16" by (simp add: mask_eq_exp_minus_1)
  show "(c OR imm) AND 0xFFFF = imm" using assms by (simp add: bit.conj_disj_distrib2)
  have z: "\<not> bit imm (n + k)" if "16 \<le> n" for k
  proof -
    have "bit imm (n + k) = bit (imm AND mask 16) (n + k)" using assms(1) f by simp
    also have "\<dots> = False" using that by (simp only: bit_and_iff bit_mask_iff) simp
    finally show ?thesis by simp
  qed
  show "16 \<le> n \<Longrightarrow> drop_bit n imm = 0"
    by (rule bit_word_eqI) (simp add: bit_drop_bit_eq z)
qed

lemma run_or:
  assumes "calm m" "imm AND 0xFFFF = imm" "c AND 0xFFFF = 0" "drop_bit 26 c = 0x16 \<or> drop_bit 26 c = 0x17"
  shows "run_insn m (c OR imm) =
    Running (wrote m (drop_bit 21 c AND 31)
      (RD m (drop_bit 16 c AND 31) OR (if drop_bit 26 c = 0x16 then imm else push_bit 16 imm)))"
proof -
  let ?n = "count_insn m"
  let ?D = "drop_bit 21 c AND 31" and ?a = "RD m (drop_bit 16 c AND 31)"
  have r: "RD ?n k = RD m k" for k by (simp add: RD_def count_insn_def)
  note z = imm_fields[OF assms(2,3)]
  have "exec ?n (c OR imm) =
      next_insn (WR ?n ?D (?a OR (if drop_bit 26 c = 0x16 then imm else push_bit 16 imm)))"
    using assms(4) by (elim disjE) (simp_all add: exec_def exec_imm_def Let_def z(1) z(2) r)
  from run_next[OF assms(1) this] show ?thesis .
qed

lemma halves:
  fixes v :: u32
  shows "drop_bit 16 v AND 0xFFFF = drop_bit 16 v" "(v AND 0xFFFF) AND 0xFFFF = v AND 0xFFFF"
    "push_bit 16 (drop_bit 16 v) OR (v AND 0xFFFF) = v"
proof -
  have f: "(0xFFFF :: u32) = mask 16" by (simp add: mask_eq_exp_minus_1)
  show "drop_bit 16 v AND 0xFFFF = drop_bit 16 v" "push_bit 16 (drop_bit 16 v) OR (v AND 0xFFFF) = v"
    unfolding f by (rule bit_word_eqI; simp add: bit_simps; fastforce dest: bit_imp_le_length)+
  show "(v AND 0xFFFF) AND 0xFFFF = v AND 0xFFFF" by simp
qed

lemma run_upper:
  assumes "calm m"
  shows "run_insn m (0x5C400000 OR drop_bit 16 v) = Running (wrote m 2 (push_bit 16 (drop_bit 16 v)))"
    "run_insn m (0x5C600000 OR drop_bit 16 v) = Running (wrote m 3 (push_bit 16 (drop_bit 16 v)))"
    "run_insn m (0x5C800000 OR drop_bit 16 v) = Running (wrote m 4 (push_bit 16 (drop_bit 16 v)))"
  by (simp_all add: run_or[OF assms halves(1)])

lemma run_lower:
  assumes "calm m"
  shows "run_insn m (0x58420000 OR (v AND 0xFFFF)) = Running (wrote m 2 (RD m 2 OR (v AND 0xFFFF)))"
    "run_insn m (0x58630000 OR (v AND 0xFFFF)) = Running (wrote m 3 (RD m 3 OR (v AND 0xFFFF)))"
    "run_insn m (0x58840000 OR (v AND 0xFFFF)) = Running (wrote m 4 (RD m 4 OR (v AND 0xFFFF)))"
  by (simp_all add: run_or[OF assms halves(2)])

lemma run_const:
  assumes "calm m"
  shows "run_insn m 0x58600002 = Running (wrote m 3 2)" "run_insn m 0x58800000 = Running (wrote m 4 0)"
    "run_insn m 0x59200005 = Running (wrote m 9 5)" "run_insn m 0x5920003B = Running (wrote m 9 59)"
    "run_insn m 0x584F0000 = Running (wrote m 2 (RD m 15))" "run_insn m 0x58700000 = Running (wrote m 3 (RD m 16))"
  using run_or[OF assms, of 2 "0x58600000"] run_or[OF assms, of 0 "0x58800000"]
    run_or[OF assms, of 5 "0x59200000"] run_or[OF assms, of "59" "0x59200000"]
    run_or[OF assms, of 0 "0x584F0000"] run_or[OF assms, of 0 "0x58700000"]
  by simp_all

lemma run_tb0:
  "run_insn m 0xF000D080 =
     Trapped ((count_insn m)\<lparr>trap_taken := True, trap_vector := 128, trap_pc := pc m\<rparr>)"
  by (simp add: run_insn_def exec_def exec_bf_trap_def take_trap_def)

lemma run_br:
  assumes "calm m" "drop_bit 26 w = 0x30"
  shows "run_insn m w = Running (set_pc (count_insn m) (pc m + disp26 w))"
proof -
  have "exec (count_insn m) w = Done (count_insn m) (pc m + disp26 w) True False"
    using assms(2) by (simp add: exec_def exec_br_def Let_def)
  then show ?thesis
    using assms(1) by (simp add: run_insn_def calm_def sequence_def set_pc_def count_insn_def Let_def)
qed

section \<open>Properties\<close>

text \<open>C17. The stub the emulator plants asks the kernel for what it is meant to, as the emulator's own decoder
  reads it: the first seven words end in the trap of \<open>open("/dev/null", O_RDWR, 0)\<close> and the word the
  kernel returns to on an error goes on where it returns to on success; the last ten end in the
  trap of \<open>execve(path, argv, envp)\<close>.\<close>

theorem planted_calls:
  assumes "calm m"
  shows "(\<exists>t. run_words (boot_words u) m = Trapped t \<and> trap_vector t = 128 \<and> trap_pc t = pc m + 20 \<and>
        RD t 9 = 5 \<and> RD t 2 = u \<and> RD t 3 = 2 \<and> RD t 4 = 0 \<and> mem t = mem m) \<and>
    (\<exists>k. run_insn m (boot_words u ! 6) = Running k \<and> pc k = pc m + 4 \<and> RD k = RD m) \<and>
    (\<exists>t. run_words (stub_words x) m = Trapped t \<and> trap_vector t = 128 \<and> trap_pc t = pc m + 28 \<and>
        RD t 9 = 59 \<and> RD t 2 = xa_path x \<and> RD t 3 = xa_argv x \<and> RD t 4 = xa_envp x \<and> mem t = mem m)"
proof -
  have t: "RD (n\<lparr>trap_taken := True, trap_vector := v, trap_pc := p\<rparr>) k = RD n k"
    "RD (count_insn n) k = RD n k" "RD (set_pc n a) k = RD n k" "mem (count_insn n) = mem n" for n v p k a
    by (simp_all add: RD_def count_insn_def set_pc_def)
  note run = run_upper run_lower run_const run_tb0 RD_wrote halves t
  show ?thesis
    using assms
    by (simp add: boot_words_def stub_words_def run run_br fun_eq_iff disp26_def) 
qed

theorem planted_calls_witness:
  "\<exists>t. run_words (stub_words \<lparr>xa_sp = 0, xa_path = 0x20003FF0, xa_null = 0, xa_argv = 0x20003F00,
      xa_envp = 0x20003F80\<rparr>) machine0 = Trapped t \<and> RD t 2 = 0x20003FF0 \<and> RD t 9 = 59"
proof -
  have "calm machine0" by (simp add: calm_def machine0_def cpu0_def mmu0_def)
  from planted_calls[OF this, of 0 "\<lparr>xa_sp = 0, xa_path = 0x20003FF0, xa_null = 0, xa_argv = 0x20003F00,
      xa_envp = 0x20003F80\<rparr>"]
  show ?thesis by auto
qed

text \<open>The trampoline moves the entry point and the stack pointer, parked in the two saved registers a
  context switch restores, into the argument registers, clears the third, and ends at the kernel's
  own way into user mode; the sentinel beside it is a branch to itself.\<close>

theorem trampoline_enters_user:
  assumes "calm m" "pc m = PROCEXP_TRAMP"
  shows "(\<exists>k. run_words (tramp_words PROCEXP_TRAMP) m = Running k \<and> pc k = 0xC0016E30 \<and>
      RD k 2 = RD m 15 \<and> RD k 3 = RD m 16 \<and> RD k 4 = 0 \<and> mem k = mem m) \<and>
    (\<exists>k. run_insn (set_pc m PROCEXP_IDLE) 0xC0000000 = Running k \<and> pc k = PROCEXP_IDLE)"
proof -
  have t: "RD (count_insn n) k = RD n k" "RD (set_pc n a) k = RD n k" "mem (count_insn n) = mem n"
    "calm (set_pc n a) = calm n" for n k a
    by (simp_all add: RD_def count_insn_def set_pc_def calm_def)
  show ?thesis
    using assms by (simp add: tramp_words_def run_const run_br RD_wrote t disp26_def)
qed

theorem trampoline_enters_user_witness:
  "\<exists>k. run_words (tramp_words PROCEXP_TRAMP) (set_pc (WR machine0 15 0x2000) PROCEXP_TRAMP) = Running k \<and>
     RD k 2 = 0x2000"
proof -
  have "calm (set_pc (WR machine0 15 0x2000) PROCEXP_TRAMP)"
    by (simp add: calm_def machine0_def cpu0_def mmu0_def)
  from trampoline_enters_user[OF this] show ?thesis by (auto simp: RD_def WR_def set_pc_def)
qed

text \<open>The address data is at, over the naturals.\<close>

lemma unat_round_up:
  fixes t :: u32
  assumes "unat t < 0x80000000"
  shows "unat ((t + 4095) AND NOT 4095) = 4096 * ((unat t + 4095) div 4096)"
proof -
  have "unat (t + 4095) = unat t + 4095" using assms by (subst unat_add_small) simp_all
  then show ?thesis using unat_page_base[of "t + 4095"] by simp
qed

lemma unat_add_low: "unat (a :: u32) + unat b < 0x100000000 \<Longrightarrow> unat (a + b) = unat a + unat b"
  by (subst unat_add_small) simp_all

lemma loaded_byte:
  assumes "load_program m a = Ok m'" "unat q < 0x7FFF0000" "rd8 m q = 0"
    and "unat (ao_text a) + unat (ao_data a) + unat (ao_bss a) < 0x7FFF0000"
    and "drop_bit 16 (ao_magic a) AND 0xFF = 0"
  shows "image_byte a (px_layout a) q = Some (rd8 m' q)"
proof -
  let ?t = "unat (ao_text a)" and ?d = "unat (ao_data a)" and ?b = "unat (ao_bss a)"
  define dv where "dv = (ao_text a + 4095) AND NOT 4095"
  define V where "V = unat dv"
  have V: "?t \<le> V" "V \<le> ?t + 4095"
    using unat_round_up[of "ao_text a"] assms(4) by (auto simp: dv_def V_def)
  have len: "8192 + ?t + ?d \<le> length (ao_img a)"
    and m': "mem m' = mem_zero (mem_load (mem_load (mem m) 0 (take ?t (drop 8192 (ao_img a))))
        dv (take ?d (drop (8192 + ?t) (ao_img a)))) (dv + ao_data a) ?b"
    using assms(1) by (auto simp: load_program_def Let_def dv_def split: if_splits)
  have vd: "unat (dv + ao_data a) = V + ?d"
    unfolding V_def by (rule unat_add_low) (use V assms(4) in \<open>simp add: V_def\<close>)
  let ?txt = "take ?t (drop 8192 (ao_img a))" and ?dat = "take ?d (drop (8192 + ?t) (ao_img a))"
  have lens: "length ?txt = ?t" "length ?dat = ?d" using len by simp_all
  have q: "unat q < 0x80000000" using assms(2) by simp
  have tx: "unat q < ?t \<Longrightarrow> ?txt ! unat q = ao_img a ! (8192 + unat q)" using len by simp
  have dat: "?dat ! (unat q - V) = ao_img a ! (8192 + ?t + (unat q - V))"
    if "V \<le> unat q \<and> unat q < V + ?d"
  proof -
    have "unat q - V < ?d" using that by linarith
    then show ?thesis using len by (simp only: nth_take nth_drop)
  qed
  have "mem_r8 (mem_load (mem m) 0 ?txt) q = (if unat q < ?t then ?txt ! unat q else 0)"
    by (subst load_low[OF _ q]) (use lens assms(3,4) in simp_all)
  moreover have "mem_r8 (mem_load (mem_load (mem m) 0 ?txt) dv ?dat) q =
      (if V \<le> unat q \<and> unat q < V + ?d then ?dat ! (unat q - V) else mem_r8 (mem_load (mem m) 0 ?txt) q)"
    by (subst load_low[OF _ q]) (use lens assms(4) V in \<open>simp_all add: V_def\<close>)
  moreover have "rd8 m' q = (if V + ?d \<le> unat q \<and> unat q < V + ?d + ?b then 0
      else mem_r8 (mem_load (mem_load (mem m) 0 ?txt) dv ?dat) q)"
    unfolding m' mem_zero_load
    by (subst load_low[OF _ q]) (use vd assms(4) V in \<open>auto intro!: nth_replicate\<close>)
  ultimately have r: "rd8 m' q =
    (if V + ?d \<le> unat q \<and> unat q < V + ?d + ?b then 0
     else if V \<le> unat q \<and> unat q < V + ?d then ao_img a ! (8192 + ?t + (unat q - V))
     else if unat q < ?t then ao_img a ! (8192 + unat q) else 0)"
    using tx dat by simp
  have sub: "unat (q - dv) = unat q - V" if "V \<le> unat q"
    using that by (simp add: V_def unat_sub word_le_nat_alt)
  have i1: "unat (8192 + q) = 8192 + unat q" using assms(2) by (subst unat_add_small) simp_all
  have i2: "unat (8192 + ao_text a) = 8192 + ?t" using assms(4) by (subst unat_add_small) simp_all
  have i3: "unat (8192 + ao_text a + (q - dv)) = 8192 + ?t + (unat q - V)" if "V \<le> unat q"
    using that assms(2,4) i2 sub[OF that] by (subst unat_add_small) simp_all
  have lay: "xi_txtaddr (px_layout a) = 0" "xi_txtoff (px_layout a) = 8192"
    "xi_dataddr (px_layout a) = dv" "xi_datoff (px_layout a) = 8192 + ao_text a"
    by (simp_all add: px_layout_def assms(5) Let_def dv_def)
  have "image_byte a (px_layout a) q =
    (if unat q < ?t then Some (ao_img a ! (8192 + unat q))
     else if V \<le> unat q \<and> unat q < V + ?d then Some (ao_img a ! (8192 + ?t + (unat q - V)))
     else Some 0)"
    using len i1 i3 vd
    by (auto simp: image_byte_def lay file_byte_def word_less_nat_alt word_le_nat_alt V_def[symmetric])
  then show ?thesis using r V by auto
qed

text \<open>C16. The two ways a program is loaded agree: for an executable of the tape's kind, the byte the
  kernel route puts at an address of the new process is the byte the kernel-less route leaves in
  memory there.\<close>

theorem loaders_agree:
  assumes "load_program m a = Ok m'" "unat q < 0x7FFF0000" "rd8 m q = 0"
    and "unat (ao_text a) + unat (ao_data a) + unat (ao_bss a) < 0x7FFF0000"
    and "drop_bit 16 (ao_magic a) AND 0xFF = 0"
  shows "image_byte a (px_layout a) q = Some (rd8 m' q)"
  by (rule loaded_byte[OF assms])

text \<open>An executable of four bytes of text and two of data.\<close>

definition small_aout :: aout where
  "small_aout = \<lparr>ao_magic = 0x0000010B, ao_text = 4, ao_data = 2, ao_bss = 6, ao_syms = 0, ao_entry = 0,
     ao_trsize = 0, ao_drsize = 0, ao_img = replicate 8192 0 @ [1, 2, 3, 4, 5, 6]\<rparr>"

theorem loaders_agree_witness:
  "\<exists>m'. load_program machine0 small_aout = Ok m' \<and>
     image_byte small_aout (px_layout small_aout) 0x1001 = Some (rd8 m' 0x1001)"
proof -
  have "\<exists>m'. load_program machine0 small_aout = Ok m'"
    by (simp add: load_program_def small_aout_def Let_def)
  moreover have "rd8 machine0 0x1001 = 0" by code_simp
  ultimately show ?thesis
    using loaders_agree[of machine0 small_aout _ "0x1001"] by (auto simp: small_aout_def)
qed

end
