(* ===== verification/Consys.thy ===== *)
theory Consys
  imports Umem Devices Console
begin

text \<open>
  The system calls the emulator answers for the guest (\<^verbatim>\<open>console.c\<close>, second half): reads, writes and
  ioctls on the console, raw reads and writes of the SCSI disk, the host file shown as
  \<^verbatim>\<open>/hosttar\<close>, and the tables that say which descriptors of which process these are.

  A handler returns whether it took the call, the machine and the descriptor state.  The lemmas show
  that a console read takes no input before its buffer is resident, what the host file looks like to
  the guest, and that the tables follow the process.
\<close>

section \<open>State\<close>

text \<open>The arrays that are saved and restored with the process.\<close>

record fd_tab =
  fd_console :: "u32 \<Rightarrow> u8"
  fd_disk :: "u32 \<Rightarrow> u8"
  fd_kernel :: "u32 \<Rightarrow> u8"
  disk_off :: "u32 \<Rightarrow> u32"

record fd_set =
  fs_pid :: int
  fs_tab :: fd_tab

abbreviation (input) FDSETS :: nat where "FDSETS \<equiv> 24"

record io_state =
  con :: con_state
  console_io :: bool
  io_tab :: fd_tab
  fd_host :: "u32 \<Rightarrow> u8"
  host_off :: "u32 \<Rightarrow> u32"
  hostfile_img :: "u8 list option"
  hostfile_size :: u32
  hostfile_vsize :: u32
  con_out_bytes :: u32
  con_in_bytes :: u32
  fdsets :: "fd_set option list"   \<comment> \<open>\<open>None\<close>: not \<open>used\<close>\<close>
  fdcur :: int

definition fd_tab_zero :: fd_tab where
  "fd_tab_zero = \<lparr>fd_console = (\<lambda>_. 0), fd_disk = (\<lambda>_. 0), fd_kernel = (\<lambda>_. 0), disk_off = (\<lambda>_. 0)\<rparr>"

definition io0 :: io_state where
  "io0 = \<lparr>con = con0, console_io = True,
     io_tab = fd_tab_zero\<lparr>fd_console := (\<lambda>_. 0)(0 := 1, 1 := 1, 2 := 1)\<rparr>,
     fd_host = (\<lambda>_. 0), host_off = (\<lambda>_. 0), hostfile_img = None, hostfile_size = 0, hostfile_vsize = 0,
     con_out_bytes = 0, con_in_bytes = 0, fdsets = replicate FDSETS None, fdcur = -1\<rparr>"

definition set_disk_off :: "u32 \<Rightarrow> u32 \<Rightarrow> io_state \<Rightarrow> io_state" where
  "set_disk_off fd v io = io\<lparr>io_tab := (io_tab io)\<lparr>disk_off := (disk_off (io_tab io))(fd := v)\<rparr>\<rparr>"

definition fd_is_console :: "io_state \<Rightarrow> u32 \<Rightarrow> bool" where
  "fd_is_console io fd \<longleftrightarrow> console_io io \<and> fd < 64 \<and> fd_console (io_tab io) fd \<noteq> 0"

text \<open>The end of every call that was answered.\<close>

definition sys_done :: "machine \<Rightarrow> u32 \<Rightarrow> u32 \<Rightarrow> machine" where
  "sys_done m ret tpc = set_pc (WR m 2 ret) (tpc + 8)"

definition seek_to :: "u32 \<Rightarrow> u32 \<Rightarrow> u32 \<Rightarrow> u32 \<Rightarrow> u32" where
  "seek_to whence off here end_pos =
     (if whence = 0 then off else if whence = 1 then here + off
      else if whence = 2 then end_pos + off else here)"

section \<open>The raw disk\<close>

text \<open>The transfer itself, from the disk to the buffer or back.\<close>

definition disk_to_user :: "machine \<Rightarrow> u8 list \<Rightarrow> nat \<Rightarrow> u32 \<Rightarrow> u32 \<Rightarrow> machine" where
  "disk_to_user m f pos buf n = snd (uwrite_mem m buf (file_read0 f pos (unat n)))"

definition user_to_disk :: "machine \<Rightarrow> u8 list \<Rightarrow> nat \<Rightarrow> u32 \<Rightarrow> u32 \<Rightarrow> machine" where
  "user_to_disk m f pos buf n =
     (let (bs, m) = uread_buf m buf (unat n) in upd_dev (\<lambda>d. d\<lparr>disk_img := Some (file_write f pos bs)\<rparr>) m)"

definition disk_ioctl :: "machine \<Rightarrow> u8 list \<Rightarrow> u32 \<Rightarrow> u32 \<Rightarrow> machine" where
  "disk_ioctl m f req tpc =
     (let (blk, m) = vr32 m req; (cnt, m) = vr32 m (req + 8); (flag, m) = vr32 m (req + 0x0c);
          (buf, m) = vr32 m (req + 0x10);
          n = cnt * 512; rd = (flag AND 0x01000000 \<noteq> 0); pos = unat blk * 512
      in case ubuf_fault m buf n rd tpc of
           (True, m) \<Rightarrow> m
         | (False, m) \<Rightarrow>
             sys_done (if rd then disk_to_user m f pos buf n else user_to_disk m f pos buf n) 0 tpc)"

definition disk_syscall :: "u32 \<Rightarrow> u32 \<Rightarrow> machine \<Rightarrow> io_state \<Rightarrow> bool \<times> machine \<times> io_state" where
  "disk_syscall sysno tpc m io =
     (let a0 = RD m 2; a1 = RD m 3; a2 = RD m 4; off = disk_off (io_tab io) a0 in
      case (if a0 \<ge> 64 \<or> fd_disk (io_tab io) a0 = 0 then None else disk_img (dev m)) of
        None \<Rightarrow> (False, m, io)
      | Some f \<Rightarrow>
          if sysno = 19 then
            (let p = seek_to a2 a1 off (of_nat (length f))
             in (True, sys_done m p tpc, set_disk_off a0 p io))
          else if sysno = 3 then
            (case ubuf_fault m a1 a2 True tpc of
               (True, m) \<Rightarrow> (True, m, io)
             | (False, m) \<Rightarrow>
                 (True, sys_done (disk_to_user m f (unat off) a1 a2) a2 tpc, set_disk_off a0 (off + a2) io))
          else if sysno = 4 then
            (case ubuf_fault m a1 a2 False tpc of
               (True, m) \<Rightarrow> (True, m, io)
             | (False, m) \<Rightarrow>
                 (True, sys_done (user_to_disk m f (unat off) a1 a2) a2 tpc, set_disk_off a0 (off + a2) io))
          else if sysno = 54 then
            (if a1 \<noteq> 0xC014000D then (False, m, io) else (True, disk_ioctl m f a2 tpc, io))
          else (False, m, io))"

section \<open>The host file\<close>

text \<open>What a read of the host file delivers: how many bytes, and which.\<close>

definition host_want :: "io_state \<Rightarrow> u32 \<Rightarrow> u32 \<Rightarrow> u32" where
  "host_want io off n = (if off + n > hostfile_vsize io then hostfile_vsize io - off else n)"

definition host_bytes :: "io_state \<Rightarrow> u8 list \<Rightarrow> u32 \<Rightarrow> u32 \<Rightarrow> u8 list" where
  "host_bytes io f off want =
     (let rn = (if off < hostfile_size io
                then (if off + want \<le> hostfile_size io then want else hostfile_size io - off) else 0);
          got = file_read f (unat off) (unat rn)
      in got @ replicate (unat want - length got) 0)"

definition host_free_fd :: "io_state \<Rightarrow> u32 option" where
  "host_free_fd io = find (\<lambda>fd. fd_host io fd = 0) (map of_nat [40..<64])"

definition host_open :: "io_state \<Rightarrow> u32 \<Rightarrow> io_state" where
  "host_open io fd = io\<lparr>fd_host := (fd_host io)(fd := 1), host_off := (host_off io)(fd := 0)\<rparr>"

definition hostfile_syscall :: "u32 \<Rightarrow> u32 \<Rightarrow> machine \<Rightarrow> io_state \<Rightarrow> bool \<times> machine \<times> io_state" where
  "hostfile_syscall sysno tpc m io =
     (case hostfile_img io of
        None \<Rightarrow> (False, m, io)
      | Some f \<Rightarrow>
          let a0 = RD m 2; a1 = RD m 3; a2 = RD m 4; off = host_off io a0 in
          if sysno = 5 then
            (let (p, m) = uread_str m a0 128 in
             if p \<noteq> c_string ''/hosttar'' then (False, m, io)
             else
               (case host_free_fd io of
                  None \<Rightarrow> (False, m, io)
                | Some fd \<Rightarrow> (True, sys_done m fd tpc, host_open io fd)))
          else if sysno \<notin> {3, 19, 6} \<or> a0 \<ge> 64 \<or> fd_host io a0 = 0 then (False, m, io)
          else if sysno = 3 then
            (if off \<ge> hostfile_vsize io then (True, sys_done m 0 tpc, io)
             else
               (let want = host_want io off a2 in
                case ubuf_fault m a1 want True tpc of
                  (True, m) \<Rightarrow> (True, m, io)
                | (False, m) \<Rightarrow>
                    (True, sys_done (snd (uwrite_mem m a1 (host_bytes io f off want))) want tpc,
                     io\<lparr>host_off := (host_off io)(a0 := off + want)\<rparr>)))
          else if sysno = 19 then
            (let p = seek_to a2 a1 off (hostfile_vsize io)
             in (True, sys_done m p tpc, io\<lparr>host_off := (host_off io)(a0 := p)\<rparr>))
          else
            (True, sys_done m 0 tpc,
             io\<lparr>fd_host := (fd_host io)(a0 := 0), host_off := (host_off io)(a0 := 0)\<rparr>))"

section \<open>The console\<close>

text \<open>A write, in pieces of 4096 bytes.\<close>

function console_chunks :: "machine \<Rightarrow> con_state \<Rightarrow> u32 \<Rightarrow> nat \<Rightarrow> nat \<Rightarrow> bool \<Rightarrow> machine \<times> con_state" where
  "console_chunks m c a off len is_err =
     (if off < len then
        (let chunk = min (len - off) 4096;
             (bs, m) = uread_buf m (a + of_nat off) chunk
         in console_chunks m (con_write bs is_err c) a (off + chunk) len is_err)
      else (m, c))"
  by pat_completeness auto
termination by (relation "measure (\<lambda>(m, c, a, off, len, e). len - off)") auto

declare console_chunks.simps [simp del]

text \<open>The ioctls that hand a structure out, and those that take one in; the flag is a fault.\<close>

definition tty_give :: "machine \<Rightarrow> con_state \<Rightarrow> u32 \<Rightarrow> bytes \<Rightarrow> u32 \<Rightarrow> bool \<times> machine \<times> con_state" where
  "tty_give m c a bs tpc =
     (case ubuf_fault m a (of_nat (length bs)) True tpc of
        (True, m) \<Rightarrow> (True, m, c)
      | (False, m) \<Rightarrow> (False, snd (uwrite_mem m a bs), c))"

definition tty_take ::
  "machine \<Rightarrow> con_state \<Rightarrow> u32 \<Rightarrow> nat \<Rightarrow> (bytes \<Rightarrow> con_state \<Rightarrow> con_state) \<Rightarrow> u32 \<Rightarrow> bool \<times> machine \<times> con_state" where
  "tty_take m c a n upd tpc =
     (case ubuf_fault m a (of_nat n) False tpc of
        (True, m) \<Rightarrow> (True, m, c)
      | (False, m) \<Rightarrow> (let (bs, m) = uread_buf m a n in (False, m, upd bs c)))"

definition word_bytes_be :: "u32 \<Rightarrow> bytes" where
  "word_bytes_be v = [byte_of 0 v, byte_of 1 v, byte_of 2 v, byte_of 3 v]"

definition set_tty_sg :: "bytes \<Rightarrow> con_state \<Rightarrow> con_state" where
  "set_tty_sg bs c = (let c = c\<lparr>tty_sg := bs\<rparr> in host_tty_mode (tty_is_raw c) c)"

definition set_tty_lmode :: "bytes \<Rightarrow> con_state \<Rightarrow> con_state" where
  "set_tty_lmode bs c = c\<lparr>tty_lmode := foldl (\<lambda>v b. push_bit 8 v OR ucast b) 0 bs\<rparr>"

definition tty_fionread :: "machine \<Rightarrow> con_state \<Rightarrow> u32 \<Rightarrow> u32 \<Rightarrow> bool \<times> machine \<times> con_state" where
  "tty_fionread m c a tpc =
     (case ubuf_fault m a 4 True tpc of
        (True, m) \<Rightarrow> (True, m, c)
      | (False, m) \<Rightarrow>
          (let (n, c) = con_input_avail c in (False, snd (uwrite_mem m a (word_bytes_be n)), c)))"

definition tty_ioctl :: "machine \<Rightarrow> con_state \<Rightarrow> u32 \<Rightarrow> u32 \<Rightarrow> u32 \<Rightarrow> bool \<times> machine \<times> con_state" where
  "tty_ioctl m c cmd a tpc =
     (if cmd = 0x40067408 then tty_give m c a (tty_sg c) tpc
      else if cmd = 0x80067409 \<or> cmd = 0x8006740A then tty_take m c a 6 set_tty_sg tpc
      else if cmd = 0x40067412 then tty_give m c a (tty_tc c) tpc
      else if cmd = 0x80067411 then tty_take m c a 6 (\<lambda>bs c. c\<lparr>tty_tc := bs\<rparr>) tpc
      else if cmd = 0x40067474 then tty_give m c a (tty_ltc c) tpc
      else if cmd = 0x80067475 then tty_take m c a 6 (\<lambda>bs c. c\<lparr>tty_ltc := bs\<rparr>) tpc
      else if cmd = 0x4004747C then tty_give m c a (word_bytes_be (tty_lmode c)) tpc
      else if cmd = 0x8004747D then tty_take m c a 4 set_tty_lmode tpc
      else if cmd = 0x40087468 then tty_give m c a [0, 24, 0, 80, 0, 0, 0, 0] tpc
      else if cmd = 0x4004667F then tty_fionread m c a tpc
      else (False, m, c))"

text \<open>What a read takes off the console.\<close>

definition console_take :: "con_state \<Rightarrow> nat \<Rightarrow> bytes \<times> con_state" where
  "console_take c n =
     (if n = 0 then ([], c) else if tty_is_raw c then con_read_raw n c else con_read_line n c)"

definition console_write :: "machine \<Rightarrow> io_state \<Rightarrow> u32 \<Rightarrow> u32 \<Rightarrow> u32 \<Rightarrow> u32 \<Rightarrow> machine \<times> io_state" where
  "console_write m io a0 a1 a2 tpc =
     (let len = (if a2 < 0x100000 then a2 else 0x100000) in
      case ubuf_fault m a1 len False tpc of
        (True, m) \<Rightarrow> (m, io)
      | (False, m) \<Rightarrow>
          (let (m, c) = console_chunks m (con io) a1 0 (unat len) (a0 = 2)
           in (sys_done m a2 tpc, io\<lparr>con := c, con_out_bytes := con_out_bytes io + a2\<rparr>)))"

definition console_read :: "machine \<Rightarrow> io_state \<Rightarrow> u32 \<Rightarrow> u32 \<Rightarrow> u32 \<Rightarrow> machine \<times> io_state" where
  "console_read m io a1 a2 tpc =
     (let n = (if a2 > 4096 then 4096 else a2) in
      case (if n \<noteq> 0 then ubuf_fault m a1 n True tpc else (False, m)) of
        (True, m) \<Rightarrow> (m, io)
      | (False, m) \<Rightarrow>
          (let (bs, c) = console_take (con io) (unat n);
               (k, m) = uwrite_mem m a1 bs
           in (sys_done m (of_nat k) tpc, io\<lparr>con := c, con_in_bytes := con_in_bytes io + of_nat k\<rparr>)))"

definition console_ioctl :: "machine \<Rightarrow> io_state \<Rightarrow> u32 \<Rightarrow> u32 \<Rightarrow> u32 \<Rightarrow> machine \<times> io_state" where
  "console_ioctl m io a1 a2 tpc =
     (let (f, m, c) = tty_ioctl m (con io) a1 a2 tpc
      in (if f then m else sys_done m 0 tpc, io\<lparr>con := c\<rparr>))"

definition console_syscall :: "u32 \<Rightarrow> u32 \<Rightarrow> machine \<Rightarrow> io_state \<Rightarrow> bool \<times> machine \<times> io_state" where
  "console_syscall sysno tpc m io =
     (let a0 = RD m 2; a1 = RD m 3; a2 = RD m 4 in
      if sysno \<notin> {4, 3, 54} \<or> \<not> fd_is_console io a0 then (False, m, io)
      else if sysno = 4 then (True, console_write m io a0 a1 a2 tpc)
      else if sysno = 3 then (True, console_read m io a1 a2 tpc)
      else (True, console_ioctl m io a1 a2 tpc))"

section \<open>The tables of a process\<close>

definition slot_of :: "int \<Rightarrow> fd_set option \<Rightarrow> bool" where
  "slot_of pid s = (case s of None \<Rightarrow> False | Some t \<Rightarrow> fs_pid t = pid)"

definition fdslot :: "int \<Rightarrow> io_state \<Rightarrow> nat option \<times> io_state" where
  "fdslot pid io =
     (case find (\<lambda>i. slot_of pid (fdsets io ! i)) [0..<FDSETS] of
        Some i \<Rightarrow> (Some i, io)
      | None \<Rightarrow>
          (case find (\<lambda>i. fdsets io ! i = None) [0..<FDSETS] of
             Some i \<Rightarrow>
               (Some i, io\<lparr>fdsets := (fdsets io)[i := Some \<lparr>fs_pid = pid, fs_tab = fd_tab_zero\<rparr>]\<rparr>)
           | None \<Rightarrow> (None, io)))"

definition slot_tab :: "io_state \<Rightarrow> nat \<Rightarrow> fd_tab" where
  "slot_tab io i = (case fdsets io ! i of None \<Rightarrow> fd_tab_zero | Some s \<Rightarrow> fs_tab s)"

definition fd_save :: "nat \<Rightarrow> io_state \<Rightarrow> io_state" where
  "fd_save i io = io\<lparr>fdsets := (fdsets io)[i := map_option (\<lambda>s. s\<lparr>fs_tab := io_tab io\<rparr>) (fdsets io ! i)]\<rparr>"

definition fd_load :: "nat \<Rightarrow> io_state \<Rightarrow> io_state" where
  "fd_load i io = io\<lparr>io_tab := slot_tab io i\<rparr>"

text \<open>A set that was never seeded shows in the flags of the descriptors 0 to 2.\<close>

definition seeded :: "fd_tab \<Rightarrow> bool" where
  "seeded t \<longleftrightarrow> fd_console t 0 \<noteq> 0 \<or> fd_console t 1 \<noteq> 0 \<or> fd_console t 2 \<noteq> 0 \<or> fd_kernel t 0 \<noteq> 0"

definition fd_inherit :: "nat \<Rightarrow> int \<Rightarrow> io_state \<Rightarrow> io_state" where
  "fd_inherit n ppid io =
     (let (p, io) = (if ppid > 0 then fdslot ppid io else (None, io));
          io = (case p of None \<Rightarrow> io | Some p \<Rightarrow> if seeded (slot_tab io p) then fd_load p io else io)
      in fd_save n io)"

text \<open>The first argument is the flag \<open>procexp\<close>.\<close>

definition fd_switch :: "bool \<Rightarrow> int \<Rightarrow> int \<Rightarrow> io_state \<Rightarrow> io_state" where
  "fd_switch experiments pid ppid io =
     (if \<not> experiments \<or> pid \<le> 0 \<or> pid = fdcur io then io
      else
        let io = (if fdcur io > 0
                  then (case fdslot (fdcur io) io of (None, io) \<Rightarrow> io | (Some o', io) \<Rightarrow> fd_save o' io)
                  else io)
        in (case fdslot pid io of
              (None, io) \<Rightarrow> io\<lparr>fdcur := pid\<rparr>
            | (Some n, io) \<Rightarrow>
                (let io = (if seeded (slot_tab io n) then io else fd_inherit n ppid io)
                 in (fd_load n io)\<lparr>fdcur := pid\<rparr>)))"

section \<open>The console's buffers under system calls\<close>

lemma uread_buf_length [simp]: "length (fst (uread_buf m a n)) = n"
  by (induction n arbitrary: m a) (simp_all add: Let_def split_def)

lemma chunks_ok: "con_ok c \<Longrightarrow> con_ok (snd (console_chunks m c a off len e))"
proof (induction m c a off len e rule: console_chunks.induct)
  case (1 m c a off len e)
  then show ?case
    using con_ok_write[OF 1(2)] by (subst console_chunks.simps) (auto simp: Let_def split: prod.split)
qed

lemma tty_is_upd:
  "con_ok c \<Longrightarrow> length bs = 6 \<Longrightarrow> con_ok (set_tty_sg bs c)" "con_ok (set_tty_lmode bs c) = con_ok c"
  "con_ok c \<Longrightarrow> length bs = 6 \<Longrightarrow> con_ok (c\<lparr>tty_tc := bs\<rparr>)" "con_ok c \<Longrightarrow> length bs = 6 \<Longrightarrow> con_ok (c\<lparr>tty_ltc := bs\<rparr>)"
  by (simp_all add: con_ok_def set_tty_sg_def set_tty_lmode_def host_tty_mode_def Let_def)

lemma tty_take_ok:
  assumes "con_ok c" "\<And>bs. length bs = n \<Longrightarrow> con_ok (upd bs c)"
  shows "con_ok (snd (snd (tty_take m c a n upd tpc)))"
  using assms by (simp add: tty_take_def split_def Let_def split: bool.split)

lemma tty_give_con [simp]: "snd (snd (tty_give m c a bs tpc)) = c"
  by (simp add: tty_give_def split: prod.split bool.split)

lemma fionread_ok: "con_ok c \<Longrightarrow> con_ok (snd (snd (tty_fionread m c a tpc)))"
proof -
  assume "con_ok c"
  then have "con_ok (snd (con_input_avail c))" using con_ok_tty[of "snd (con_input_avail c)" c] by simp
  then show ?thesis using \<open>con_ok c\<close> by (auto simp: tty_fionread_def split: prod.split bool.split)
qed

lemma tty_ioctl_ok: "con_ok c \<Longrightarrow> con_ok (snd (snd (tty_ioctl m c cmd a tpc)))"
  by (simp add: tty_ioctl_def tty_take_ok tty_is_upd fionread_ok)

lemma take_ok: "con_ok c \<Longrightarrow> con_ok (snd (console_take c n))"
  by (simp add: console_take_def con_ok_read)

text \<open>The console's buffers: no system call of the guest, whatever its arguments, takes the line buffer,
  the read position, the terminal's own buffer or the mode structures out of their arrays.\<close>

theorem console_type:
  assumes "con_ok (con io)"
  shows "con_ok (con (snd (snd (console_syscall n tpc m io))))"
proof -
  have w: "con_ok (con (snd (console_write m io a0 a1 a2 tpc)))" for a0 a1 a2
    using assms chunks_ok[OF assms] by (simp add: console_write_def Let_def split_def split: bool.split)
  have r: "con_ok (con (snd (console_read m io a1 a2 tpc)))" for a1 a2
    using assms take_ok[OF assms] by (simp add: console_read_def Let_def split_def split: bool.split)
  have i: "con_ok (con (snd (console_ioctl m io a1 a2 tpc)))" for a1 a2
    using tty_ioctl_ok[OF assms, of m a1 a2 tpc] by (simp add: console_ioctl_def split_def Let_def)
  show ?thesis using assms w r i by (simp add: console_syscall_def Let_def)
qed

theorem console_type_witness:
  "con_ok (con (snd (snd (console_syscall 3 0x1000 machine0 io0))))"
  by (rule console_type) (simp add: io0_def con_ok_def con0_def)

section \<open>Reading the console\<close>

lemma sys_done_simps [simp]:
  "pc (sys_done m r t) = t + 8" "RD (sys_done m r t) 2 = r" "mem (sys_done m r t) = mem m"
  by (simp_all add: sys_done_def RD_def WR_def)

text \<open>A console read loses no input to a page fault: either the buffer is not resident, and then the
  fault is pending, the program counter is back on the call, and memory, registers and the console are as
  they were; or all of it is resident, and only then is input taken, and the count returned is what
  was stored.\<close>

theorem console_read_no_loss:
  assumes "mmu_ok m" "fd_is_console io (RD m 2)"
    and "user_buf m (RD m 3) (if RD m 4 > 4096 then 4096 else RD m 4)"
    and "console_syscall 3 tpc m io = (h, m', io')"
  shows "h \<and>
    (io' = io \<and> pc m' = tpc \<and> fault_pending m' \<and> mem m' = mem m \<and> RD m' = RD m \<or>
     (\<forall>i < unat (if RD m 4 > 4096 then 4096 else RD m 4). resident m (RD m 3 + of_nat i)) \<and>
     con io' = snd (console_take (con io) (unat (if RD m 4 > 4096 then 4096 else RD m 4))) \<and>
     RD m' 2 = con_in_bytes io' - con_in_bytes io \<and> pc m' = tpc + 8)"
proof -
  let ?n = "if RD m 4 > 4096 then 4096 else RD m 4"
  have h: "h" "console_read m io (RD m 3) (RD m 4) tpc = (m', io')"
    using assms(2,4) by (simp_all add: console_syscall_def Let_def)
  obtain f m1 where f: "ubuf_fault m (RD m 3) ?n True tpc = (f, m1)" by fastforce
  note ck = ubuf_fault_spec[OF assms(1,3) f]
  have n: "(if ?n \<noteq> 0 then ubuf_fault m (RD m 3) ?n True tpc else (False, m)) = (f, m1)"
    using f by (auto simp: ubuf_fault_def)
  show ?thesis
  proof (cases f)
    case True
    then have "m' = m1" "io' = io" using h(2) n by (simp_all add: console_read_def)
    then show ?thesis using ck True h(1) by auto
  next
    case False
    obtain bs c where t: "console_take (con io) (unat ?n) = (bs, c)" by fastforce
    obtain k m2 where u: "uwrite_mem m1 (RD m 3) bs = (k, m2)" by fastforce
    have "m' = sys_done m2 (of_nat k) tpc" "io' = io\<lparr>con := c, con_in_bytes := con_in_bytes io + of_nat k\<rparr>"
      using h(2) n False t u by (simp_all add: console_read_def Let_def)
    then show ?thesis using ck False h(1) t by auto
  qed
qed

theorem console_read_no_loss_witness:
  "let m = WR (WR wp_machine 3 0x1234) 4 8; io = io0\<lparr>con := con0\<lparr>std_in := [[10]]\<rparr>\<rparr>;
       r = console_syscall 3 0x2000 m io
   in fst r \<and> RD (fst (snd r)) 2 = 1 \<and> con_in_bytes (snd (snd r)) = 1 \<and> resident m 0x1238"
proof -
  let ?m = "WR (WR wp_machine 3 0x1234) 4 8" let ?io = "io0\<lparr>con := con0\<lparr>std_in := [[10]]\<rparr>\<rparr>"
  have f: "tlb_flush ?m = ?m"
    by (simp add: wp_machine_def cow_machine_def machine0_def mmu0_def tlb_flush_def empty_ent_def WR_def)
  have ok: "mmu_ok ?m" using tlb_ok_flush[of ?m] wp_machine_ok(1) by (simp add: f mmu_ok_def devmap_ok_def)
  have r: "RD ?m 2 = 0" "RD ?m 3 = 0x1234" "RD ?m 4 = 8" by code_simp+
  have c: "fd_is_console ?io (RD ?m 2)" unfolding r by (simp add: fd_is_console_def io0_def)
  have b: "user_buf ?m (RD ?m 3) (if RD ?m 4 > 4096 then 4096 else RD ?m 4)"
    unfolding r using wp_machine_ok(3) by (simp add: user_buf_def)
  obtain h m' io' where e: "console_syscall 3 0x2000 ?m ?io = (h, m', io')" by (metis prod_cases3)
  have "(case console_syscall 3 0x2000 ?m ?io of (h, m', io') \<Rightarrow> (RD m' 2, con_in_bytes io', pc m')) = (1, 1, 0x2008)"
    by code_simp
  then have "RD m' 2 = 1" "con_in_bytes io' = 1" "pc m' \<noteq> 0x2000" using e by simp_all
  moreover from this(3) have h: "h" and all: "\<forall>i < unat (8 :: u32). resident ?m (0x1234 + of_nat i)"
    using console_read_no_loss[OF ok c b e] unfolding r by auto
  have "resident ?m (0x1234 + of_nat 4)" using all by (rule allE[of _ 4]) simp
  ultimately show ?thesis using e h by (simp add: Let_def)
qed

section \<open>The host file as the guest sees it\<close>

lemma pad_take:
  assumes "w = min n (v - k)" "length f \<le> v" "k \<le> v"
  shows "take w (drop k f) @ replicate (w - length (take w (drop k f))) x =
    take n (drop k (f @ replicate (v - length f) x))"
proof -
  have t: "take w (drop k f) = take n (drop k f)"
    using assms by (cases "n \<le> v - k") (simp_all add: min_def)
  have c: "w - length (take w (drop k f)) = min (n - length (drop k f)) (v - length f - (k - length f))"
    unfolding length_take length_drop assms(1) using assms(2,3) by (cases "k \<le> length f") (auto simp: min_def)
  show ?thesis unfolding c unfolding t by simp
qed

text \<open>Reads of \<^verbatim>\<open>/hosttar\<close>: as long as the offset and the count do not wrap, a read returns the bytes of
  the host file from the offset on, continued with zeros to the presented length and cut there, and the
  count is their number.\<close>

theorem hostfile_read:
  assumes "hostfile_size io \<le> hostfile_vsize io" "length f = unat (hostfile_size io)"
    and "off < hostfile_vsize io" "unat off + unat n < 2 ^ 32"
  shows "host_bytes io f off (host_want io off n) =
      take (unat n) (drop (unat off) (f @ replicate (unat (hostfile_vsize io) - length f) 0)) \<and>
    length (host_bytes io f off (host_want io off n)) = unat (host_want io off n)"
proof -
  let ?v = "hostfile_vsize io" and ?s = "hostfile_size io" and ?w = "host_want io off n"
  have le: "unat ?s \<le> unat ?v" "unat off < unat ?v" using assms(1,3) by (simp_all add: word_le_nat_alt word_less_nat_alt)
  have on: "unat (off + n) = unat off + unat n" using assms(4) by (intro unat_add_small) simp
  have w: "unat ?w = min (unat n) (unat ?v - unat off)"
    using le by (auto simp: host_want_def word_less_nat_alt on unat_sub word_le_nat_alt)
  have "unat off + unat ?w \<le> unat ?v" using w le by simp
  then have ow: "unat (off + ?w) = unat off + unat ?w" using unat_u32_bound[of ?v] by (intro unat_add_small) simp
  let ?rn = "if off < ?s then (if off + ?w \<le> ?s then ?w else ?s - off) else 0"
  have rn: "unat ?rn = min (unat ?w) (unat ?s - unat off)"
    by (auto simp: word_less_nat_alt word_le_nat_alt ow unat_sub)
  have got: "file_read f (unat off) (unat ?rn) = take (unat ?w) (drop (unat off) f)"
    unfolding file_read_def rn using assms(2) by (simp add: min_def)
  have "host_bytes io f off ?w = take (unat ?w) (drop (unat off) f) @
      replicate (unat ?w - length (take (unat ?w) (drop (unat off) f))) 0"
    by (simp add: host_bytes_def Let_def got)
  also have "\<dots> = take (unat n) (drop (unat off) (f @ replicate (unat ?v - length f) 0))"
    using assms(2) le by (intro pad_take[OF w]) simp_all
  finally have b: "host_bytes io f off ?w = take (unat n) (drop (unat off) (f @ replicate (unat ?v - length f) 0))" .
  have "length (f @ replicate (unat ?v - length f) 0) = unat ?v" using assms(2) le by simp
  then have "length (host_bytes io f off ?w) = unat ?w" unfolding b length_take length_drop w by simp
  with b show ?thesis by simp
qed

theorem hostfile_read_witness:
  "host_bytes (io0\<lparr>hostfile_size := 3, hostfile_vsize := 5\<rparr>) [65, 66, 67] 2
     (host_want (io0\<lparr>hostfile_size := 3, hostfile_vsize := 5\<rparr>) 2 100) = [67, 0, 0]"
proof -
  let ?io = "io0\<lparr>hostfile_size := 3, hostfile_vsize := 5\<rparr>"
  have "host_bytes ?io [65, 66, 67] 2 (host_want ?io 2 100) =
      take (unat (100 :: u32)) (drop (unat (2 :: u32)) ([65, 66, 67] @ replicate (unat (hostfile_vsize ?io) - length [65 :: u8, 66, 67]) 0))"
    by (rule hostfile_read[THEN conjunct1]) simp_all
  moreover have "replicate 2 (0 :: u8) = [0, 0]" by (simp add: numeral_2_eq_2)
  ultimately show ?thesis by simp
qed

text \<open>Where they wrap, the cut at the presented length is missed.\<close>

lemma hostfile_want_wraps: "hostfile_vsize io = 10240 \<Longrightarrow> host_want io 1 0xFFFFFFFF = 0xFFFFFFFF"
  by (simp add: host_want_def)

section \<open>The tables follow the process\<close>

text \<open>The slots as a map from process to table.\<close>

definition find_slot :: "int \<Rightarrow> io_state \<Rightarrow> nat option" where
  "find_slot pid io = find (\<lambda>i. slot_of pid (fdsets io ! i)) [0..<FDSETS]"

definition fd_map :: "io_state \<Rightarrow> int \<Rightarrow> fd_tab option" where
  "fd_map io pid = map_option (slot_tab io) (find_slot pid io)"

definition slots_ok :: "io_state \<Rightarrow> bool" where
  "slots_ok io \<longleftrightarrow> length (fdsets io) = FDSETS"

lemma find_upt: "find P [0..<n] = Some i \<longleftrightarrow> i < n \<and> P i \<and> (\<forall>j<i. \<not> P j)"
  by (auto simp: find_Some_iff)

lemma find_upt_cong: "(\<And>i. i < n \<Longrightarrow> P i = Q i) \<Longrightarrow> find P [0..<n] = find Q [0..<n]"
  by (rule find_cong) auto

lemma find_slotD: "find_slot pid io = Some i \<Longrightarrow> i < FDSETS \<and> slot_of pid (fdsets io ! i)"
  unfolding find_slot_def find_upt by blast

text \<open>A change of one slot is not seen by the other processes.\<close>

lemma slot_other:
  assumes "slots_ok io" "k < FDSETS" "\<not> slot_of p (fdsets io ! k)" "\<not> slot_of p s"
  shows "fd_map (io\<lparr>fdsets := (fdsets io)[k := s]\<rparr>) p = fd_map io p"
proof -
  let ?io = "io\<lparr>fdsets := (fdsets io)[k := s]\<rparr>"
  have e: "slot_of p (fdsets ?io ! i) = slot_of p (fdsets io ! i)" if "i < FDSETS" for i
    using that assms by (cases "i = k") (auto simp: slots_ok_def)
  have f: "find_slot p ?io = find_slot p io"
    unfolding find_slot_def by (rule find_upt_cong) (rule e)
  have "slot_tab ?io i = slot_tab io i" if "find_slot p io = Some i" for i
    using find_slotD[OF that] assms by (cases "i = k") (auto simp: slot_tab_def)
  then show ?thesis unfolding fd_map_def f by (cases "find_slot p io") simp_all
qed

lemma slot_of_unique: "slot_of p s \<Longrightarrow> slot_of q s \<Longrightarrow> p = q"
  by (auto simp: slot_of_def split: option.splits)

text \<open>Finding a slot gives one of that process and leaves the tables of all others alone.\<close>

lemma fdslot_spec:
  assumes "slots_ok io" "fdslot pid io = (r, io')"
  shows "slots_ok io' \<and> io_tab io' = io_tab io \<and> fdcur io' = fdcur io \<and>
    (\<forall>i. r = Some i \<longrightarrow> find_slot pid io' = Some i) \<and>
    (\<forall>p. p \<noteq> pid \<or> fd_map io p \<noteq> None \<longrightarrow> fd_map io' p = fd_map io p) \<and>
    (fd_map io pid \<noteq> None \<longrightarrow> r \<noteq> None) \<and> (r = None \<longrightarrow> io' = io)"
proof (cases "find_slot pid io")
  case (Some i)
  then have "r = Some i" "io' = io" using assms(2) by (simp_all add: fdslot_def find_slot_def)
  then show ?thesis using assms(1) Some by simp
next
  case None
  show ?thesis
  proof (cases "find (\<lambda>i. fdsets io ! i = None) [0..<FDSETS]")
    case None
    then have "r = None" "io' = io"
      using assms(2) \<open>find_slot pid io = None\<close> by (simp_all add: fdslot_def find_slot_def)
    then show ?thesis using assms(1) \<open>find_slot pid io = None\<close> by (simp add: fd_map_def)
  next
    case (Some i)
    let ?s = "Some \<lparr>fs_pid = pid, fs_tab = fd_tab_zero\<rparr>"
    have r: "r = Some i" "io' = io\<lparr>fdsets := (fdsets io)[i := ?s]\<rparr>"
      using assms(2) \<open>find_slot pid io = None\<close> Some by (simp_all add: fdslot_def find_slot_def)
    have i: "i < FDSETS" "fdsets io ! i = None" using Some unfolding find_upt by blast+
    have no: "\<not> slot_of pid (fdsets io ! j)" if "j < FDSETS" for j
      using \<open>find_slot pid io = None\<close> that unfolding find_slot_def find_None_iff by simp
    have "find_slot pid io' = Some i"
      unfolding find_slot_def find_upt
      using i no assms(1) by (auto simp: r slots_ok_def slot_of_def)
    moreover have "fd_map io' p = fd_map io p" if "p \<noteq> pid" for p
      unfolding r by (rule slot_other[OF assms(1) i(1)]) (use that i(2) in \<open>auto simp: slot_of_def\<close>)
    moreover have "fd_map io pid = None" using \<open>find_slot pid io = None\<close> by (simp add: fd_map_def)
    ultimately show ?thesis using assms(1) r by (auto simp: slots_ok_def)
  qed
qed

lemma fd_save_spec:
  assumes "slots_ok io" "find_slot pid io = Some i"
  shows "slots_ok (fd_save i io)" "fd_map (fd_save i io) = (fd_map io)(pid \<mapsto> io_tab io)"
    "find_slot pid (fd_save i io) = Some i" "io_tab (fd_save i io) = io_tab io" "fdcur (fd_save i io) = fdcur io"
proof -
  note i = find_slotD[OF assms(2)]
  obtain t where t: "fdsets io ! i = Some t" "fs_pid t = pid" using i by (auto simp: slot_of_def split: option.splits)
  let ?io = "io\<lparr>fdsets := (fdsets io)[i := Some (t\<lparr>fs_tab := io_tab io\<rparr>)]\<rparr>"
  have e: "fd_save i io = ?io" by (simp add: fd_save_def t)
  have s: "slot_of p (fdsets ?io ! j) = slot_of p (fdsets io ! j)" if "j < FDSETS" for p j
    using that assms(1) t by (cases "j = i") (auto simp: slots_ok_def slot_of_def)
  have "find_slot p ?io = find_slot p io" for p
    unfolding find_slot_def by (rule find_upt_cong) (rule s)
  note f = this
  show "slots_ok (fd_save i io)" "find_slot pid (fd_save i io) = Some i"
    "io_tab (fd_save i io) = io_tab io" "fdcur (fd_save i io) = fdcur io"
    using assms by (simp_all add: e f slots_ok_def)
  show "fd_map (fd_save i io) = (fd_map io)(pid \<mapsto> io_tab io)"
  proof
    fix p
    show "fd_map (fd_save i io) p = ((fd_map io)(pid \<mapsto> io_tab io)) p"
    proof (cases "p = pid")
      case True
      then show ?thesis using assms i by (simp add: e fd_map_def f slot_tab_def slots_ok_def)
    next
      case False
      then show ?thesis unfolding e using slot_other[OF assms(1), of i p] i t by (auto simp: slot_of_def)
    qed
  qed
qed

lemma slot_upd [simp]:
  "slots_ok (io\<lparr>io_tab := t\<rparr>) = slots_ok io" "slots_ok (io\<lparr>fdcur := c\<rparr>) = slots_ok io"
  "find_slot p (io\<lparr>io_tab := t\<rparr>) = find_slot p io" "find_slot p (io\<lparr>fdcur := c\<rparr>) = find_slot p io"
  "slot_tab (io\<lparr>io_tab := t\<rparr>) = slot_tab io" "slot_tab (io\<lparr>fdcur := c\<rparr>) = slot_tab io"
  by (simp_all add: slots_ok_def find_slot_def slot_tab_def fun_eq_iff)

lemma fd_map_upd [simp]:
  "fd_map (io\<lparr>io_tab := t\<rparr>) = fd_map io" "fd_map (io\<lparr>fdcur := c\<rparr>) = fd_map io"
  by (simp_all add: fd_map_def fun_eq_iff)

lemma fd_load_simps [simp]:
  "slots_ok (fd_load i io) = slots_ok io" "fd_map (fd_load i io) = fd_map io" "io_tab (fd_load i io) = slot_tab io i"
  "find_slot p (fd_load i io) = find_slot p io" "fdcur (fd_load i io) = fdcur io"
  by (simp_all add: fd_load_def)

text \<open>A first save: the current process's table, where it has or can get a slot.\<close>

definition save_current :: "io_state \<Rightarrow> io_state" where
  "save_current io = (if fdcur io > 0
     then (case fdslot (fdcur io) io of (None, io) \<Rightarrow> io | (Some o', io) \<Rightarrow> fd_save o' io) else io)"

lemma fd_switch_eq:
  "q > 0 \<Longrightarrow> q \<noteq> fdcur io \<Longrightarrow> fd_switch True q pp io =
   (case fdslot q (save_current io) of (None, io1) \<Rightarrow> io1\<lparr>fdcur := q\<rparr>
    | (Some n, io1) \<Rightarrow> (fd_load n (if seeded (slot_tab io1 n) then io1 else fd_inherit n pp io1))\<lparr>fdcur := q\<rparr>)"
  unfolding fd_switch_def save_current_def Let_def by simp

lemma save_current_spec:
  assumes "slots_ok io"
  shows "slots_ok (save_current io) \<and> io_tab (save_current io) = io_tab io \<and>
    (\<forall>p. p \<noteq> fdcur io \<longrightarrow> fd_map (save_current io) p = fd_map io p) \<and>
    (fdcur io > 0 \<and> fst (fdslot (fdcur io) io) \<noteq> None \<longrightarrow> fd_map (save_current io) (fdcur io) = Some (io_tab io))"
proof -
  obtain r io1 where f: "fdslot (fdcur io) io = (r, io1)" by fastforce
  note fs = fdslot_spec[OF assms f]
  show ?thesis
  proof (cases "fdcur io > 0 \<and> r \<noteq> None")
    case False
    then show ?thesis using fs f assms by (auto simp: save_current_def)
  next
    case True
    then obtain i where i: "r = Some i" by blast
    note sv = fd_save_spec[of io1 "fdcur io" i]
    show ?thesis using True fs f i sv by (auto simp: save_current_def)
  qed
qed

lemma inherit_spec:
  assumes "slots_ok io" "find_slot n io = Some i"
  shows "slots_ok (fd_inherit i pp io) \<and> find_slot n (fd_inherit i pp io) = Some i \<and>
    (\<forall>p. p \<noteq> n \<and> fd_map io p \<noteq> None \<longrightarrow> fd_map (fd_inherit i pp io) p = fd_map io p)"
proof -
  obtain r io1 where f: "(if pp > 0 then fdslot pp io else (None, io)) = (r, io1)" by fastforce
  have 1: "slots_ok io1" "find_slot n io1 = Some i" "\<forall>p. fd_map io p \<noteq> None \<longrightarrow> fd_map io1 p = fd_map io p"
  proof -
    have s: "slots_ok io1 \<and> (\<forall>p. fd_map io p \<noteq> None \<longrightarrow> fd_map io1 p = fd_map io p)"
      using f fdslot_spec[OF assms(1), of pp r io1] assms(1) by (auto split: if_splits)
    then show "slots_ok io1" "\<forall>p. fd_map io p \<noteq> None \<longrightarrow> fd_map io1 p = fd_map io p" by blast+
    show "find_slot n io1 = Some i"
    proof (cases "pp > 0 \<and> find_slot pp io = None")
      case False
      then have "io1 = io" using f assms(2) by (auto simp: fdslot_def find_slot_def split: if_splits)
      then show ?thesis using assms(2) by simp
    next
      case True
      have i: "i < FDSETS \<and> slot_of n (fdsets io ! i) \<and> (\<forall>j<i. \<not> slot_of n (fdsets io ! j))"
        using assms(2) unfolding find_slot_def find_upt .
      have ne: "n \<noteq> pp" using True assms(2) by auto
      show ?thesis
      proof (cases "find (\<lambda>i. fdsets io ! i = None) [0..<FDSETS]")
        case None
        then have "io1 = io" using f True unfolding fdslot_def find_slot_def by simp
        then show ?thesis using assms(2) by simp
      next
        case (Some k)
        then have k: "k < FDSETS" "fdsets io ! k = None" unfolding find_upt by blast+
        have io1: "io1 = io\<lparr>fdsets := (fdsets io)[k := Some \<lparr>fs_pid = pp, fs_tab = fd_tab_zero\<rparr>]\<rparr>"
          using f True Some unfolding fdslot_def find_slot_def by simp
        have "slot_of n (fdsets io1 ! j) = slot_of n (fdsets io ! j)" if "j < FDSETS" for j
          using that k ne assms(1) by (cases "j = k") (auto simp: io1 slots_ok_def slot_of_def)
        then have "find_slot n io1 = find_slot n io" unfolding find_slot_def by (rule find_upt_cong)
        then show ?thesis using assms(2) by simp
      qed
    qed
  qed
  define io2 where "io2 = (case r of None \<Rightarrow> io1 | Some p \<Rightarrow> if seeded (slot_tab io1 p) then fd_load p io1 else io1)"
  have 2: "slots_ok io2" "find_slot n io2 = Some i" "fd_map io2 = fd_map io1"
    using 1 by (auto simp: io2_def split: option.split)
  have "fd_inherit i pp io = fd_save i io2" by (simp add: fd_inherit_def f io2_def)
  then show ?thesis using fd_save_spec[OF 2(1,2)] 1 2 by simp
qed

text \<open>A switch away keeps the table of the process left, and every table of a third one.\<close>

lemma switch_keeps:
  assumes "slots_ok io" "p \<noteq> q" "fd_map (save_current io) p = Some t"
  shows "slots_ok (fd_switch True q pp io) \<and> (q > 0 \<and> q \<noteq> fdcur io \<longrightarrow>
    fdcur (fd_switch True q pp io) = q \<and> fd_map (fd_switch True q pp io) p = Some t)"
proof (cases "q \<le> 0 \<or> q = fdcur io")
  case True
  then show ?thesis using assms(1) by (auto simp: fd_switch_def)
next
  case False
  obtain r io1 where f: "fdslot q (save_current io) = (r, io1)" by fastforce
  note sc = save_current_spec[OF assms(1)]
  note fs = fdslot_spec[OF conjunct1[OF sc] f]
  have e: "fd_switch True q pp io = (case r of None \<Rightarrow> io1\<lparr>fdcur := q\<rparr>
      | Some n \<Rightarrow> (fd_load n (if seeded (slot_tab io1 n) then io1 else fd_inherit n pp io1))\<lparr>fdcur := q\<rparr>)"
    using False f fd_switch_eq[of q io pp] by simp
  show ?thesis
  proof (cases r)
    case None
    then show ?thesis using e fs sc assms(2,3) by simp
  next
    case (Some n)
    have n: "slots_ok io1" "find_slot q io1 = Some n" using fs Some by auto
    have "fd_map io1 p = Some t" using fs assms(2,3) by metis
    then show ?thesis using e Some inherit_spec[OF n, of pp] n assms(2) by simp
  qed
qed

text \<open>Back to a process whose table was saved.\<close>

lemma switch_restores:
  assumes "length (fdsets io) = 24" "fdcur io = p" "p > 0" "q > 0" "p \<noteq> q"
    and "fst (fdslot p io) \<noteq> None" "seeded (io_tab io)"
  shows "io_tab (fd_switch True p pp' ((fd_switch True q pp io)\<lparr>io_tab := t\<rparr>)) = io_tab io"
proof -
  have ok: "slots_ok io" using assms(1) by (simp add: slots_ok_def)
  have s: "fd_map (save_current io) p = Some (io_tab io)"
    using save_current_spec[OF ok] assms(2,3,6) by auto
  let ?io = "(fd_switch True q pp io)\<lparr>io_tab := t\<rparr>"
  have 1: "slots_ok ?io" "fdcur ?io = q" "fd_map ?io p = Some (io_tab io)"
    using switch_keeps[OF ok assms(5) s, of pp] assms(2,4,5) by simp_all
  have 2: "fd_map (save_current ?io) p = Some (io_tab io)" "slots_ok (save_current ?io)"
    using save_current_spec[OF 1(1)] 1 assms(5) by simp_all
  obtain i where i: "find_slot p (save_current ?io) = Some i" "slot_tab (save_current ?io) i = io_tab io"
    using 2(1) by (auto simp: fd_map_def)
  then have "fdslot p (save_current ?io) = (Some i, save_current ?io)" by (simp add: fdslot_def find_slot_def)
  moreover have "p \<noteq> fdcur ?io" using 1(2) assms(5) by simp
  ultimately have "fd_switch True p pp' ?io = (fd_load i (save_current ?io))\<lparr>fdcur := p\<rparr>"
    using fd_switch_eq[OF assms(3), of ?io pp'] assms(7) i(2) by simp
  then show ?thesis using i(2) by simp
qed

text \<open>Descriptor flags follow the process: after a switch to any other process, whatever that one does to
  the flags while it runs, switching back restores the flags of the first, provided it still answers
  for one of its descriptors 0 to 2 and has a slot.\<close>

theorem fd_switch_back:
  assumes "length (fdsets io) = 24" "fdcur io = p" "p > 0" "q > 0" "p \<noteq> q"
    and "fst (fdslot p io) \<noteq> None" "seeded (io_tab io)"
  shows "io_tab (fd_switch True p pp' ((fd_switch True q pp io)\<lparr>io_tab := t\<rparr>)) = io_tab io"
  using assms by (rule switch_restores)

theorem fd_switch_back_witness:
  "io_tab (fd_switch True 7 0 ((fd_switch True 8 7 (io0\<lparr>fdcur := 7\<rparr>))\<lparr>io_tab := fd_tab_zero\<rparr>)) = io_tab io0"
proof -
  let ?io = "io0\<lparr>fdcur := 7\<rparr>"
  have "fst (fdslot 7 ?io) \<noteq> None" by code_simp
  then show ?thesis
    using fd_switch_back[where io = ?io and p = 7 and q = 8 and pp = 7 and pp' = 0 and t = fd_tab_zero] by (simp add: io0_def seeded_def)
qed

text \<open>C31. A process that has closed its descriptors 0, 1 and 2 is taken for a new one: when it comes back
  after a switch it has its parent's flags again, so the emulator answers for descriptors it closed.\<close>

theorem fd_switch_reopens:
  assumes "length (fdsets io) = 24" "fdcur io = p" "p > 0" "q > 0" "p \<noteq> q" "fst (fdslot p io) \<noteq> None"
    and "\<not> seeded (io_tab io)" "fd_map io q = Some parent" "seeded parent"
  shows "io_tab (fd_switch True p q (fd_switch True q pp io)) = parent"
proof -
  have ok: "slots_ok io" using assms(1) by (simp add: slots_ok_def)
  note sc = save_current_spec[OF ok]
  let ?s = "save_current io"
  have s: "slots_ok ?s" "fd_map ?s p = Some (io_tab io)" "fd_map ?s q = Some parent"
    using sc assms(2,3,5,6,8) by auto
  obtain i where i: "find_slot q ?s = Some i" "slot_tab ?s i = parent" using s(3) by (auto simp: fd_map_def)
  then have "fdslot q ?s = (Some i, ?s)" by (simp add: fdslot_def find_slot_def)
  moreover have "q \<noteq> fdcur io" using assms(2,5) by simp
  ultimately have sw: "fd_switch True q pp io = (fd_load i ?s)\<lparr>fdcur := q\<rparr>"
    using fd_switch_eq[OF assms(4), of io pp] i(2) assms(9) by simp
  let ?io = "(fd_load i ?s)\<lparr>fdcur := q\<rparr>"
  have io: "slots_ok ?io" "fdcur ?io = q" "fd_map ?io = fd_map ?s" "io_tab ?io = parent" "find_slot q ?io = Some i"
    using s i by simp_all
  then have "fdslot q ?io = (Some i, ?io)" by (simp add: fdslot_def find_slot_def)
  then have t: "save_current ?io = fd_save i ?io" using io(2) assms(4) by (simp add: save_current_def)
  note sv = fd_save_spec[OF io(1,5)]
  let ?t = "fd_save i ?io"
  have m: "fd_map ?t p = Some (io_tab io)" "fd_map ?t q = Some parent" using sv(2) io(3,4) s assms(5) by simp_all
  obtain j where j: "find_slot p ?t = Some j" "slot_tab ?t j = io_tab io" using m(1) by (auto simp: fd_map_def)
  then have fp: "fdslot p ?t = (Some j, ?t)" by (simp add: fdslot_def find_slot_def)
  have fq: "fdslot q ?t = (Some i, ?t)" using sv(3) by (simp add: fdslot_def find_slot_def)
  have ti: "slot_tab ?t i = parent" using m(2) sv(3) by (simp add: fd_map_def)
  have "p \<noteq> fdcur ?io" using io(2) assms(5) by simp
  then have e: "fd_switch True p q ?io = (fd_load j (fd_inherit j q ?t))\<lparr>fdcur := p\<rparr>"
    using fd_switch_eq[OF assms(3), of ?io q] t fp j(2) assms(7) by simp
  have inh: "fd_inherit j q ?t = fd_save j (fd_load i ?t)" using assms(4,9) fq ti by (simp add: fd_inherit_def)
  have l: "slots_ok (fd_load i ?t)" "find_slot p (fd_load i ?t) = Some j" using sv(1) j(1) by simp_all
  note sj = fd_save_spec[OF l]
  have "slot_tab (fd_save j (fd_load i ?t)) j = parent" using sj(2,3) ti by (simp add: fd_map_def fun_eq_iff)
       (metis option.map(2) option.inject)
  then show ?thesis unfolding sw e inh by simp
qed

text \<open>Process 9 has closed its console; 7 is its parent.\<close>

definition io_closed :: io_state where
  "io_closed = io0\<lparr>io_tab := fd_tab_zero, fdcur := 9,
     fdsets := Some \<lparr>fs_pid = 7, fs_tab = io_tab io0\<rparr> # Some \<lparr>fs_pid = 9, fs_tab = fd_tab_zero\<rparr> # replicate 22 None\<rparr>"

theorem fd_switch_reopens_witness:
  "fd_console (io_tab io_closed) 1 = 0 \<and>
   fd_console (io_tab (fd_switch True 9 7 (fd_switch True 7 0 io_closed))) 1 = 1"
proof -
  have "find_slot 7 io_closed = Some 0" unfolding find_slot_def find_upt by (simp add: io_closed_def slot_of_def)
  then have m: "fd_map io_closed 7 = Some (io_tab io0)" by (simp add: fd_map_def slot_tab_def io_closed_def)
  have "fst (fdslot 9 io_closed) \<noteq> None" by code_simp
  then have "io_tab (fd_switch True 9 7 (fd_switch True 7 0 io_closed)) = io_tab io0"
    using fd_switch_reopens[where io = io_closed and p = 9 and q = 7 and pp = 0, OF _ _ _ _ _ _ _ m]
    by (simp add: io_closed_def io0_def seeded_def fd_tab_zero_def)
  then show ?thesis by (simp add: io_closed_def io0_def fd_tab_zero_def)
qed

end
