(* ===== verification/Kmsg.thy ===== *)
theory Kmsg
  imports Prelude
begin

text \<open>
  The kernel's console output as \<^verbatim>\<open>kmsg.c\<close> captures it: characters of the console and of the log are
  gathered into lines in two buffers, a log line that repeats the last console line is dropped, and
  each line is printed with a prefix, coloured by what it says.

  A C string is the list of its bytes without the terminator.  The lemmas bound the buffers and show
  that a line goes out once, as it came in.
\<close>

section \<open>Lines\<close>

type_synonym bytes = "u8 list"

definition ascii :: "string \<Rightarrow> bytes" where
  "ascii s = map (\<lambda>c. word_of_nat (of_char c)) s"

definition to_lower :: "u8 \<Rightarrow> u8" where
  "to_lower c = (if 65 \<le> c \<and> c \<le> 90 then c + 32 else c)"

definition is_digit :: "u8 \<Rightarrow> bool" where
  "is_digit c \<longleftrightarrow> 48 \<le> c \<and> c \<le> 57"

text \<open>The inner loop of \<open>has_ci\<close> ends with \<open>i = n\<close>.\<close>

fun starts_ci :: "bytes \<Rightarrow> bytes \<Rightarrow> bool" where
  "starts_ci hay [] = True"
| "starts_ci [] (c # cs) = False"
| "starts_ci (h # hs) (c # cs) = (to_lower h = to_lower c \<and> starts_ci hs cs)"

fun has_ci :: "bytes \<Rightarrow> bytes \<Rightarrow> bool" where
  "has_ci [] needle = False"
| "has_ci (h # hs) needle = (starts_ci (h # hs) needle \<or> has_ci hs needle)"

definition has_str :: "bytes \<Rightarrow> bytes \<Rightarrow> bool" where
  "has_str hay needle \<longleftrightarrow> (\<exists>i\<in>set [0..<length hay + 1]. take (length needle) (drop i hay) = needle)"

definition kmsg_sgr :: "bytes \<Rightarrow> bytes option" where
  "kmsg_sgr s =
     (if has_str s (ascii ''TC2000'') then Some (ascii ''1;97'')
      else if has_ci s (ascii ''panic'') \<or> has_ci s (ascii ''warning'') \<or>
              has_ci s (ascii ''error'') \<or> has_ci s (ascii ''failed'') then Some (ascii ''1;33'')
      else if 3 \<le> length s \<and> s ! 0 = 0x3C \<and> is_digit (s ! 1) \<and> s ! 2 = 0x3E then Some (ascii ''2'')
      else None)"

section \<open>State and operations\<close>

abbreviation (input) KMSG_MAX :: nat where "KMSG_MAX \<equiv> 512"
abbreviation (input) newline :: u8 where "newline \<equiv> 0x0A"
abbreviation (input) cr :: u8 where "cr \<equiv> 0x0D"

record kmsg =
  km_cons :: bytes
  km_log :: bytes
  km_last :: bytes
  km_color :: bool
  km_out :: bytes            \<comment> \<open>what has gone to \<open>stdout\<close>\<close>

definition kmsg_text :: "kmsg \<Rightarrow> bytes \<Rightarrow> bytes" where
  "kmsg_text k s =
     (case (if km_color k then kmsg_sgr s else None) of
        Some sgr \<Rightarrow> [0x1B, 0x5B] @ sgr @ ascii ''m[nx] '' @ s @ [0x1B, 0x5B, 0x30, 0x6D, newline]
      | None \<Rightarrow> ascii ''[nx] '' @ s @ [newline])"

definition kmsg_line :: "kmsg \<Rightarrow> bytes \<Rightarrow> bool \<Rightarrow> kmsg" where
  "kmsg_line k s is_log =
     (if is_log \<and> s = km_last k then k
      else
        let k = k\<lparr>km_out := km_out k @ kmsg_text k s\<rparr>
        in if \<not> is_log then k\<lparr>km_last := take (KMSG_MAX - 1) s\<rparr> else k)"

definition km_buf :: "bool \<Rightarrow> kmsg \<Rightarrow> bytes" where
  "km_buf is_log k = (if is_log then km_log k else km_cons k)"

definition set_buf :: "bool \<Rightarrow> bytes \<Rightarrow> kmsg \<Rightarrow> kmsg" where
  "set_buf is_log b k = (if is_log then k\<lparr>km_log := b\<rparr> else k\<lparr>km_cons := b\<rparr>)"

definition kmsg_putchar :: "kmsg \<Rightarrow> u8 \<Rightarrow> u32 \<Rightarrow> kmsg" where
  "kmsg_putchar k c flags =
     (let is_log = (flags AND 1 = 0); buf = km_buf is_log k in
      if c = newline \<or> length buf \<ge> KMSG_MAX - 1 then
        (let k = (if buf \<noteq> [] then kmsg_line k buf is_log else k)
         in set_buf is_log (if c \<noteq> newline \<and> c \<noteq> 0 then [c] else []) k)
      else if c = cr \<or> c = 0 then k
      else set_buf is_log (buf @ [c]) k)"

definition kmsg_flush :: "kmsg \<Rightarrow> kmsg" where
  "kmsg_flush k =
     (let k = (if km_cons k \<noteq> [] then (kmsg_line k (km_cons k) False)\<lparr>km_cons := []\<rparr> else k)
      in if km_log k \<noteq> [] then (kmsg_line k (km_log k) True)\<lparr>km_log := []\<rparr> else k)"

section \<open>Lemmas\<close>

definition kmsg0 :: kmsg where
  "kmsg0 = \<lparr>km_cons = [], km_log = [], km_last = [], km_color = False, km_out = []\<rparr>"

text \<open>The buffers stay within their arrays, with room for the terminator, and hold neither NUL nor
  newline.\<close>

definition km_ok :: "kmsg \<Rightarrow> bool" where
  "km_ok k \<longleftrightarrow>
     (\<forall>b\<in>{km_cons k, km_log k}. length b \<le> KMSG_MAX - 1 \<and> 0 \<notin> set b \<and> newline \<notin> set b) \<and>
     length (km_last k) \<le> KMSG_MAX - 1"

lemma kmsg_line_frame [simp]:
  "km_cons (kmsg_line k s l) = km_cons k" "km_log (kmsg_line k s l) = km_log k"
  "km_color (kmsg_line k s l) = km_color k" "km_buf b (kmsg_line k s l) = km_buf b k"
  by (simp_all add: kmsg_line_def km_buf_def Let_def)

lemma set_buf_frame [simp]:
  "km_out (set_buf l b k) = km_out k" "km_last (set_buf l b k) = km_last k"
  "km_color (set_buf l b k) = km_color k" "km_buf l (set_buf l b k) = b"
  "set_buf l b (set_buf l b' k) = set_buf l b k"
  by (simp_all add: set_buf_def km_buf_def)

lemma kmsg_text_buf [simp]: "kmsg_text (set_buf l b k) s = kmsg_text k s"
  by (simp add: kmsg_text_def)

lemma km_ok_line: "km_ok k \<Longrightarrow> km_ok (kmsg_line k s l)"
  by (auto simp: km_ok_def kmsg_line_def Let_def)

lemma km_ok_set_buf:
  "km_ok k \<Longrightarrow> length b \<le> KMSG_MAX - 1 \<Longrightarrow> 0 \<notin> set b \<Longrightarrow> newline \<notin> set b \<Longrightarrow> km_ok (set_buf l b k)"
  by (auto simp: km_ok_def set_buf_def)

lemma km_ok_buf:
  "km_ok k \<Longrightarrow> length (km_buf l k) \<le> KMSG_MAX - 1 \<and> 0 \<notin> set (km_buf l k) \<and> newline \<notin> set (km_buf l k)"
  by (auto simp: km_ok_def km_buf_def)

lemma km_ok_putchar: "km_ok k \<Longrightarrow> km_ok (kmsg_putchar k c flags)"
  using km_ok_buf[of k "flags AND 1 = 0"]
  by (auto simp: kmsg_putchar_def Let_def intro!: km_ok_set_buf km_ok_line)

lemma km_ok_flush: "km_ok k \<Longrightarrow> km_ok (kmsg_flush k)"
  using km_ok_line by (auto simp: kmsg_flush_def km_ok_def kmsg_line_def Let_def)

text \<open>Characters gather.\<close>

lemma gather:
  assumes "length b + length s < KMSG_MAX" "newline \<notin> set s" "cr \<notin> set s" "0 \<notin> set s"
  shows "fold (\<lambda>c k. kmsg_putchar k c flags) s (set_buf (flags AND 1 = 0) b k) = set_buf (flags AND 1 = 0) (b @ s) k"
  using assms
proof (induction s arbitrary: b)
  case (Cons c s)
  have "kmsg_putchar (set_buf (flags AND 1 = 0) b k) c flags = set_buf (flags AND 1 = 0) (b @ [c]) k"
    using Cons.prems by (auto simp: kmsg_putchar_def Let_def)
  then show ?case using Cons.IH[of "b @ [c]"] Cons.prems by simp
qed simp

definition km_print :: "u32 \<Rightarrow> bytes \<Rightarrow> kmsg \<Rightarrow> kmsg" where
  "km_print flags s k = fold (\<lambda>c k. kmsg_putchar k c flags) (s @ [newline]) k"

lemma km_print_line:
  assumes "km_buf (flags AND 1 = 0) k = []" "s \<noteq> []" "length s < KMSG_MAX" "newline \<notin> set s" "cr \<notin> set s" "0 \<notin> set s"
  shows "km_print flags s k = kmsg_line k s (flags AND 1 = 0)"
proof -
  let ?l = "flags AND 1 = 0"
  have k: "set_buf ?l [] k = k" using assms(1) by (cases k) (auto simp: set_buf_def km_buf_def)
  have "fold (\<lambda>c k. kmsg_putchar k c flags) s k = set_buf ?l s k"
    using gather[of "[]" s flags k] assms(3-6) k by simp
  then have "km_print flags s k = kmsg_putchar (set_buf ?l s k) newline flags"
    by (simp add: km_print_def)
  also have "\<dots> = set_buf ?l [] (kmsg_line (set_buf ?l s k) s ?l)"
    using assms(2) by (simp add: kmsg_putchar_def Let_def)
  also have "\<dots> = kmsg_line k s ?l"
    using assms(1) by (cases k) (auto simp: kmsg_line_def set_buf_def km_buf_def Let_def kmsg_text_def)
  finally show ?thesis .
qed

section \<open>Properties\<close>

text \<open>The line buffers: whatever characters the kernel prints, on the console or in the log, and
  however flushes come between, no buffer outgrows its array, and none holds a NUL or a newline.\<close>

theorem kmsg_bounds:
  assumes "km_ok k"
  shows "km_ok (fold (\<lambda>e k. case e of None \<Rightarrow> kmsg_flush k | Some (c, flags) \<Rightarrow> kmsg_putchar k c flags) es k)"
  using assms by (induction es arbitrary: k) (auto split: option.split intro: km_ok_putchar km_ok_flush)

theorem kmsg_bounds_witness:
  "km_ok (fold (\<lambda>e k. case e of None \<Rightarrow> kmsg_flush k | Some (c, flags) \<Rightarrow> kmsg_putchar k c flags)
     (replicate 600 (Some (0x41, 1))) kmsg0)"
  by (rule kmsg_bounds) (simp add: km_ok_def kmsg0_def)

text \<open>C39. Each message appears once: a line printed on the console comes out complete, after a prefix, and the
  copy of it that the kernel then writes to its log is dropped.\<close>

theorem kmsg_once:
  assumes "km_cons k = []" "km_log k = []" "s \<noteq> []" "length s < 512"
    and "0x0A \<notin> set s" "0x0D \<notin> set s" "0 \<notin> set s" "c AND 1 = 1" "l AND 1 = 0"
  shows "km_out (km_print c s k) = km_out k @ kmsg_text k s \<and> km_print l s (km_print c s k) = km_print c s k"
proof -
  have b: "km_buf (c AND 1 = 0) k = []" using assms(1,2) by (simp add: km_buf_def)
  have cons: "km_print c s k = kmsg_line k s False"
    using km_print_line[OF b assms(3)] assms(4-8) by simp
  have t: "take 511 s = s" using assms(4) by simp
  have "km_buf (l AND 1 = 0) (kmsg_line k s False) = []" using assms(1,2) by (simp add: km_buf_def)
  from km_print_line[OF this assms(3)] have "km_print l s (kmsg_line k s False) = kmsg_line (kmsg_line k s False) s True"
    using assms(4-7,9) by simp
  then show ?thesis unfolding cons by (simp add: kmsg_line_def Let_def t)
qed

theorem kmsg_once_witness:
  "km_out (km_print 0 (ascii ''hi'') (km_print 1 (ascii ''hi'') kmsg0)) = ascii ''[nx] hi'' @ [0x0A]"
proof -
  have s: "ascii ''hi'' = [104, 105]" by code_simp
  have "km_out (km_print 1 (ascii ''hi'') kmsg0) = km_out kmsg0 @ kmsg_text kmsg0 (ascii ''hi'') \<and>
      km_print 0 (ascii ''hi'') (km_print 1 (ascii ''hi'') kmsg0) = km_print 1 (ascii ''hi'') kmsg0"
    by (rule kmsg_once) (simp_all add: kmsg0_def s)
  then show ?thesis by (simp add: kmsg0_def kmsg_text_def s) (simp add: ascii_def)
qed

end
