(* ===== verification/Boot.thy ===== *)
theory Boot
  imports Tlb
begin

text \<open>
  The synthetic boot loader of \<^verbatim>\<open>mmu.c\<close>: \<open>map_range_off\<close> fills a segment table and the page tables it
  needs out of a pool, \<open>boot_build_tables\<close> maps the kernel and the device windows for the code and
  the data side and loads the area pointers, \<open>build_free_list\<close> threads the free list through the
  interleaver's RAM.

  \<open>map_range_off\<close> is \<open>None\<close> where its loop does not end, which takes a range up to the last page.
  The invariant \<open>tables_ok\<close> says that every page table in use is a page of its own in the pool;
  from it follows that the walk of \<^verbatim>\<open>Mmu\<close> finds exactly the mappings made.
\<close>

section \<open>Operations\<close>

definition set_ptpool :: "u32 \<Rightarrow> machine \<Rightarrow> machine" where
  "set_ptpool v m = m\<lparr>mmu := (mmu m)\<lparr>ptpool_next := v\<rparr>\<rparr>"

text \<open>The body of the loop: one page.\<close>

definition map_page :: "machine \<Rightarrow> u32 \<Rightarrow> u32 \<Rightarrow> u32 \<Rightarrow> machine" where
  "map_page m segtab va off =
     (let sidx = drop_bit 22 va AND 0x3FF;
          sdesc = rd32 m (segtab + sidx * 4);
          (pgtab, m) =
            (if sdesc AND 1 \<noteq> 0 then (sdesc AND 0xFFFFF000, m)
             else
               (let pgtab = ptpool_next (mmu m);
                    m = set_ptpool (ptpool_next (mmu m) + PAGE_SIZE) m;
                    m = m\<lparr>mem := mem_zero (mem m) pgtab 4096\<rparr>
                in (pgtab, wr32 m (segtab + sidx * 4) (pgtab OR 1))))
      in wr32 m (pgtab + (drop_bit 12 va AND 0x3FF) * 4) (((va - off) AND 0xFFFFF000) OR 1))"

partial_function (option) map_range_off :: "machine \<Rightarrow> u32 \<Rightarrow> u32 \<Rightarrow> u32 \<Rightarrow> u32 \<Rightarrow> machine option" where
  "map_range_off m segtab va hi off =
     (if va < hi then map_range_off (map_page m segtab va off) segtab (va + PAGE_SIZE) hi off else Some m)"

definition map_range :: "machine \<Rightarrow> u32 \<Rightarrow> u32 \<Rightarrow> u32 \<Rightarrow> machine option" where
  "map_range m segtab lo hi = map_range_off m segtab lo hi 0"

text \<open>The free list: \<open>0x60\<close> entries, \<open>fl_stride\<close> apart, each holding the next.\<close>

fun link_entries :: "machine \<Rightarrow> u32 \<Rightarrow> nat list \<Rightarrow> machine" where
  "link_entries m head [] = m"
| "link_entries m head (i # is) =
     (let stride = fl_stride (cfg m);
          slot = head + of_nat i * stride;
          v = (if i + 1 < 0x60 then head + (of_nat i + 1) * stride else 0)
      in link_entries (m\<lparr>mem := cmram_w32 (mem m) slot v\<rparr>) head is)"

definition build_free_list :: "machine \<Rightarrow> machine" where
  "build_free_list m =
     (let head = rd32 m 0xC0014038;
          (head, m) = (if head = 0 then (0x40000000, wr32 m 0xC0014038 0x40000000) else (head, m))
      in link_entries m head [0..<0x60])"

text \<open>Both tables get the same mappings.\<close>

definition map_both :: "u32 \<Rightarrow> u32 \<Rightarrow> u32 \<Rightarrow> machine \<Rightarrow> machine option" where
  "map_both lo hi off m =
     (case map_range_off m CODE_SEGTAB lo hi off of
        None \<Rightarrow> None
      | Some m \<Rightarrow> map_range_off m DATA_SEGTAB lo hi off)"

fun map_windows :: "(u32 \<times> u32) list \<Rightarrow> machine \<Rightarrow> machine option" where
  "map_windows [] m = Some m"
| "map_windows ((lo, hi) # ds) m =
     (case map_range m CODE_SEGTAB lo hi of
        None \<Rightarrow> None
      | Some m \<Rightarrow>
          (case map_range m DATA_SEGTAB lo hi of None \<Rightarrow> None | Some m \<Rightarrow> map_windows ds m))"

definition boot_devs :: "(u32 \<times> u32) list" where
  "boot_devs = [(0xE0700000, 0xE0800000), (0xFF040000, 0xFF050000), (0xFFF70000, 0xFFF80000)]"

fun load_aprs :: "u32 list \<Rightarrow> machine \<Rightarrow> machine" where
  "load_aprs [] m = m"
| "load_aprs (c # cs) m =
     (let tab = (if c = 0xFFF7F000 then CODE_SEGTAB else DATA_SEGTAB);
          m = wr32 m (c + CMMU_SAPR) (tab OR 1)
      in load_aprs cs (wr32 m (c + CMMU_UAPR) (DATA_SEGTAB OR 1)))"

definition dsplit_of :: "machine \<Rightarrow> u32" where
  "dsplit_of m = (if kdata_off (mmu m) \<noteq> 0 then kdata_va (mmu m) else 0xE0000000)"

definition boot_build_tables :: "machine \<Rightarrow> machine option" where
  "boot_build_tables m =
     (let m = m\<lparr>mem := mem_zero (mem m) CODE_SEGTAB 4096\<rparr>;
          m = m\<lparr>mem := mem_zero (mem m) DATA_SEGTAB 4096\<rparr>;
          koff = (if realmm (mem m) then KOFF else 0);
          dsplit = dsplit_of m
      in case map_both 0xC0000000 dsplit koff m of
           None \<Rightarrow> None
         | Some m \<Rightarrow>
             (case (if kdata_off (mmu m) \<noteq> 0 then map_both dsplit 0xE0000000 (kdata_off (mmu m)) m
                    else Some m) of
                None \<Rightarrow> None
              | Some m \<Rightarrow>
                  (case map_windows boot_devs m of
                     None \<Rightarrow> None
                   | Some m \<Rightarrow> Some (load_aprs (cmmu_present (dev m)) m))))"

section \<open>Words in table pages\<close>

text \<open>Entry \<open>i\<close> of the table at \<open>p\<close>, and the frame the table is in.\<close>

abbreviation entry :: "u32 \<Rightarrow> u32 \<Rightarrow> u32" where "entry p i \<equiv> p + i * 4"

definition frame :: "mem_state \<Rightarrow> u32 \<Rightarrow> u32" where
  "frame m p = page_no (cphys m p)"

lemma page_base:
  assumes "page_off p = 0"
  obtains q where "q < 1048576" "unat p = 4096 * q"
proof
  show "unat p div 4096 < 1048576" using page_bound[of p] by (simp add: unat_page_no)
  have "unat p mod 4096 = 0" using assms unat_page_off[of p] by simp
  then show "unat p = 4096 * (unat p div 4096)" by (metis mult_div_mod_eq add_0_right)
qed

lemma page_plus:
  assumes "page_off p = 0" "unat i < 4096"
  shows "unat (p + i) = unat p + unat i" "page_no (p + i) = page_no p" "page_off (p + i) = i"
proof -
  obtain q where q: "q < 1048576" "unat p = 4096 * q" by (rule page_base[OF assms(1)])
  then show s: "unat (p + i) = unat p + unat i" using assms(2) by (intro unat_add_small) simp
  show "page_no (p + i) = page_no p" "page_off (p + i) = i"
    using assms(2) q by (simp_all add: word_unat_eq_iff unat_page_no unat_page_off s)
qed

lemma entry_cell:
  assumes "page_off p = 0" "i \<le> 0x3FF"
  shows "page_no (entry p i) = page_no p" "page_off (entry p i) = i * 4" "word_aligned (entry p i)"
proof -
  have i: "unat i \<le> 1023" using assms(2) by (simp add: word_le_nat_alt)
  then have i4: "unat (i * 4) = unat i * 4" "unat (i * 4) < 4096" by (simp_all add: unat_word_ariths)
  note pp = page_plus[OF assms(1) i4(2)]
  show "page_no (entry p i) = page_no p" "page_off (entry p i) = i * 4" by (rule pp(2), rule pp(3))
  obtain q where "unat p = 4096 * q" by (rule page_base[OF assms(1)])
  then have "unat (entry p i) = 4 * (1024 * q + unat i)" by (simp add: pp(1) i4(1))
  then show "word_aligned (entry p i)" by (simp only: word_aligned_def mod_mult_self1_is_0)
qed

lemma index4_inj: "(i :: u32) \<le> 0x3FF \<Longrightarrow> j \<le> 0x3FF \<Longrightarrow> i * 4 = j * 4 \<longleftrightarrow> i = j"
  by (auto simp: word_unat_eq_iff word_le_nat_alt unat_word_ariths)

lemma entry_cphys:
  assumes "page_off p = 0" "page_off q = 0" "i \<le> 0x3FF" "j \<le> 0x3FF"
  shows "cphys m (entry p i) = cphys m (entry q j) \<longleftrightarrow> frame m p = frame m q \<and> i = j"
  using cphys_page[OF entry_cell(1)[OF assms(1,3)], of m] cphys_page[OF entry_cell(1)[OF assms(2,4)], of m]
    entry_cell(2)[OF assms(1,3)] entry_cell(2)[OF assms(2,4)] index4_inj[OF assms(3,4)]
  by (simp add: cphys_eq_iff frame_def)

lemma entry_wr:
  assumes "page_off p = 0" "page_off q = 0" "i \<le> 0x3FF" "j \<le> 0x3FF"
  shows "mem_r32 (mem_w32 m (entry p i) v) (entry q j) =
         (if frame m p = frame m q \<and> i = j then v else mem_r32 m (entry q j))"
  using rd32_wr32[OF entry_cell(3)[OF assms(1,3)] entry_cell(3)[OF assms(2,4)]] entry_cphys[OF assms]
  by simp

lemma frame_writes [simp]:
  "frame (mem_w32 m a v) = frame m" "frame (mem_zero m a n) = frame m"
  by (simp_all add: fun_eq_iff frame_def mem_zero_load)

lemma zero_page_r8:
  assumes "page_off p = 0"
  shows "mem_r8 (mem_zero m p 4096) b = (if frame m p = page_no (cphys m b) then 0 else mem_r8 m b)"
proof -
  have u: "unat (of_nat i :: u32) = i" if "i < 4096" for i using that by (intro unat_of_nat_small) simp
  have c: "page_no (cphys m (p + of_nat i)) = frame m p" "page_off (p + of_nat i) = of_nat i" if "i < 4096" for i
    using page_plus(2,3)[OF assms, of "of_nat i"] cphys_page[of "p + of_nat i" p m] that by (simp_all add: u frame_def)
  show ?thesis
  proof (cases "frame m p = page_no (cphys m b)")
    case True
    let ?i = "unat (page_off b)"
    have i: "?i < 4096" by (simp add: unat_page_off)
    have "cphys m (p + of_nat ?i) = cphys m b"
      unfolding cphys_eq_iff[of m "p + of_nat ?i" b] using c[OF i] True by simp
    then have "mem_r8 (mem_zero m p 4096) b = mem_r8 (mem_zero m p 4096) (p + of_nat ?i)"
      by (simp add: mem_r8_flat mem_zero_load)
    also have "\<dots> = replicate 4096 0 ! ?i"
      unfolding mem_zero_load using i by (intro mem_load_read_page) simp_all
    finally show ?thesis using True i by simp
  next
    case False
    then have "\<forall>i < 4096. cphys m (p + of_nat i) \<noteq> cphys m b" using c(1) by metis
    then show ?thesis using False by (simp add: mem_zero_load mem_load_other)
  qed
qed

lemma entry_zero:
  assumes "page_off p = 0" "page_off q = 0" "j \<le> 0x3FF"
  shows "mem_r32 (mem_zero m p 4096) (entry q j) = (if frame m p = frame m q then 0 else mem_r32 m (entry q j))"
proof -
  have "page_no (cphys m (entry q j + i)) = frame m q" if "unat i \<le> 3" for i
    using word_cell(1)[OF entry_cell(3)[OF assms(2,3)] that] cphys_page[OF entry_cell(1)[OF assms(2,3)]]
    by (simp add: frame_def)
  from this[of 0] this[of 1] this[of 2] this[of 3] show ?thesis
    by (simp add: mem_r32_bytes zero_page_r8[OF assms(1)] be32_def)
qed

section \<open>The tables in memory\<close>

definition segtabs :: "u32 set" where
  "segtabs = {CODE_SEGTAB, DATA_SEGTAB}"

text \<open>A page the loader uses: a segment table, or one of the pool's first 2048 pages.\<close>

definition table_page :: "u32 \<Rightarrow> bool" where
  "table_page p \<longleftrightarrow> page_off p = 0 \<and> (p \<in> segtabs \<or> 0xDF000000 \<le> p \<and> p < 0xDF800000)"

lemma segtab_page [simp]: "t \<in> segtabs \<Longrightarrow> table_page t" "t \<in> segtabs \<Longrightarrow> page_off t = 0"
  by (auto simp: table_page_def segtabs_def)

lemma cphys_table_page:
  assumes "table_page p"
  shows "cphys m p = (if p = DATA_SEGTAB \<and> realmm m then 0x3F0000 else p)"
  using assms
  by (auto simp: table_page_def segtabs_def word_unat_eq_iff unat_cphys word_le_nat_alt word_less_nat_alt)

lemma frame_inj:
  assumes "table_page p" "table_page q"
  shows "frame m p = frame m q \<longleftrightarrow> p = q"
proof
  assume "frame m p = frame m q"
  then have c: "cphys m p = cphys m q"
    using assms by (simp add: frame_def cphys_eq_iff table_page_def)
  have "0x3F0000 \<noteq> p" "0x3F0000 \<noteq> q"
    using assms by (auto simp: table_page_def segtabs_def)
  with c show "p = q"
    by (simp add: cphys_table_page[OF assms(1)] cphys_table_page[OF assms(2)] split: if_splits)
qed simp

lemma table_wr:
  assumes "table_page p" "table_page q" "i \<le> 0x3FF" "j \<le> 0x3FF"
  shows "mem_r32 (mem_w32 m (entry p i) v) (entry q j) =
         (if p = q \<and> i = j then v else mem_r32 m (entry q j))"
  using entry_wr[of p q i j m v] frame_inj[OF assms(1,2), of m] assms by (simp add: table_page_def)

lemma table_zero:
  assumes "table_page p" "table_page q" "j \<le> 0x3FF"
  shows "mem_r32 (mem_zero m p 4096) (entry q j) = (if p = q then 0 else mem_r32 m (entry q j))"
  using entry_zero[of p q j m] frame_inj[OF assms(1,2), of m] assms by (simp add: table_page_def)

lemma index_bounds [simp]: "seg_index va \<le> 0x3FF" "page_index va \<le> 0x3FF"
  by (simp_all add: seg_index_def page_index_def word_and_le1)

lemma indexes_page:
  "seg_index va = seg_index va' \<and> page_index va = page_index va' \<longleftrightarrow> page_no va = page_no va'"
proof
  have m: "bit (0x3FF :: u32) n \<longleftrightarrow> n < 10" for n
  proof -
    have "(0x3FF :: u32) = mask 10" by (simp add: mask_eq_exp_minus_1)
    show ?thesis unfolding \<open>0x3FF = mask 10\<close> by (auto simp: bit_mask_iff)
  qed
  assume e: "seg_index va = seg_index va' \<and> page_index va = page_index va'"
  show "page_no va = page_no va'"
  proof (rule bit_word_eqI)
    fix n assume "n < LENGTH(32)"
    have s: "bit (seg_index va) k = bit (seg_index va') k" "bit (page_index va) k = bit (page_index va') k" for k
      using e by simp_all
    show "bit (page_no va) n = bit (page_no va') n"
    proof (cases "n < 10")
      case True
      then show ?thesis using s(2)[of n]
        by (simp add: page_index_def bit_and_iff bit_drop_bit_eq m del: bit_numeral_word_iff)
    next
      case False
      then obtain k where k: "n = 10 + k" using le_Suc_ex not_less by blast
      show ?thesis
      proof (cases "k < 10")
        case True
        then show ?thesis using s(1)[of k] k
          by (simp add: seg_index_def bit_and_iff bit_drop_bit_eq m del: bit_numeral_word_iff)
      next
        case False
        then show ?thesis using k by (auto simp: bit_drop_bit_eq dest: bit_imp_le_length)
      qed
    qed
  qed
next
  assume "page_no va = page_no va'"
  then show "seg_index va = seg_index va' \<and> page_index va = page_index va'"
    using seg_page_index_page by blast
qed

definition seg_desc :: "mem_state \<Rightarrow> u32 \<Rightarrow> u32 \<Rightarrow> u32" where
  "seg_desc m t i = mem_r32 m (entry t i)"

text \<open>The segment descriptors in use, over both tables, and the page table each of them names.\<close>

definition slots :: "mem_state \<Rightarrow> (u32 \<times> u32) set" where
  "slots m = {(t, i). t \<in> segtabs \<and> i \<le> 0x3FF \<and> seg_desc m t i AND 1 \<noteq> 0}"

definition slot_table :: "mem_state \<Rightarrow> u32 \<times> u32 \<Rightarrow> u32" where
  "slot_table m x = seg_desc m (fst x) (snd x) AND 0xFFFFF000"

definition tables_ok :: "mem_state \<Rightarrow> u32 \<Rightarrow> bool" where
  "tables_ok m nxt \<longleftrightarrow>
     unat nxt = 0xDF000000 + 4096 * card (slots m) \<and> inj_on (slot_table m) (slots m) \<and>
     (\<forall>x\<in>slots m. 0xDF000000 \<le> slot_table m x \<and> slot_table m x < nxt)"

text \<open>The page descriptor the tables hold for an address, 0 where there is no page table.\<close>

definition page_desc :: "mem_state \<Rightarrow> u32 \<Rightarrow> u32 \<Rightarrow> u32" where
  "page_desc m t va =
     (if seg_desc m t (seg_index va) AND 1 = 0 then 0
      else mem_r32 m (entry (slot_table m (t, seg_index va)) (page_index va)))"

lemma card_index_pairs:
  "finite (segtabs \<times> {..0x3FF :: u32})" "card (segtabs \<times> {..0x3FF :: u32}) \<le> 2048"
proof -
  have sub: "{..0x3FF :: u32} \<subseteq> of_nat ` {..<1024}"
  proof
    fix i :: u32 assume "i \<in> {..0x3FF}"
    then have "unat i < 1024" by (simp add: word_le_nat_alt)
    then show "i \<in> of_nat ` {..<1024}" by (auto intro!: image_eqI[of _ _ "unat i"])
  qed
  have f: "finite {..0x3FF :: u32}" using finite_subset[OF sub] by simp
  have "card {..0x3FF :: u32} \<le> card ((of_nat :: nat \<Rightarrow> u32) ` {..<1024})"
    using sub by (intro card_mono) simp_all
  also have "\<dots> \<le> 1024" using card_image_le[of "{..<1024}" "of_nat :: nat \<Rightarrow> u32"] by simp
  finally have c: "card {..0x3FF :: u32} \<le> 1024" .
  show "finite (segtabs \<times> {..0x3FF :: u32})" using f by (simp add: segtabs_def)
  have "card segtabs = 2" by (simp add: segtabs_def)
  then show "card (segtabs \<times> {..0x3FF :: u32}) \<le> 2048" using c by (simp add: card_cartesian_product)
qed

lemma slots_subset: "slots m \<subseteq> segtabs \<times> {..0x3FF}"
  by (auto simp: slots_def)

lemma finite_slots [simp]: "finite (slots m)"
  using finite_subset[OF slots_subset card_index_pairs(1)] .

lemma card_slots: "card (slots m) \<le> 2048"
  using card_mono[OF card_index_pairs(1) slots_subset] card_index_pairs(2) le_trans by blast

lemma card_slots_free:
  assumes "t \<in> segtabs" "i \<le> 0x3FF" "(t, i) \<notin> slots m"
  shows "card (slots m) < 2048"
proof -
  have "insert (t, i) (slots m) \<subseteq> segtabs \<times> {..0x3FF}" using assms slots_subset by auto
  then have "card (insert (t, i) (slots m)) \<le> 2048"
    using card_mono[OF card_index_pairs(1)] card_index_pairs(2) le_trans by blast
  then show ?thesis using assms(3) by simp
qed

lemma page_off_frame [simp]: "page_off ((x :: u32) AND 0xFFFFF000) = 0"
proof (rule bit_word_eqI)
  fix n
  show "bit (page_off (x AND 0xFFFFF000)) n = bit (0 :: u32) n"
    by (auto simp: bit_and_iff bit_page_masks simp del: bit_numeral_word_iff)
qed

lemma tables_slot_page:
  assumes "tables_ok m nxt" "x \<in> slots m"
  shows "table_page (slot_table m x)" "slot_table m x \<notin> segtabs" "slot_table m x < nxt"
proof -
  have r: "0xDF000000 \<le> slot_table m x" "slot_table m x < nxt" using assms by (auto simp: tables_ok_def)
  have "unat nxt \<le> 0xDF800000" using assms(1) card_slots[of m] by (simp add: tables_ok_def)
  then have "slot_table m x < 0xDF800000" using r(2) by (simp add: word_less_nat_alt)
  moreover have "page_off (slot_table m x) = 0" by (simp only: slot_table_def page_off_frame)
  ultimately show "table_page (slot_table m x)" using r(1) by (simp add: table_page_def)
  show "slot_table m x \<notin> segtabs" using r(1) \<open>slot_table m x < 0xDF800000\<close>
    by (auto simp: segtabs_def)
  show "slot_table m x < nxt" by (rule r(2))
qed

lemma tables_next_page:
  assumes "tables_ok m nxt" "t \<in> segtabs" "i \<le> 0x3FF" "(t, i) \<notin> slots m"
  shows "table_page nxt" "nxt \<notin> segtabs" "0xDF000000 \<le> nxt" "unat (nxt + 4096) = unat nxt + 4096"
proof -
  have n: "unat nxt = 0xDF000000 + 4096 * card (slots m)" using assms(1) by (simp add: tables_ok_def)
  have c: "card (slots m) < 2048" by (rule card_slots_free[OF assms(2-4)])
  have "unat nxt mod 4096 = 0" unfolding n by simp
  then have o: "page_off nxt = 0" by (simp add: word_unat_eq_iff unat_page_off)
  have r: "0xDF000000 \<le> nxt" "nxt < 0xDF800000"
    using n c by (simp_all add: word_le_nat_alt word_less_nat_alt)
  with o show "table_page nxt" by (simp add: table_page_def)
  show "nxt \<notin> segtabs" "0xDF000000 \<le> nxt" using r by (auto simp: segtabs_def)
  show "unat (nxt + 4096) = unat nxt + 4096" using n c by (subst unat_add_small) simp_all
qed

text \<open>Writing a page descriptor of a page table in use.\<close>

lemma write_desc:
  fixes v :: u32
  assumes ok: "tables_ok m nxt" and x: "(t, seg_index va) \<in> slots m"
  defines "m' \<equiv> mem_w32 m (entry (slot_table m (t, seg_index va)) (page_index va)) v"
  shows "tables_ok m' nxt" "slots m' = slots m"
    and "t' \<in> segtabs \<Longrightarrow> page_desc m' t' va' = (if t' = t \<and> page_no va' = page_no va then v else page_desc m t' va')"
proof -
  note pg = tables_slot_page[OF ok x]
  have sd: "seg_desc m' t' i = seg_desc m t' i" if "t' \<in> segtabs" "i \<le> 0x3FF" for t' i
    using that pg(2) by (auto simp: seg_desc_def m'_def table_wr[OF pg(1)])
  have st: "slot_table m' y = slot_table m y" if "y \<in> slots m" for y
    using that sd by (auto simp: slots_def slot_table_def)
  show sl: "slots m' = slots m" using sd by (auto simp: slots_def)
  show "tables_ok m' nxt"
    using ok st unfolding tables_ok_def sl by (simp cong: inj_on_cong)
  assume t': "t' \<in> segtabs"
  let ?y = "(t', seg_index va')"
  show "page_desc m' t' va' = (if t' = t \<and> page_no va' = page_no va then v else page_desc m t' va')"
  proof (cases "?y \<in> slots m")
    case False
    then have "seg_desc m t' (seg_index va') AND 1 = 0" using t' by (simp add: slots_def)
    moreover have "\<not> (t' = t \<and> page_no va' = page_no va)"
      using False x seg_page_index_page(1)[of va' va] by metis
    ultimately show ?thesis using sd[OF t'] by (auto simp: page_desc_def)
  next
    case True
    then have v: "seg_desc m t' (seg_index va') AND 1 \<noteq> 0" by (simp add: slots_def)
    have inj: "slot_table m (t, seg_index va) = slot_table m ?y \<longleftrightarrow> t = t' \<and> seg_index va = seg_index va'"
      using ok x True by (auto simp: tables_ok_def dest: inj_onD)
    have "page_desc m' t' va' = mem_r32 m' (entry (slot_table m ?y) (page_index va'))"
      using v sd[OF t'] st[OF True] by (simp add: page_desc_def)
    also have "\<dots> = (if t = t' \<and> seg_index va = seg_index va' \<and> page_index va = page_index va' then v
        else mem_r32 m (entry (slot_table m ?y) (page_index va')))"
      unfolding m'_def using table_wr[OF pg(1) tables_slot_page(1)[OF ok True]] inj by simp
    also have "\<dots> = (if t' = t \<and> page_no va' = page_no va then v else page_desc m t' va')"
      using indexes_page[of va va'] v by (auto simp: page_desc_def)
    finally show ?thesis .
  qed
qed

text \<open>Taking a page from the pool for a segment that has none.\<close>

lemma alloc_table:
  assumes ok: "tables_ok m nxt" and t: "t \<in> segtabs" "i \<le> 0x3FF" and x: "(t, i) \<notin> slots m"
  defines "m' \<equiv> mem_w32 (mem_zero m nxt 4096) (entry t i) (nxt OR 1)"
  shows "tables_ok m' (nxt + 4096)" "(t, i) \<in> slots m'" "slot_table m' (t, i) = nxt"
    and "t' \<in> segtabs \<Longrightarrow> page_desc m' t' va = page_desc m t' va"
proof -
  note np = tables_next_page[OF ok t x]
  have sd: "seg_desc m' t' j = (if t' = t \<and> j = i then nxt OR 1 else seg_desc m t' j)"
    if "t' \<in> segtabs" "j \<le> 0x3FF" for t' j
    using that t np(1,2) by (auto simp: seg_desc_def m'_def table_wr table_zero)
  have o: "page_off nxt = 0" using np(1) by (simp add: table_page_def)
  have n1: "(nxt OR 1) AND 1 = 1" "(nxt OR 1) AND 0xFFFFF000 = nxt"
    using frame_masks(3,4)[of nxt] frame_masks(6)[OF o] by (simp_all only:)
  have sl: "slots m' = insert (t, i) (slots m)"
    using sd t n1(1) by (auto simp: slots_def split: if_splits)
  show "(t, i) \<in> slots m'" by (simp add: sl)
  show new: "slot_table m' (t, i) = nxt" by (simp only: slot_table_def fst_conv snd_conv sd[OF t] n1(2) refl conj_absorb if_True)
  have st: "slot_table m' y = slot_table m y" if "y \<in> slots m" for y
    using that x sd by (auto simp: slots_def slot_table_def)
  have lt: "nxt < nxt + 4096" using np(4) by (simp add: word_less_nat_alt)
  have fresh: "slot_table m y \<noteq> nxt" if "y \<in> slots m" for y
    using tables_slot_page(3)[OF ok that] by simp
  show "tables_ok m' (nxt + 4096)"
    unfolding tables_ok_def sl
  proof (intro conjI)
    show "unat (nxt + 4096) = 0xDF000000 + 4096 * card (insert (t, i) (slots m))"
      using ok x np(4) by (simp add: tables_ok_def)
    have "inj_on (slot_table m') (slots m)" using ok st by (simp add: tables_ok_def cong: inj_on_cong)
    moreover have "nxt \<notin> slot_table m' ` (slots m - {(t, i)})" using st fresh by force
    ultimately show "inj_on (slot_table m') (insert (t, i) (slots m))"
      by (simp only: inj_on_insert new) simp
    show "\<forall>y\<in>insert (t, i) (slots m). 0xDF000000 \<le> slot_table m' y \<and> slot_table m' y < nxt + 4096"
      using ok st new np(3) lt by (auto simp: tables_ok_def intro: less_trans)
  qed
  assume t': "t' \<in> segtabs"
  let ?y = "(t', seg_index va)"
  show "page_desc m' t' va = page_desc m t' va"
  proof (cases "?y \<in> slots m")
    case True
    then have v: "seg_desc m t' (seg_index va) AND 1 \<noteq> 0" "?y \<noteq> (t, i)" using x by (auto simp: slots_def)
    note yp = tables_slot_page[OF ok True]
    have "mem_r32 m' (entry (slot_table m ?y) (page_index va)) = mem_r32 m (entry (slot_table m ?y) (page_index va))"
      unfolding m'_def using t yp np(1) fresh[OF True]
      by (auto simp: table_wr table_zero)
    then show ?thesis using v st[OF True] sd[OF t'] by (auto simp: page_desc_def)
  next
    case False
    then have v: "seg_desc m t' (seg_index va) AND 1 = 0" using t' by (simp add: slots_def)
    show ?thesis
    proof (cases "?y = (t, i)")
      case True
      have "mem_r32 m' (entry nxt (page_index va)) = 0"
        unfolding m'_def using t np(1,2) by (auto simp: table_wr table_zero)
      then show ?thesis using v True new by (auto simp: page_desc_def)
    next
      case False
      then show ?thesis using v sd[OF t'] by (auto simp: page_desc_def)
    qed
  qed
qed

section \<open>Mapping a range\<close>

abbreviation boot_ok :: "machine \<Rightarrow> bool" where
  "boot_ok m \<equiv> tables_ok (mem m) (ptpool_next (mmu m))"

text \<open>Nothing but memory and the pool pointer changes.\<close>

definition boot_frame :: "machine \<Rightarrow> machine \<Rightarrow> bool" where
  "boot_frame m m' \<longleftrightarrow>
     cpu m' = cpu m \<and> dev m' = dev m \<and> cfg m' = cfg m \<and> sysmode m' = sysmode m \<and>
     in_kcall m' = in_kcall m \<and> trap_taken m' = trap_taken m \<and> trap_vector m' = trap_vector m \<and>
     trap_pc m' = trap_pc m \<and> realmm (mem m') = realmm (mem m) \<and>
     (mmu m')\<lparr>ptpool_next := 0\<rparr> = (mmu m)\<lparr>ptpool_next := 0\<rparr>"

lemma boot_frame_refl [simp]: "boot_frame m m"
  by (simp add: boot_frame_def)

lemma boot_frame_trans: "boot_frame m m' \<Longrightarrow> boot_frame m' m'' \<Longrightarrow> boot_frame m m''"
  by (simp add: boot_frame_def)

lemma boot_frame_mmu:
  assumes "boot_frame m m'"
  shows "kdata_off (mmu m') = kdata_off (mmu m)" "kdata_va (mmu m') = kdata_va (mmu m)"
    "ktab_bias (mmu m') = ktab_bias (mmu m)" "dsplit_of m' = dsplit_of m"
proof -
  have e: "(mmu m')\<lparr>ptpool_next := 0\<rparr> = (mmu m)\<lparr>ptpool_next := 0\<rparr>" using assms by (simp add: boot_frame_def)
  show "kdata_off (mmu m') = kdata_off (mmu m)" "kdata_va (mmu m') = kdata_va (mmu m)"
    "ktab_bias (mmu m') = ktab_bias (mmu m)"
    using arg_cong[OF e, of kdata_off] arg_cong[OF e, of kdata_va] arg_cong[OF e, of ktab_bias] by simp_all
  then show "dsplit_of m' = dsplit_of m" by (simp add: dsplit_of_def)
qed

lemma map_page_valid:
  assumes "(t, seg_index va) \<in> slots (mem m)"
  shows "map_page m t va off =
    wr32 m (entry (slot_table (mem m) (t, seg_index va)) (page_index va)) (((va - off) AND 0xFFFFF000) OR 1)"
  using assms
  by (simp add: map_page_def Let_def slots_def slot_table_def seg_desc_def seg_index_def page_index_def)

lemma map_page_alloc:
  assumes "t \<in> segtabs" "(t, seg_index va) \<notin> slots (mem m)"
  defines "m1 \<equiv> set_ptpool (ptpool_next (mmu m) + 4096)
      (m\<lparr>mem := mem_w32 (mem_zero (mem m) (ptpool_next (mmu m)) 4096) (entry t (seg_index va)) (ptpool_next (mmu m) OR 1)\<rparr>)"
  shows "map_page m t va off =
    wr32 m1 (entry (ptpool_next (mmu m)) (page_index va)) (((va - off) AND 0xFFFFF000) OR 1)"
proof -
  have "rd32 m (entry t (seg_index va)) AND 1 = 0" using assms(1,2) by (simp add: slots_def seg_desc_def)
  then show ?thesis
    by (simp add: map_page_def Let_def seg_index_def page_index_def set_ptpool_def m1_def)
qed

lemma map_page_spec:
  fixes va off :: u32
  assumes ok: "boot_ok m" and t: "t \<in> segtabs"
  defines "m' \<equiv> map_page m t va off"
  shows "boot_ok m'" "boot_frame m m'"
    and "t' \<in> segtabs \<Longrightarrow> page_desc (mem m') t' va' =
      (if t' = t \<and> page_no va' = page_no va then ((va - off) AND 0xFFFFF000) OR 1 else page_desc (mem m) t' va')"
proof -
  have "boot_ok m' \<and> boot_frame m m' \<and> (t' \<in> segtabs \<longrightarrow> page_desc (mem m') t' va' =
      (if t' = t \<and> page_no va' = page_no va then ((va - off) AND 0xFFFFF000) OR 1 else page_desc (mem m) t' va'))"
  proof (cases "(t, seg_index va) \<in> slots (mem m)")
    case True
    note w = write_desc[OF ok True, where v = "((va - off) AND 0xFFFFF000) OR 1"]
    show ?thesis using w by (simp add: m'_def map_page_valid[OF True] boot_frame_def)
  next
    case False
    note a = alloc_table[OF ok t index_bounds(1) False]
    note w = write_desc[OF a(1,2), where v = "((va - off) AND 0xFFFFF000) OR 1", unfolded a(3)]
    show ?thesis
      using w a(4) by (simp add: m'_def map_page_alloc[OF t False] set_ptpool_def boot_frame_def)
  qed
  then show "boot_ok m'" "boot_frame m m'"
    "t' \<in> segtabs \<Longrightarrow> page_desc (mem m') t' va' =
      (if t' = t \<and> page_no va' = page_no va then ((va - off) AND 0xFFFFF000) OR 1 else page_desc (mem m) t' va')"
    by auto
qed

text \<open>The descriptor \<open>map_range_off\<close> stores for the page of \<open>a\<close>.\<close>

definition desc_of :: "u32 \<Rightarrow> u32 \<Rightarrow> u32" where
  "desc_of off a = (((a AND 0xFFFFF000) - off) AND 0xFFFFF000) OR 1"

lemma page_base_eq: "page_off va = 0 \<Longrightarrow> page_no a = page_no va \<Longrightarrow> a AND 0xFFFFF000 = va"
  using page_base_shift(1)[of a] page_base_shift(1)[of va] frame_masks(6)[of va] by simp

lemma next_page_range:
  assumes "page_off va = 0" "unat va + 4096 < 4294967296"
  shows "unat (va + 4096) = unat va + 4096" "page_off (va + 4096) = 0"
    and "va \<le> a \<longleftrightarrow> page_no a = page_no va \<or> va + 4096 \<le> a"
    and "page_no a = page_no va \<Longrightarrow> \<not> va + 4096 \<le> a"
proof -
  show s: "unat (va + 4096) = unat va + 4096" using assms(2) by (subst unat_add_small) simp_all
  obtain q where q: "q < 1048576" "unat va = 4096 * q" by (rule page_base[OF assms(1)])
  show "page_off (va + 4096) = 0" by (simp add: word_unat_eq_iff unat_page_off s q)
  have d: "page_no a = page_no va \<longleftrightarrow> unat a div 4096 = q"
    using q by (simp add: word_unat_eq_iff unat_page_no)
  have "4096 * q \<le> x \<longleftrightarrow> x div 4096 = q \<or> 4096 * q + 4096 \<le> x" for x :: nat by linarith
  then show "va \<le> a \<longleftrightarrow> page_no a = page_no va \<or> va + 4096 \<le> a"
    unfolding d word_le_nat_alt s q(2) .
  have "x div 4096 = q \<Longrightarrow> \<not> 4096 * q + 4096 \<le> x" for x :: nat by linarith
  then show "page_no a = page_no va \<Longrightarrow> \<not> va + 4096 \<le> a"
    unfolding d word_le_nat_alt s q(2) .
qed

text \<open>The loop ends on every range that stops short of the last page, and maps that range.\<close>

lemma map_range_off_spec:
  assumes t: "t \<in> segtabs" and hi: "page_off hi = 0" "hi \<le> 0xFFFFF000"
  shows "\<lbrakk>boot_ok m; page_off va = 0\<rbrakk> \<Longrightarrow> \<exists>m'. map_range_off m t va hi off = Some m' \<and> boot_ok m' \<and> boot_frame m m' \<and>
     (\<forall>t'\<in>segtabs. \<forall>a. page_desc (mem m') t' a =
        (if t' = t \<and> va \<le> a \<and> a < hi then desc_of off a else page_desc (mem m) t' a))"
proof (induction "unat hi + 4096 - unat va" arbitrary: m va rule: less_induct)
  case less
  show ?case
  proof (cases "va < hi")
    case False
    then show ?thesis using less.prems by (subst map_range_off.simps) auto
  next
    case True
    let ?m1 = "map_page m t va off"
    have lt: "unat va + 4096 < 4294967296"
      using True hi(2) by (simp add: word_less_nat_alt word_le_nat_alt)
    note n = next_page_range[OF less.prems(2) lt]
    note p = map_page_spec[OF less.prems(1) t, where va = va and off = off]
    have "unat va < unat hi" using True by (simp add: word_less_nat_alt)
    then have d: "unat hi + 4096 - unat (va + 4096) < unat hi + 4096 - unat va" unfolding n(1) by simp
    obtain m' where m': "map_range_off ?m1 t (va + 4096) hi off = Some m'" "boot_ok m'" "boot_frame ?m1 m'"
      and pd: "\<And>t' a. t' \<in> segtabs \<Longrightarrow> page_desc (mem m') t' a =
        (if t' = t \<and> va + 4096 \<le> a \<and> a < hi then desc_of off a else page_desc (mem ?m1) t' a)"
      using less.hyps[OF d p(1) n(2)] by blast
    have "page_desc (mem m') t' a = (if t' = t \<and> va \<le> a \<and> a < hi then desc_of off a else page_desc (mem m) t' a)"
      if t': "t' \<in> segtabs" for t' a
    proof (cases "page_no a = page_no va")
      case True
      then have "a < hi" using va_less_page[OF True hi(1)] \<open>va < hi\<close> by simp
      then show ?thesis
        using pd[OF t'] p(3)[OF t'] n(3,4) True page_base_eq[OF less.prems(2) True]
        by (simp add: desc_of_def)
    next
      case False
      then show ?thesis using pd[OF t'] p(3)[OF t'] n(3) by simp
    qed
    then show ?thesis
      using m' True boot_frame_trans[OF p(2) m'(3)] by (subst map_range_off.simps) auto
  qed
qed

definition in_range :: "u32 \<Rightarrow> u32 \<Rightarrow> u32 \<Rightarrow> bool" where
  "in_range lo hi a \<longleftrightarrow> lo \<le> a \<and> a < hi"

lemma map_both_spec:
  assumes "boot_ok m" "page_off lo = 0" "page_off hi = 0" "hi \<le> 0xFFFFF000"
  shows "\<exists>m'. map_both lo hi off m = Some m' \<and> boot_ok m' \<and> boot_frame m m' \<and>
     (\<forall>t\<in>segtabs. \<forall>a. page_desc (mem m') t a =
        (if in_range lo hi a then desc_of off a else page_desc (mem m) t a))"
proof -
  have t: "CODE_SEGTAB \<in> segtabs" "DATA_SEGTAB \<in> segtabs" by (simp_all add: segtabs_def)
  obtain m1 where m1: "map_range_off m CODE_SEGTAB lo hi off = Some m1" "boot_ok m1" "boot_frame m m1"
    "\<forall>t'\<in>segtabs. \<forall>a. page_desc (mem m1) t' a =
        (if t' = CODE_SEGTAB \<and> lo \<le> a \<and> a < hi then desc_of off a else page_desc (mem m) t' a)"
    using map_range_off_spec[OF t(1) assms(3,4,1,2)] by blast
  obtain m2 where m2: "map_range_off m1 DATA_SEGTAB lo hi off = Some m2" "boot_ok m2" "boot_frame m1 m2"
    "\<forall>t'\<in>segtabs. \<forall>a. page_desc (mem m2) t' a =
        (if t' = DATA_SEGTAB \<and> lo \<le> a \<and> a < hi then desc_of off a else page_desc (mem m1) t' a)"
    using map_range_off_spec[OF t(2) assms(3,4) m1(2) assms(2)] by blast
  have "\<forall>t\<in>segtabs. \<forall>a. page_desc (mem m2) t a =
        (if in_range lo hi a then desc_of off a else page_desc (mem m) t a)"
    using m1(4) m2(4) by (auto simp: segtabs_def in_range_def)
  then show ?thesis using m1 m2 boot_frame_trans[OF m1(3) m2(3)] by (simp add: map_both_def)
qed

lemma map_range_both: "map_windows ((lo, hi) # ds) m = (case map_both lo hi 0 m of None \<Rightarrow> None | Some m \<Rightarrow> map_windows ds m)"
  by (simp add: map_range_def map_both_def split: option.split)

lemma map_windows_spec:
  assumes "\<forall>(lo, hi)\<in>set ds. page_off lo = 0 \<and> page_off hi = 0 \<and> hi \<le> 0xFFFFF000" "boot_ok m"
  shows "\<exists>m'. map_windows ds m = Some m' \<and> boot_ok m' \<and> boot_frame m m' \<and>
     (\<forall>t\<in>segtabs. \<forall>a. page_desc (mem m') t a =
        (if \<exists>(lo, hi)\<in>set ds. in_range lo hi a then desc_of 0 a else page_desc (mem m) t a))"
  using assms
proof (induction ds arbitrary: m)
  case (Cons d ds)
  obtain lo hi where d: "d = (lo, hi)" by (cases d)
  with Cons.prems(1) have "page_off lo = 0" "page_off hi = 0" "hi \<le> 0xFFFFF000" by auto
  then obtain m1 where m1: "map_both lo hi 0 m = Some m1" "boot_ok m1" "boot_frame m m1"
    "\<forall>t\<in>segtabs. \<forall>a. page_desc (mem m1) t a = (if in_range lo hi a then desc_of 0 a else page_desc (mem m) t a)"
    using map_both_spec[OF Cons.prems(2)] by blast
  obtain m2 where m2: "map_windows ds m1 = Some m2" "boot_ok m2" "boot_frame m1 m2"
    "\<forall>t\<in>segtabs. \<forall>a. page_desc (mem m2) t a =
        (if \<exists>(lo, hi)\<in>set ds. in_range lo hi a then desc_of 0 a else page_desc (mem m1) t a)"
    using Cons.IH[OF _ m1(2)] Cons.prems(1) by auto
  show ?case
    using m1 m2 boot_frame_trans[OF m1(3) m2(3)] by (auto simp: d map_range_both simp del: map_windows.simps(2))
qed simp

text \<open>The area pointers are written outside the tables.\<close>

lemma far_from_tables:
  assumes "table_page p" "i \<le> 0x3FF" "word_aligned a" "0xFFF00000 \<le> a"
  shows "mem_r32 (mem_w32 m a v) (entry p i) = mem_r32 m (entry p i)"
proof -
  have c: "cphys m a = a" using assms(4) by (simp add: word_unat_eq_iff unat_cphys word_le_nat_alt)
  have o: "page_off p = 0" using assms(1) by (simp add: table_page_def)
  have "cphys m (entry p i) \<noteq> a"
  proof
    assume e: "cphys m (entry p i) = a"
    have "page_no (cphys m (entry p i)) = page_no (cphys m p)" by (rule cphys_page[OF entry_cell(1)[OF o assms(2)]])
    also have "cphys m p < 0xE0791000"
      using assms(1) by (auto simp: cphys_table_page[OF assms(1)] table_page_def segtabs_def word_less_nat_alt)
    then have "unat (page_no (cphys m p)) < 0xE0791"
      by (simp add: unat_page_no word_less_nat_alt less_mult_imp_div_less)
    finally have "unat (page_no a) < 0xE0791" using e by simp
    moreover have "0xFFF00 \<le> unat (page_no a)"
      using assms(4) div_le_mono[of "0xFFF00000" "unat a" 4096] by (simp add: unat_page_no word_le_nat_alt)
    ultimately show False by simp
  qed
  then show ?thesis using rd32_wr32[OF assms(3) entry_cell(3)[OF o assms(2)]] c by simp
qed

definition cmmu_page :: "u32 \<Rightarrow> bool" where
  "cmmu_page c \<longleftrightarrow> page_off c = 0 \<and> 0xFFF00000 \<le> c"

lemma cmmu_apr_addr:
  assumes "cmmu_page c" "r = 0x200 \<or> r = 0x204"
  shows "word_aligned (c + r)" "0xFFF00000 \<le> c + r"
proof -
  have c: "page_off c = 0" using assms(1) by (simp add: cmmu_page_def)
  have "unat r = 512 \<or> unat r = 516" using assms(2) by auto
  then have s: "unat (c + r) = unat c + unat r" "unat r mod 4 = 0"
    using page_plus(1)[OF c, of r] by auto
  obtain q where q: "unat c = 4096 * q" by (rule page_base[OF c])
  then have "unat c mod 4 = 0" by (simp add: mult.assoc[of 4 1024 q, simplified])
  then show "word_aligned (c + r)" using s by (simp add: word_aligned_def mod_add_eq[symmetric])
  show "0xFFF00000 \<le> c + r" using assms(1) s(1) by (simp add: cmmu_page_def word_le_nat_alt)
qed

definition same_tables :: "mem_state \<Rightarrow> mem_state \<Rightarrow> bool" where
  "same_tables m m' \<longleftrightarrow> (\<forall>p i. table_page p \<longrightarrow> i \<le> 0x3FF \<longrightarrow> mem_r32 m' (entry p i) = mem_r32 m (entry p i))"

lemma load_aprs_tables:
  assumes "\<forall>c\<in>set cs. cmmu_page c"
  shows "same_tables (mem m) (mem (load_aprs cs m)) \<and> boot_frame m (load_aprs cs m)"
  using assms
proof (induction cs arbitrary: m)
  case (Cons c cs)
  have "cmmu_page c" using Cons.prems by simp
  note a = cmmu_apr_addr[OF this, of "0x200"] cmmu_apr_addr[OF this, of "0x204"]
  show ?case using Cons.IH Cons.prems far_from_tables a
    by (simp add: same_tables_def boot_frame_def Let_def)
qed (simp add: same_tables_def)

section \<open>What the walk finds\<close>

lemma same_tables_desc:
  assumes "same_tables m m'" "tables_ok m nxt" "t \<in> segtabs"
  shows "page_desc m' t a = page_desc m t a"
proof -
  have sd: "seg_desc m' t i = seg_desc m t i" if "i \<le> 0x3FF" for i
    using assms(1,3) that by (simp add: same_tables_def seg_desc_def)
  show ?thesis
  proof (cases "(t, seg_index a) \<in> slots m")
    case True
    then show ?thesis
      using assms(1) tables_slot_page(1)[OF assms(2) True] sd
      by (simp add: same_tables_def page_desc_def slot_table_def)
  next
    case False
    then show ?thesis using sd assms(3) by (simp add: page_desc_def slots_def)
  qed
qed

lemma mmu_lookup_desc:
  assumes "t \<in> segtabs" "0xC0000000 \<le> a"
  shows "mmu_lookup m (t OR 1) a =
    (let pd = page_desc (mem m) t a in
     if pd AND 1 = 0 then None else Some ((pd AND 0xFFFFF000) OR (a AND 0xFFF), pd))"
proof -
  have "(t OR 1) AND 0xFFFFF000 = t" "t \<noteq> 0" using assms(1) by (auto simp: segtabs_def)
  moreover have "\<not> a < 0xC0000000" using assms(2) by simp
  ultimately show ?thesis
    by (auto simp: mmu_lookup_def tab_r32_def page_desc_def seg_desc_def slot_table_def Let_def)
qed

lemma page_off_int: "page_off (x :: u32) = 0 \<longleftrightarrow> 4096 dvd uint x"
proof -
  have "page_off x = 0 \<longleftrightarrow> unat x mod 4096 = 0" by (simp add: word_unat_eq_iff unat_page_off)
  also have "\<dots> \<longleftrightarrow> 4096 dvd int (unat x)" by (metis int_dvd_int_iff mod_eq_0_iff_dvd of_nat_numeral)
  finally show ?thesis by simp
qed

lemma page_off_diff:
  assumes "page_off (x :: u32) = 0" "page_off y = 0"
  shows "page_off (x - y) = 0"
proof -
  have "4096 dvd (uint x - uint y) mod 2 ^ 32"
    using assms by (intro dvd_mod dvd_diff) (simp_all add: page_off_int)
  then show ?thesis by (simp add: page_off_int uint_word_ariths(2))
qed

lemma desc_of_walk:
  assumes "page_off off = 0"
  shows "(desc_of off a AND 0xFFFFF000) OR (a AND 0xFFF) = a - off"
    and "desc_of off a AND 1 = 1" and "desc_of off a = ((a - off) AND 0xFFFFF000) OR 1"
proof -
  let ?b = "(a AND 0xFFFFF000) - off" and ?o = "page_off a"
  have b: "page_off ?b = 0" using assms by (intro page_off_diff) simp_all
  have "unat ?o < 4096" by (simp add: unat_page_off)
  note p = page_plus[OF b this]
  have ao: "(a AND 0xFFFFF000) + ?o = a"
    unfolding page_base_shift(1) page_off_take_bit by (rule bits_ident)
  have d: "a - off = ?b + ?o"
  proof -
    have "?b + ?o = ((a AND 0xFFFFF000) + ?o) - off" by (simp only: diff_add_eq)
    then show ?thesis unfolding ao ..
  qed
  have f: "(a - off) AND 0xFFFFF000 = ?b" unfolding d by (rule page_base_eq[OF b p(2)])
  have bb: "?b AND 0xFFFFF000 = ?b" by (rule page_base_eq[OF b refl])
  show s: "desc_of off a = ((a - off) AND 0xFFFFF000) OR 1" unfolding desc_of_def f bb ..
  have "((a - off) AND 0xFFFFF000) OR ?o = a - off"
    using page_base_or_off(1)[of "a - off"] unfolding d p(3) .
  then show "(desc_of off a AND 0xFFFFF000) OR (a AND 0xFFF) = a - off"
    unfolding s frame_masks(3) .
  show "desc_of off a AND 1 = 1" unfolding s by (rule frame_masks(4))
qed

text \<open>The map the loader means to make, over the addresses of the upper quarter.\<close>

definition boot_map :: "machine \<Rightarrow> u32 \<Rightarrow> u32 option" where
  "boot_map m a =
     (if \<exists>(lo, hi)\<in>set boot_devs. in_range lo hi a then Some a
      else if kdata_off (mmu m) \<noteq> 0 \<and> in_range (kdata_va (mmu m)) 0xE0000000 a then Some (a - kdata_off (mmu m))
      else if in_range 0xC0000000 (dsplit_of m) a then Some (a - (if realmm (mem m) then KOFF else 0))
      else None)"

definition boot_ready :: "machine \<Rightarrow> bool" where
  "boot_ready m \<longleftrightarrow> ptpool_next (mmu m) = PTPOOL \<and> (\<forall>c\<in>set (cmmu_present (dev m)). cmmu_page c) \<and>
     page_off (kdata_off (mmu m)) = 0 \<and> page_off (kdata_va (mmu m)) = 0 \<and> kdata_va (mmu m) \<le> 0xFFFFF000"

lemma clear_tables:
  assumes "ptpool_next (mmu m) = PTPOOL"
  defines "m' \<equiv> m\<lparr>mem := mem_zero (mem_zero (mem m) CODE_SEGTAB 4096) DATA_SEGTAB 4096\<rparr>"
  shows "boot_ok m'" "t \<in> segtabs \<Longrightarrow> page_desc (mem m') t a = 0" "boot_frame m m'"
proof -
  have t: "CODE_SEGTAB \<in> segtabs" "DATA_SEGTAB \<in> segtabs" by (simp_all add: segtabs_def)
  have sd: "seg_desc (mem m') t i = 0" if "t \<in> segtabs" "i \<le> 0x3FF" for t i
    using that t unfolding seg_desc_def m'_def
    by (auto simp: table_zero) (auto simp: segtabs_def)
  have "slots (mem m') = {}" using sd by (auto simp: slots_def)
  then show "boot_ok m'" using assms by (simp add: tables_ok_def m'_def)
  show "t \<in> segtabs \<Longrightarrow> page_desc (mem m') t a = 0" using sd by (simp add: page_desc_def)
  show "boot_frame m m'" by (simp add: boot_frame_def m'_def)
qed

text \<open>The mappings of the two kernel ranges, made in this order.\<close>

lemma kernel_ranges:
  assumes ok: "boot_ok m" and r: "page_off (kdata_va (mmu m)) = 0" "kdata_va (mmu m) \<le> 0xFFFFF000"
  shows "\<exists>m1 m2. map_both 0xC0000000 (dsplit_of m) koff m = Some m1 \<and>
    (if kdata_off (mmu m1) \<noteq> 0 then map_both (dsplit_of m) 0xE0000000 (kdata_off (mmu m1)) m1 else Some m1) = Some m2 \<and>
    boot_ok m2 \<and> boot_frame m m2 \<and>
    (\<forall>t\<in>segtabs. \<forall>a. page_desc (mem m2) t a =
       (if kdata_off (mmu m) \<noteq> 0 \<and> in_range (kdata_va (mmu m)) 0xE0000000 a then desc_of (kdata_off (mmu m)) a
        else if in_range 0xC0000000 (dsplit_of m) a then desc_of koff a else page_desc (mem m) t a))"
proof -
  have d: "page_off (dsplit_of m) = 0" "dsplit_of m \<le> 0xFFFFF000" using r by (simp_all add: dsplit_of_def)
  obtain m1 where m1: "map_both 0xC0000000 (dsplit_of m) koff m = Some m1" "boot_ok m1" "boot_frame m m1"
    "\<forall>t\<in>segtabs. \<forall>a. page_desc (mem m1) t a =
        (if in_range 0xC0000000 (dsplit_of m) a then desc_of koff a else page_desc (mem m) t a)"
    using map_both_spec[OF ok _ d, of "0xC0000000" koff] by auto
  note k = boot_frame_mmu(1,2)[OF m1(3)]
  show ?thesis
  proof (cases "kdata_off (mmu m) = 0")
    case True
    then show ?thesis using m1 k by auto
  next
    case False
    then have ds: "dsplit_of m = kdata_va (mmu m)" by (simp add: dsplit_of_def)
    obtain m2 where m2: "map_both (dsplit_of m) 0xE0000000 (kdata_off (mmu m)) m1 = Some m2" "boot_ok m2"
      "boot_frame m1 m2" "\<forall>t\<in>segtabs. \<forall>a. page_desc (mem m2) t a =
        (if in_range (dsplit_of m) 0xE0000000 a then desc_of (kdata_off (mmu m)) a else page_desc (mem m1) t a)"
      using map_both_spec[OF m1(2) d(1), of "0xE0000000" "kdata_off (mmu m)"] by auto
    then show ?thesis using m1 k False boot_frame_trans[OF m1(3) m2(3)] by (auto simp: ds)
  qed
qed

lemma boot_build_tables_desc:
  assumes "boot_ready m"
  shows "\<exists>m'. boot_build_tables m = Some m' \<and> boot_frame m m' \<and>
    (\<forall>t\<in>segtabs. \<forall>a. page_desc (mem m') t a =
       (if \<exists>(lo, hi)\<in>set boot_devs. in_range lo hi a then desc_of 0 a
        else if kdata_off (mmu m) \<noteq> 0 \<and> in_range (kdata_va (mmu m)) 0xE0000000 a then desc_of (kdata_off (mmu m)) a
        else if in_range 0xC0000000 (dsplit_of m) a then desc_of (if realmm (mem m) then KOFF else 0) a else 0))"
proof -
  let ?m0 = "m\<lparr>mem := mem_zero (mem_zero (mem m) CODE_SEGTAB 4096) DATA_SEGTAB 4096\<rparr>"
  let ?koff = "if realmm (mem m) then KOFF else 0"
  have "ptpool_next (mmu m) = PTPOOL" using assms by (simp add: boot_ready_def)
  note c = clear_tables[OF this]
  have r: "page_off (kdata_va (mmu ?m0)) = 0" "kdata_va (mmu ?m0) \<le> 0xFFFFF000"
    using assms by (simp_all add: boot_ready_def)
  have ds: "dsplit_of ?m0 = dsplit_of m" by (simp add: dsplit_of_def)
  obtain m1 m2 where k: "map_both 0xC0000000 (dsplit_of m) ?koff ?m0 = Some m1"
    "(if kdata_off (mmu m1) \<noteq> 0 then map_both (dsplit_of m) 0xE0000000 (kdata_off (mmu m1)) m1 else Some m1) = Some m2"
    "boot_ok m2" "boot_frame ?m0 m2"
    and kd: "\<And>t a. t \<in> segtabs \<Longrightarrow> page_desc (mem m2) t a =
       (if kdata_off (mmu m) \<noteq> 0 \<and> in_range (kdata_va (mmu m)) 0xE0000000 a then desc_of (kdata_off (mmu m)) a
        else if in_range 0xC0000000 (dsplit_of m) a then desc_of ?koff a else page_desc (mem ?m0) t a)"
    using kernel_ranges[OF c(1) r, of ?koff, unfolded ds] by auto
  have "\<forall>(lo, hi)\<in>set boot_devs. page_off lo = 0 \<and> page_off hi = 0 \<and> hi \<le> 0xFFFFF000"
    by (simp add: boot_devs_def)
  then obtain m3 where w: "map_windows boot_devs m2 = Some m3" "boot_ok m3" "boot_frame m2 m3"
    "\<forall>t\<in>segtabs. \<forall>a. page_desc (mem m3) t a =
        (if \<exists>(lo, hi)\<in>set boot_devs. in_range lo hi a then desc_of 0 a else page_desc (mem m2) t a)"
    using map_windows_spec[OF _ k(3)] by blast
  have f: "boot_frame m m3" using boot_frame_trans[OF c(3) boot_frame_trans[OF k(4) w(3)]] .
  then have "dev m3 = dev m" by (simp add: boot_frame_def)
  then have ap: "\<forall>c\<in>set (cmmu_present (dev m3)). cmmu_page c" using assms by (simp add: boot_ready_def)
  note l = load_aprs_tables[OF ap, of m3]
  have "boot_build_tables m = Some (load_aprs (cmmu_present (dev m3)) m3)"
    using k(1,2) w(1) by (cases "kdata_off (mmu m1) = 0") (simp_all add: boot_build_tables_def Let_def ds)
  moreover have "boot_frame m (load_aprs (cmmu_present (dev m3)) m3)" using boot_frame_trans[OF f] l by blast
  ultimately show ?thesis
    using l w(4) kd c(2) same_tables_desc[OF _ w(2)] by (intro exI[of _ "load_aprs (cmmu_present (dev m3)) m3"]) auto
qed

section \<open>The free list\<close>

text \<open>Entry \<open>i\<close> of the free list and the value stored in it.\<close>

definition fl_slot :: "machine \<Rightarrow> u32 \<Rightarrow> nat \<Rightarrow> u32" where
  "fl_slot m head i = head + of_nat i * fl_stride (cfg m)"

definition fl_next :: "machine \<Rightarrow> u32 \<Rightarrow> nat \<Rightarrow> u32" where
  "fl_next m head i = (if i + 1 < 0x60 then fl_slot m head (i + 1) else 0)"

lemma link_entries_fold:
  "mem (link_entries m head is) =
     fold (\<lambda>(a, v) s. cmram_w32 s a v) (map (\<lambda>i. (fl_slot m head i, fl_next m head i)) is) (mem m) \<and>
   boot_frame m (link_entries m head is)"
proof (induction "is" arbitrary: m)
  case (Cons i "is")
  let ?m = "m\<lparr>mem := cmram_w32 (mem m) (fl_slot m head i) (fl_next m head i)\<rparr>"
  have e: "link_entries m head (i # is) = link_entries ?m head is"
    by (simp add: Let_def fl_slot_def fl_next_def add.commute)
  have s: "fl_slot ?m = fl_slot m" "fl_next ?m = fl_next m" by (simp_all add: fl_slot_def fl_next_def fun_eq_iff)
  have "boot_frame m ?m" by (simp add: boot_frame_def)
  then show ?case
    unfolding e using Cons.IH[of ?m] boot_frame_trans by (auto simp: s)
qed simp

section \<open>Properties\<close>

text \<open>C24. The boot tables: the loader ends, and afterwards the walk from either segment table finds, for
  every address of the upper quarter, exactly the page it was meant to be mapped to: the device
  windows at their own addresses, the kernel at its offset, its data below the split at theirs, and
  nothing elsewhere.  Nothing but memory and the pool pointer changes.\<close>

theorem boot_tables_map:
  assumes "boot_ready m"
  shows "\<exists>m'. boot_build_tables m = Some m' \<and> boot_frame m m' \<and>
    (\<forall>t\<in>{CODE_SEGTAB, DATA_SEGTAB}. \<forall>a\<ge>0xC0000000.
       mmu_lookup m' (t OR 1) a = map_option (\<lambda>pa. (pa, (pa AND 0xFFFFF000) OR 1)) (boot_map m a))"
proof -
  let ?k = "if realmm (mem m) then KOFF else 0"
  obtain m' where m': "boot_build_tables m = Some m'" "boot_frame m m'"
    and pd: "\<And>t a. t \<in> segtabs \<Longrightarrow> page_desc (mem m') t a =
       (if \<exists>(lo, hi)\<in>set boot_devs. in_range lo hi a then desc_of 0 a
        else if kdata_off (mmu m) \<noteq> 0 \<and> in_range (kdata_va (mmu m)) 0xE0000000 a then desc_of (kdata_off (mmu m)) a
        else if in_range 0xC0000000 (dsplit_of m) a then desc_of ?k a else 0)"
    using boot_build_tables_desc[OF assms] by auto
  have o: "page_off (0 :: u32) = 0" "page_off (kdata_off (mmu m)) = 0" "page_off ?k = 0"
    using assms by (simp_all add: boot_ready_def)
  have "mmu_lookup m' (t OR 1) a = map_option (\<lambda>pa. (pa, (pa AND 0xFFFFF000) OR 1)) (boot_map m a)"
    if "t \<in> segtabs" "0xC0000000 \<le> a" for t a
    unfolding mmu_lookup_desc[OF that] boot_map_def Let_def pd[OF that(1)]
    using desc_of_walk[OF o(1), of a] desc_of_walk[OF o(2), of a] desc_of_walk[OF o(3), of a]
    by simp
  then show ?thesis using m' unfolding segtabs_def by blast
qed

theorem boot_tables_map_witness:
  "\<exists>m'. boot_build_tables (machine0\<lparr>mem := mem0\<lparr>realmm := True\<rparr>\<rparr>) = Some m' \<and>
     mmu_lookup m' 0xE0790001 0xC0016088 = Some (0x16088, 0x16001) \<and>
     mmu_lookup m' 0xE0790001 0xFF050000 = None"
proof -
  let ?m = "machine0\<lparr>mem := mem0\<lparr>realmm := True\<rparr>\<rparr>"
  have r: "boot_ready ?m"
    by (simp add: boot_ready_def cmmu_page_def machine0_def mmu0_def dev0_def)
  have b: "boot_map ?m 0xC0016088 = Some 0x16088" "boot_map ?m 0xFF050000 = None"
    by (simp_all add: boot_map_def boot_devs_def in_range_def dsplit_of_def machine0_def mmu0_def)
  show ?thesis using boot_tables_map[OF r] b by fastforce
qed

text \<open>The pointer the kernel finds the free list by, after the loader has filled it in.\<close>

definition fl_head :: "machine \<Rightarrow> u32" where
  "fl_head m = (if rd32 m 0xC0014038 = 0 then 0x40000000 else rd32 m 0xC0014038)"

text \<open>The free list: when the stride keeps its entries apart, the interleaver's RAM afterwards holds
  a chain from the head through all 0x60 entries, in order and ending in 0, and no other slot of it has
  changed.\<close>

theorem free_list_chain:
  assumes "inj_on (\<lambda>i. cmram_key (fl_slot m (fl_head m) i)) {..<0x60}"
  shows "(\<forall>i<0x60. cmram_r32 (mem (build_free_list m)) (fl_slot m (fl_head m) i) = fl_next m (fl_head m) i) \<and>
    (\<forall>a. (\<forall>i<0x60. cmram_key a \<noteq> cmram_key (fl_slot m (fl_head m) i)) \<longrightarrow>
       cmram_r32 (mem (build_free_list m)) a = cmram_r32 (mem m) a)"
proof -
  let ?h = "fl_head m"
  let ?kvs = "map (\<lambda>i. (fl_slot m ?h i, fl_next m ?h i)) [0..<0x60]"
  obtain s where s: "mem (build_free_list m) = fold (\<lambda>(a, v) s. cmram_w32 s a v) ?kvs s"
    and s0: "\<And>a. cmram_r32 s a = cmram_r32 (mem m) a"
  proof (cases "rd32 m 0xC0014038 = 0")
    case True
    let ?m = "wr32 m 0xC0014038 0x40000000"
    have "fl_slot ?m = fl_slot m" "fl_next ?m = fl_next m" by (simp_all add: fl_slot_def fl_next_def fun_eq_iff)
    then show ?thesis
      using True that[of "mem ?m"] link_entries_fold[of ?m ?h "[0..<0x60]"]
      by (simp add: build_free_list_def fl_head_def cmram_r32_def cmram_page_of_def mem_w32_bytes mem_w8_def set_page_def
          del: upt_rec_numeral)
  next
    case False
    then show ?thesis
      using that[of "mem m"] link_entries_fold[of m ?h "[0..<0x60]"]
      by (simp add: build_free_list_def fl_head_def del: upt_rec_numeral)
  qed
  have d: "distinct (map (\<lambda>(a, v). cmram_key a) ?kvs)"
    using assms by (simp add: distinct_map comp_def lessThan_atLeast0 del: upt_rec_numeral)
  have "cmram_r32 (fold (\<lambda>(a, v) s. cmram_w32 s a v) ?kvs s) (fl_slot m ?h i) = fl_next m ?h i" if "i < 0x60" for i
    by (rule cmram.get_puts[OF d]) (use that in \<open>auto simp del: upt_rec_numeral\<close>)
  moreover have "cmram_r32 (fold (\<lambda>(a, v) s. cmram_w32 s a v) ?kvs s) a = cmram_r32 (mem m) a"
    if "\<forall>i<0x60. cmram_key a \<noteq> cmram_key (fl_slot m ?h i)" for a
    unfolding s0[symmetric] by (rule cmram.get_puts_other) (use that in \<open>auto simp del: upt_rec_numeral\<close>)
  ultimately show ?thesis unfolding s by blast
qed

theorem free_list_chain_witness:
  "cmram_r32 (mem (build_free_list machine0)) 0x40002000 = 0x40004000 \<and>
   cmram_r32 (mem (build_free_list machine0)) 0x400BE000 = 0"
proof -
  have h: "fl_head machine0 = 0x40000000" by code_simp
  have s: "fl_stride (cfg machine0) = 0x2000" by code_simp
  have p: "unat (page_no (fl_slot machine0 0x40000000 i)) = 0x40000 + 2 * i" if "i < 0x60" for i
  proof -
    have i: "unat (of_nat i :: u32) = i" using that by (intro unat_of_nat_small) simp
    then have "unat (of_nat i * 0x2000 :: u32) = i * 0x2000"
      using that by (subst unat_word_ariths(2)) simp
    then have "unat (0x40000000 + of_nat i * 0x2000 :: u32) = 0x40000000 + i * 0x2000"
      using that by (subst unat_add_small) simp_all
    then show ?thesis by (simp add: unat_page_no fl_slot_def s)
  qed
  have i: "inj_on (\<lambda>i. cmram_key (fl_slot machine0 (fl_head machine0) i)) {..<0x60}"
  proof (rule inj_onI)
    fix i j :: nat assume "i \<in> {..<0x60}" "j \<in> {..<0x60}"
      and "cmram_key (fl_slot machine0 (fl_head machine0) i) = cmram_key (fl_slot machine0 (fl_head machine0) j)"
    then have b: "i < 0x60" "j < 0x60"
      and e: "page_no (fl_slot machine0 0x40000000 i) = page_no (fl_slot machine0 0x40000000 j)"
      by (simp_all only: h cmram_key_def prod.inject lessThan_iff)
    have "0x40000 + 2 * i = 0x40000 + 2 * j" using e p[OF b(1)] p[OF b(2)] by (simp only:)
    then show "i = j" by linarith
  qed
  note c = conjunct1[OF free_list_chain[OF i]]
  have e: "fl_slot machine0 0x40000000 1 = 0x40002000" "fl_next machine0 0x40000000 1 = 0x40004000"
    "fl_slot machine0 0x40000000 95 = 0x400BE000" "fl_next machine0 0x40000000 95 = 0"
    by code_simp+
  have "1 < (0x60 :: nat)" "95 < (0x60 :: nat)" by simp_all
  from c[rule_format, OF this(1)] c[rule_format, OF this(2)]
  show ?thesis unfolding h e by (rule conjI)
qed

end
