(* ===== verification/Sysmode.thy ===== *)
theory Sysmode
  imports Newproc Consys Kmsg Boot
begin

text \<open>
  The driver of a run under the kernel (\<^verbatim>\<open>sysmode.c\<close>, \<open>run_sys\<close>): it places the kernel, resets the
  processor and then loops: the places where a run ends or the emulator steps in, the delivery of a
  pending page fault, one step, and what becomes of a trap.

  One pass of the loop is \<open>sys_iter\<close>: the run goes on, or it has ended; \<open>None\<close> where a step has no
  result.  The state brings together the machine, the console with its descriptor tables, the kernel
  log and what the driver itself keeps.  The model is a run without \<open>--debug\<close> and \<open>-v\<close>.

  The lemmas show invariants of whole runs, which system calls the emulator answers and that a call
  it could not answer is made again, and when the idle loop gives up.
\<close>

section \<open>State\<close>

record sys_opts =
  so_px :: px_opts
  so_fs :: host_fs
  so_vmexp :: bool
  so_kmsgs :: bool
  so_dataphys :: bool
  so_synth_boot :: bool
  so_nodes :: u32              \<comment> \<open>\<open>cfg_nodes\<close>\<close>

text \<open>\<open>fd_watch_pc\<close> and its companions: a call under way that will return a descriptor.\<close>

record fd_watch =
  fw_pc :: u32
  fw_pair :: bool
  fw_con :: bool
  fw_disk :: bool

record sys =
  sy_m :: machine
  sy_io :: io_state
  sy_km :: kmsg
  sy_px :: px_state
  sy_watch :: fd_watch
  sy_synced :: bool            \<comment> \<open>\<open>fs_synced\<close>\<close>
  sy_last_count :: u64
  sy_spins :: nat              \<comment> \<open>\<open>idle_spins\<close>\<close>
  sy_warned :: bool            \<comment> \<open>the warning about unflushed writes was printed\<close>

abbreviation (input) TEXT_BASE :: u32 where "TEXT_BASE \<equiv> 0xC0010000"
abbreviation (input) DATA_BASE :: u32 where "DATA_BASE \<equiv> 0xC1000000"
abbreviation (input) KERN_PUTCHAR :: u32 where "KERN_PUTCHAR \<equiv> 0xC005B218"

definition no_watch :: fd_watch where
  "no_watch = \<lparr>fw_pc = 0, fw_pair = False, fw_con = False, fw_disk = False\<rparr>"

section \<open>Placing the kernel\<close>

text \<open>Where text and data go, and the data segment's offset for \<open>--dataphys\<close>.\<close>

definition kernel_place :: "sys_opts \<Rightarrow> machine \<Rightarrow> aout \<Rightarrow> u32 \<times> u32 \<times> machine" where
  "kernel_place opt m a =
     (let tload = (if realmm (mem m) then TEXT_BASE - KOFF else TEXT_BASE);
          dload = (if realmm (mem m) then DATA_BASE - KOFF else DATA_BASE)
      in if realmm (mem m) \<and> so_dataphys opt
         then (let dload = tload + ao_text a
               in (tload, dload, m\<lparr>mmu := (mmu m)\<lparr>kdata_va := DATA_BASE, kdata_off := DATA_BASE - dload\<rparr>\<rparr>))
         else (tload, dload, m))"

fun absent_nodes :: "mem_state \<Rightarrow> u32 list \<Rightarrow> mem_state" where
  "absent_nodes m [] = m"
| "absent_nodes m (i # is) = absent_nodes (mem_w8 m (0xFE00191C + i) 0xFF) is"

definition sys_reset :: "aout \<Rightarrow> machine \<Rightarrow> machine" where
  "sys_reset a m =
     (let m = set_pc (m\<lparr>cpu := cpu0\<rparr>) (ao_entry a);
          m = WR m 31 (DATA_BASE + ao_data a + ao_bss a + 0x8000)
      in set_cr m 1 0x80000003)"

definition kernel_load :: "sys_opts \<Rightarrow> machine \<Rightarrow> aout \<Rightarrow> machine" where
  "kernel_load opt m a =
     (let text = unat (ao_text a); data = unat (ao_data a);
          (tload, dload, m) = kernel_place opt m a;
          mm = mem_load (mem m) tload (take text (drop 8192 (ao_img a)));
          mm = mem_load mm dload (take data (drop (8192 + text) (ao_img a)));
          mm = mem_zero mm (dload + ao_data a) (unat (ao_bss a))
      in m\<lparr>mem := mm\<rparr>)"

text \<open>Up to the loop.  \<open>Fail\<close> is the return of 1, \<open>Overrun\<close> a copy past the end of the kernel file.\<close>

definition sys_boot :: "sys_opts \<Rightarrow> u8 list \<Rightarrow> u32 \<Rightarrow> machine \<Rightarrow> machine c_result option" where
  "sys_boot opt img sig m =
     (case aout_load_mem img of
        None \<Rightarrow> Some Fail
      | Some a \<Rightarrow>
          if 8192 + unat (ao_text a) + unat (ao_data a) > length (ao_img a) then Some Overrun
          else
            (let m = m\<lparr>sysmode := True,
                       cfg := (cfg m)\<lparr>force_sig_pc := if sig \<noteq> 0 then 0xC00A851C else 0, force_sig_val := sig\<rparr>\<rparr>;
                 m = kernel_load opt m a in
             case (if so_synth_boot opt then map_option build_free_list (boot_build_tables m) else Some m) of
               None \<Rightarrow> None
             | Some m \<Rightarrow>
                 (let n = so_nodes opt;
                      m = (if n \<noteq> 0 then m\<lparr>mem := absent_nodes (mem m) (map of_nat [unat n..<512])\<rparr> else m)
                  in Some (Ok (sys_reset a m)))))"

section \<open>The idle machine\<close>

text \<open>The parent of a parent of a process, at most 32 times.\<close>

fun climb :: "nat \<Rightarrow> machine \<Rightarrow> u32 \<Rightarrow> u32 \<Rightarrow> u32 \<times> machine" where
  "climb 0 m a root = (a, m)"
| "climb (Suc n) m a root =
     (if a = 0 \<or> a = root then (a, m)
      else (let (p, m) = vr32 m (a + 0x18) in climb n m p root))"

fun alive_scan :: "machine \<Rightarrow> u32 \<Rightarrow> u32 list \<Rightarrow> bool \<times> machine" where
  "alive_scan m root [] = (False, m)"
| "alive_scan m root (q # qs) =
     (let (st, m) = vr32 m (q + 0x40) in
      if st = 0 \<or> st = 5 then alive_scan m root qs
      else
        (let (a, m) = climb 32 m q root
         in if a = root then (True, m) else alive_scan m root qs))"

definition still_alive :: "machine \<Rightarrow> u32 \<Rightarrow> bool \<times> machine" where
  "still_alive m root =
     (let (pb, m) = vr32 m 0xC1015758; (np, m) = vr32 m 0xC1014B80
      in alive_scan m root (if pb = 0 then [] else map (\<lambda>i. pb + of_nat i * 512) [0..<unat np]))"

text \<open>Into the kernel's own scheduler, the first process queued last.\<close>

definition vw8 :: "machine \<Rightarrow> u32 \<Rightarrow> u8 \<Rightarrow> machine" where
  "vw8 m va v = (let (pa, m) = translate m va False in wr8 m pa v)"

definition yield_cpu :: "machine \<Rightarrow> machine option" where
  "yield_cpu m =
     (let (p0, m) = vr32 m G_CURPROC_G;
          m = (if p0 \<noteq> 0 then vw8 (vw8 m (p0 + 0x84) 127) (p0 + 0x85) 127 else m)
      in case runq_add m p0 of
           None \<Rightarrow> None
         | Some m \<Rightarrow> Some (set_pc (WR (WR m 1 PROCEXP_IDLE) 2 0xFFFFFFFF) 0xC0055CC0))"

section \<open>One pass of the loop\<close>

datatype outcome = Next sys | Halt sys

definition sys_idle :: "sys \<Rightarrow> outcome option" where
  "sys_idle s =
     (let (alive, m) = still_alive (sy_m s) (procexp_proc (sy_px s));
          s = s\<lparr>sy_m := m\<rparr>; count = cpu_count (cpu m);
          s = (if alive then
                 s\<lparr>sy_spins := if count - sy_last_count s < 2000 then sy_spins s + 1 else 0,
                   sy_last_count := count\<rparr>
               else s)
      in if alive \<and> sy_spins s < 2 then map_option (\<lambda>m. Next (s\<lparr>sy_m := m\<rparr>)) (yield_cpu m)
         else Some (Halt (if disk_wrote (dev m) \<and> \<not> sy_synced s then s\<lparr>sy_warned := True\<rparr> else s)))"

text \<open>The swapper's idle loop: the kernel is up.\<close>

definition sys_booted :: "sys_opts \<Rightarrow> sys \<Rightarrow> outcome option" where
  "sys_booted opt s =
     (let s = (if so_kmsgs opt then s\<lparr>sy_km := kmsg_flush (sy_km s)\<rparr> else s) in
      if procexp (cfg (sy_m s)) then
        (case proc_experiment (so_fs opt) (so_px opt) (sy_m s) (sy_px s) (con (sy_io s)) of
           None \<Rightarrow> None
         | Some (ok, m, x, c) \<Rightarrow>
             (let s = s\<lparr>sy_m := m, sy_px := x, sy_io := (sy_io s)\<lparr>con := c\<rparr>\<rparr>
              in Some (if ok then Next s else Halt s)))
      else if so_vmexp opt then map_option (\<lambda>m. Halt (s\<lparr>sy_m := m\<rparr>)) (vm_experiment (sy_m s))
      else Some (Halt s))"

text \<open>The descriptor a watched call has returned.\<close>

definition fd_mark :: "fd_watch \<Rightarrow> u32 \<Rightarrow> u32 \<Rightarrow> fd_tab \<Rightarrow> fd_tab" where
  "fd_mark w r2 r3 t =
     (let t = (if r2 < 64 then
                 (let t = t\<lparr>fd_kernel := (fd_kernel t)(r2 := 1)\<rparr>;
                      t = (if fw_con w then t\<lparr>fd_console := (fd_console t)(r2 := 1)\<rparr> else t)
                  in if fw_disk w then t\<lparr>fd_disk := (fd_disk t)(r2 := 1), disk_off := (disk_off t)(r2 := 0)\<rparr> else t)
               else t)
      in if fw_pair w \<and> r3 < 64 \<and> r2 < 64 then t\<lparr>fd_kernel := (fd_kernel t)(r3 := 1)\<rparr> else t)"

definition sys_watch_return :: "sys \<Rightarrow> sys" where
  "sys_watch_return s =
     (let m = sy_m s; w = sy_watch s in
      if fw_pc w \<noteq> 0 \<and> pc m = fw_pc w + 8 \<and> \<not> supervisor m
      then s\<lparr>sy_io := (sy_io s)\<lparr>io_tab := fd_mark w (RD m 2) (RD m 3) (io_tab (sy_io s))\<rparr>, sy_watch := no_watch\<rparr>
      else s)"

text \<open>What the driver looks at on the way: the panic message, the kernel's characters, a watched
  return.\<close>

definition sys_observe :: "sys_opts \<Rightarrow> sys \<Rightarrow> sys" where
  "sys_observe opt s =
     (let m = sy_m s;
          s = (if pc m = 0xC005AFE0 then s\<lparr>sy_m := snd (uread_str m (RD m 2) 160)\<rparr> else s);
          s = (if so_kmsgs opt \<and> pc m = KERN_PUTCHAR
               then s\<lparr>sy_km := kmsg_putchar (sy_km s) (ucast (RD m 2 AND 0xff)) (RD m 3)\<rparr> else s)
      in sys_watch_return s)"

definition sys_fault :: "machine \<Rightarrow> machine" where
  "sys_fault m =
     (let m = set_pending m False; f = ufault (mmu m)
      in deliver_fault m (if ufault_code f then 2 else 3) (pc m) (ufault_va f) (ufault_code f)
           (ufault_write f) (ufault_width f))"

section \<open>System calls\<close>

text \<open>The tables of the process that called.\<close>

definition sys_switch :: "sys \<Rightarrow> sys" where
  "sys_switch s =
     (let (pid, m) = real_pid (sy_m s); (ppid, m) = real_ppid m
      in s\<lparr>sy_m := m, sy_io := fd_switch (procexp (cfg m)) pid ppid (sy_io s)\<rparr>)"

text \<open>The three services in turn; the flag is whether one took the call.\<close>

definition sys_service :: "u32 \<Rightarrow> u32 \<Rightarrow> machine \<Rightarrow> io_state \<Rightarrow> bool \<times> machine \<times> io_state" where
  "sys_service n tpc m io =
     (case console_syscall n tpc m io of
        (True, r) \<Rightarrow> (True, r)
      | (False, m, io) \<Rightarrow>
          (case disk_syscall n tpc m io of
             (True, r) \<Rightarrow> (True, r)
           | (False, m, io) \<Rightarrow> hostfile_syscall n tpc m io))"

text \<open>A call that will return a descriptor is watched.\<close>

definition sys_watch :: "u32 \<Rightarrow> machine \<Rightarrow> fd_tab \<Rightarrow> fd_watch \<times> machine" where
  "sys_watch n m t =
     (let (named, m) = (if n = 5 \<or> n = 8 then
                          (let (p, m) = uread_str m (RD m 2) 64 in (has_str p (c_string ''sd0''), m))
                        else (False, m));
          src = RD m 2; dup = (n = 41 \<and> src < 64)
      in (\<lparr>fw_pc = trap_pc m, fw_pair = (n = 42), fw_con = (dup \<and> fd_console t src \<noteq> 0),
           fw_disk = (named \<or> (dup \<and> fd_disk t src \<noteq> 0))\<rparr>, m))"

text \<open>\<open>close\<close> and \<open>dup2\<close> change the tables at once.\<close>

definition fd_track :: "u32 \<Rightarrow> u32 \<Rightarrow> u32 \<Rightarrow> fd_tab \<Rightarrow> fd_tab" where
  "fd_track n r2 r3 t =
     (if n = 6 \<and> r2 < 64 then
        t\<lparr>fd_kernel := (fd_kernel t)(r2 := 0), fd_console := (fd_console t)(r2 := 0),
          fd_disk := (fd_disk t)(r2 := 0)\<rparr>
      else if n = 90 \<and> r3 < 64 \<and> r2 < 64 then
        t\<lparr>fd_console := (fd_console t)(r3 := fd_console t r2), fd_disk := (fd_disk t)(r3 := fd_disk t r2),
          disk_off := (disk_off t)(r3 := disk_off t r2)\<rparr>
      else t)"

definition sys_deliver :: "machine \<Rightarrow> machine" where
  "sys_deliver m = (deliver_trap m (trap_vector m) (trap_pc m))\<lparr>trap_taken := False\<rparr>"

definition sys_call :: "sys \<Rightarrow> sys" where
  "sys_call s =
     (let s = sys_switch s; m = sy_m s; n = RD m 9;
          s = (if n = 34 \<or> n = 159 then s\<lparr>sy_synced := True\<rparr> else s) in
      case sys_service n (trap_pc m) m (sy_io s) of
        (True, m, io) \<Rightarrow> s\<lparr>sy_m := m\<lparr>trap_taken := False\<rparr>, sy_io := io\<rparr>
      | (False, m, io) \<Rightarrow>
          (let (w, m) = (if n = 5 \<or> n = 8 \<or> n = 41 \<or> n = 90 \<or> n = 42 then sys_watch n m (io_tab io)
                         else (sy_watch s, m))
           in s\<lparr>sy_m := sys_deliver m, sy_io := io\<lparr>io_tab := fd_track n (RD m 2) (RD m 3) (io_tab io)\<rparr>,
                sy_watch := w\<rparr>))"

definition sys_trap :: "sys \<Rightarrow> outcome" where
  "sys_trap s =
     (let m = sy_m s in
      if deliver_traps (sy_px s) \<and> trap_vector m \<noteq> 0xFFFFFFFF \<and> CR m 7 \<ge> 0xC0000000 then
        Next (if trap_vector m = 128 \<and> \<not> supervisor m then sys_call s else s\<lparr>sy_m := sys_deliver m\<rparr>)
      else Halt s)"

section \<open>The loop\<close>

definition sys_run1 :: "sys \<Rightarrow> outcome option" where
  "sys_run1 s =
     (let m = sy_m s in
      if fault_pending m then Some (Next (s\<lparr>sy_m := sys_fault m\<rparr>))
      else
        (case step m of
           Running m \<Rightarrow> Some (Next (s\<lparr>sy_m := m\<rparr>))
         | Trapped m \<Rightarrow> Some (sys_trap (s\<lparr>sy_m := m\<rparr>))
         | NoStep \<Rightarrow> None))"

definition sys_iter :: "sys_opts \<Rightarrow> sys \<Rightarrow> outcome option" where
  "sys_iter opt s =
     (let m = sy_m s in
      if realmm (mem m) \<and> pc m < 0xC0000000 \<and> supervisor m then Some (Halt s)
      else if pc m = 0xC0054720 \<and> RD m 1 = 0xC004859C \<and> RD m 2 = 0xC0047F88 then sys_booted opt s
      else if procexp (cfg m) \<and> pc m = PROCEXP_IDLE then sys_idle s
      else if pc m = 0xC00A24F4 \<or> pc m = 0xC00A24B8 then Some (Halt s)
      else sys_run1 (sys_observe opt s))"

partial_function (option) sys_loop :: "sys_opts \<Rightarrow> u64 \<Rightarrow> sys \<Rightarrow> sys option" where
  "sys_loop opt limit s =
     (if cpu_count (cpu (sy_m s)) < limit then
        (case sys_iter opt s of
           None \<Rightarrow> None
         | Some (Halt s) \<Rightarrow> Some s
         | Some (Next s) \<Rightarrow> sys_loop opt limit s)
      else Some s)"

definition run_sys :: "sys_opts \<Rightarrow> u8 list \<Rightarrow> u32 \<Rightarrow> u64 \<Rightarrow> sys \<Rightarrow> sys c_result option" where
  "run_sys opt img sig limit s =
     (case sys_boot opt img sig (sy_m s) of
        None \<Rightarrow> None
      | Some Fail \<Rightarrow> Some Fail
      | Some Overrun \<Rightarrow> Some Overrun
      | Some (Ok m) \<Rightarrow> map_option Ok (sys_loop opt limit (s\<lparr>sy_m := m\<rparr>)))"

section \<open>What the services leave alone\<close>

lemma fixed_translated: "translate m va code = (pa, m') \<Longrightarrow> fixed m' = fixed m"
  by (metis fixed_translate snd_conv)

lemma fixed_probe: "probe m va = (r, m') \<Longrightarrow> fixed m' = fixed m"
  by (auto simp: probe_def split: prod.splits dest!: fixed_translated)

lemma fixed_uread_bytes: "uread_bytes m va n = (r, m') \<Longrightarrow> fixed m' = fixed m"
proof (induction n arbitrary: m va r)
  case (Suc n)
  obtain x k where p: "probe m va = (x, k)" by fastforce
  show ?case
    using Suc.prems Suc.IH[of k "va + 1"] fixed_probe[OF p]
    by (auto simp: p Let_def split: option.splits if_splits prod.splits)
qed simp

lemma fixed_uread_str [simp]: "fixed (snd (uread_str m va n)) = fixed m"
  using fixed_uread_bytes[of m va "n - 1"] by (auto simp: uread_str_def split: prod.split)

lemma fixed_uwrite_bytes: "uwrite_bytes m va bs = (r, m') \<Longrightarrow> fixed m' = fixed m"
proof (induction bs arbitrary: m va r)
  case (Cons b bs)
  obtain x k where p: "probe m va = (x, k)" by fastforce
  show ?case
  proof (cases x)
    case None
    then show ?thesis using Cons.prems fixed_probe[OF p] by (simp add: p)
  next
    case (Some pa)
    then show ?thesis
      using Cons.prems Cons.IH[of "wr8 k pa b" "va + 1"] fixed_probe[OF p]
      by (auto simp: p split: prod.splits)
  qed
qed simp

lemma fixed_uwrite_mem [simp]: "fixed (snd (uwrite_mem m va bs)) = fixed m"
  using fixed_uwrite_bytes[of m va bs] by (auto simp: uwrite_mem_def split: prod.split)

lemma fixed_uread_buf [simp]: "fixed (snd (uread_buf m va n)) = fixed m"
  by (induction n arbitrary: m va) (simp_all add: Let_def split_beta)

lemma fixed_ubuf_pages: "ubuf_pages m p n = (r, m') \<Longrightarrow> fixed m' = fixed m"
proof (induction n arbitrary: m p)
  case (Suc n)
  obtain x k where q: "probe m p = (x, k)" by fastforce
  show ?case
    using Suc.prems Suc.IH[of k "p + 0x1000"] fixed_probe[OF q]
    by (auto simp: q split: option.splits)
qed simp

lemma fixed_ubuf_fault [simp]: "fixed (snd (ubuf_fault m va len w tpc)) = fixed m"
  using fixed_ubuf_pages[of m "va AND NOT 0xFFF" "ubuf_count va len"]
  by (auto simp: ubuf_fault_def Let_def split: prod.split option.split)

lemma fixed_sys_done [simp]: "fixed (sys_done m r tpc) = fixed m"
  by (simp add: sys_done_def)

lemma fixed_disk_to_user [simp]: "fixed (disk_to_user m f pos buf n) = fixed m"
  by (simp add: disk_to_user_def)

lemma fixed_user_to_disk [simp]: "fixed (user_to_disk m f pos buf n) = fixed m"
  by (simp add: user_to_disk_def split_beta)

lemma fixed_checked: "ubuf_fault m va len w tpc = (b, m') \<Longrightarrow> fixed m' = fixed m"
  by (metis fixed_ubuf_fault snd_conv)

lemma fixed_disk_ioctl [simp]: "fixed (disk_ioctl m f req tpc) = fixed m"
  by (auto simp: disk_ioctl_def Let_def split_beta split: bool.split prod.split dest!: fixed_checked)

lemma fixed_disk_syscall: "fixed (fst (snd (disk_syscall n tpc m io))) = fixed m"
  by (auto simp: disk_syscall_def Let_def split_beta split: option.split bool.split prod.split dest!: fixed_checked)

lemma fixed_hostfile_syscall: "fixed (fst (snd (hostfile_syscall n tpc m io))) = fixed m"
  by (auto simp: hostfile_syscall_def Let_def split_beta split: option.split bool.split prod.split dest!: fixed_checked)

lemma fixed_console_chunks: "fixed (fst (console_chunks m c a off len e)) = fixed m"
proof (induction m c a off len e rule: console_chunks.induct)
  case (1 m c a off len e)
  then show ?case
    by (subst console_chunks.simps) (simp add: Let_def split_beta prod.collapse[symmetric])
qed

lemma fixed_tty_give: "fixed (fst (snd (tty_give m c a bs tpc))) = fixed m"
  by (auto simp: tty_give_def split: prod.split bool.split dest!: fixed_checked)

lemma fixed_tty_take: "fixed (fst (snd (tty_take m c a n upd tpc))) = fixed m"
  by (auto simp: tty_take_def split_beta split: prod.split bool.split dest!: fixed_checked)

lemma fixed_tty_fionread: "fixed (fst (snd (tty_fionread m c a tpc))) = fixed m"
  by (auto simp: tty_fionread_def split_beta Let_def split: prod.split bool.split dest!: fixed_checked)

lemma fixed_tty_ioctl: "fixed (fst (snd (tty_ioctl m c cmd a tpc))) = fixed m"
  by (simp add: tty_ioctl_def fixed_tty_give fixed_tty_take fixed_tty_fionread)

lemma fixed_console_write: "fixed (fst (console_write m io a0 a1 a2 tpc)) = fixed m"
  by (auto simp: console_write_def Let_def split_beta fixed_console_chunks
      split: prod.split bool.split dest!: fixed_checked)

lemma fixed_console_read: "fixed (fst (console_read m io a1 a2 tpc)) = fixed m"
  by (auto simp: console_read_def Let_def split_beta split: prod.split bool.split dest!: fixed_checked)

lemma fixed_console_ioctl: "fixed (fst (console_ioctl m io a1 a2 tpc)) = fixed m"
  by (simp add: console_ioctl_def split_beta fixed_tty_ioctl)

lemma fixed_console_syscall: "fixed (fst (snd (console_syscall n tpc m io))) = fixed m"
  by (simp add: console_syscall_def Let_def fixed_console_write fixed_console_read fixed_console_ioctl)

lemma fixed_sys_service: "fixed (fst (snd (sys_service n tpc m io))) = fixed m"
proof -
  obtain b1 m1 io1 where 1: "console_syscall n tpc m io = (b1, m1, io1)" using prod_cases3 by blast
  obtain b2 m2 io2 where 2: "disk_syscall n tpc m1 io1 = (b2, m2, io2)" using prod_cases3 by blast
  have "fixed m1 = fixed m" "fixed m2 = fixed m1"
    using fixed_console_syscall[of n tpc m io] fixed_disk_syscall[of n tpc m1 io1] 1 2 by simp_all
  then show ?thesis by (simp add: sys_service_def 1 2 fixed_hostfile_syscall split: bool.split)
qed

lemma fixed_deliver [simp]:
  "fixed (deliver_trap m v tpc) = fixed m" "fixed (deliver_fault m v fpc va c w width) = fixed m"
  by (simp_all add: deliver_trap_def deliver_fault_def Let_def)

lemma fixed_sys_deliver [simp]: "fixed (sys_deliver m) = fixed m"
  by (simp add: sys_deliver_def fixed_def) (simp add: deliver_trap_def Let_def set_cr_def set_pc_def clear_pending_def)

lemma fixed_sys_fault [simp]: "fixed (sys_fault m) = fixed m"
  by (simp add: sys_fault_def Let_def)

lemma fixed_real_pids [simp]: "fixed (snd (real_pid m)) = fixed m" "fixed (snd (real_ppid m)) = fixed m"
  by (simp_all add: real_pid_def real_ppid_def Let_def split_beta)

lemma con_disk_syscall: "con (snd (snd (disk_syscall n tpc m io))) = con io"
  by (auto simp: disk_syscall_def Let_def split_beta set_disk_off_def split: option.split bool.split prod.split)

lemma con_hostfile_syscall: "con (snd (snd (hostfile_syscall n tpc m io))) = con io"
  by (auto simp: hostfile_syscall_def Let_def split_beta host_open_def split: option.split bool.split prod.split)

lemma con_ok_service:
  assumes "con_ok (con io)"
  shows "con_ok (con (snd (snd (sys_service n tpc m io))))"
proof -
  obtain b1 m1 io1 where 1: "console_syscall n tpc m io = (b1, m1, io1)" using prod_cases3 by blast
  obtain b2 m2 io2 where 2: "disk_syscall n tpc m1 io1 = (b2, m2, io2)" using prod_cases3 by blast
  have "con_ok (con io1)" "con io2 = con io1"
    using console_type[OF assms, of n tpc m] con_disk_syscall[of n tpc m1 io1] 1 2 by simp_all
  then show ?thesis by (simp add: sys_service_def 1 2 con_hostfile_syscall split: bool.split)
qed

lemma con_fdslot: "con (snd (fdslot pid io)) = con io"
  by (auto simp: fdslot_def split: option.split)

lemma con_fd_inherit: "con (fd_inherit n ppid io) = con io"
  using con_fdslot[of ppid io]
  by (auto simp: fd_inherit_def fd_save_def fd_load_def Let_def split: option.split prod.split)

lemma con_fd_switch: "con (fd_switch x pid ppid io) = con io"
proof -
  have f: "con k = con i" if "fdslot q i = (r, k)" for q i r k
    using con_fdslot[of q i] that by simp
  show ?thesis
    by (auto simp: fd_switch_def Let_def fd_load_def fd_save_def con_fd_inherit
        split: option.split prod.split dest!: f)
qed

section \<open>What a pass keeps\<close>

fun outcome_sys :: "outcome \<Rightarrow> sys" where
  "outcome_sys (Next s) = s"
| "outcome_sys (Halt s) = s"

lemma fixed_climb [simp]: "fixed (snd (climb n m a root)) = fixed m"
  by (induction n arbitrary: m a) (simp_all add: Let_def split_beta)

lemma fixed_alive_scan [simp]: "fixed (snd (alive_scan m root qs)) = fixed m"
  by (induction qs arbitrary: m) (simp_all add: Let_def split_beta)

lemma fixed_still_alive [simp]: "fixed (snd (still_alive m root)) = fixed m"
  by (simp add: still_alive_def Let_def split_beta)

lemma fixed_vw8 [simp]: "fixed (vw8 m va v) = fixed m"
  by (simp add: vw8_def split_beta)

lemma fixed_yield_cpu: "yield_cpu m = Some m' \<Longrightarrow> fixed m' = fixed m"
  by (auto simp: yield_cpu_def Let_def split_beta split: option.splits dest!: runq_add_fixed)

lemma sys_watch_return_keeps [simp]:
  "sy_m (sys_watch_return s) = sy_m s" "con (sy_io (sys_watch_return s)) = con (sy_io s)"
  "sy_km (sys_watch_return s) = sy_km s"
  by (simp_all add: sys_watch_return_def Let_def)

lemma sys_observe_keeps:
  "fixed (sy_m (sys_observe opt s)) = fixed (sy_m s)" "con (sy_io (sys_observe opt s)) = con (sy_io s)"
  "km_ok (sy_km s) \<Longrightarrow> km_ok (sy_km (sys_observe opt s))"
  by (simp_all add: sys_observe_def Let_def km_ok_putchar)

definition sys_ok :: "sys \<Rightarrow> bool" where
  "sys_ok s \<longleftrightarrow> con_ok (con (sy_io s)) \<and> km_ok (sy_km s)"

definition kept :: "sys \<Rightarrow> sys \<Rightarrow> bool" where
  "kept s t \<longleftrightarrow> fixed (sy_m t) = fixed (sy_m s) \<and> (sys_ok s \<longrightarrow> sys_ok t)"

lemma kept_trans: "kept s t \<Longrightarrow> kept t u \<Longrightarrow> kept s u"
  by (simp add: kept_def)

lemma kept_observe: "kept s (sys_observe opt s)"
  by (simp add: kept_def sys_ok_def sys_observe_keeps)

lemma kept_idle: "sys_idle s = Some r \<Longrightarrow> kept s (outcome_sys r)"
  by (auto simp: sys_idle_def Let_def split_beta kept_def sys_ok_def split: if_splits dest!: fixed_yield_cpu)

lemma proc_experiment_con:
  "proc_experiment fs opt m x c = Some (b, m', x', c') \<Longrightarrow> con_ok c \<Longrightarrow> con_ok c'"
  by (auto simp: proc_experiment_def Let_def split_beta bind_eq_Some_conv con_write_str_def con_ok_write
      split: if_splits option.splits)

lemma kept_booted: "sys_booted opt s = Some r \<Longrightarrow> kept s (outcome_sys r)"
  by (auto simp: sys_booted_def Let_def kept_def sys_ok_def km_ok_flush
      split: if_splits option.splits
      dest!: fixed_vm_experiment dest: fixed_proc_experiment proc_experiment_con)

lemma sys_switch_keeps:
  "fixed (sy_m (sys_switch s)) = fixed (sy_m s)" "con (sy_io (sys_switch s)) = con (sy_io s)"
  "sy_km (sys_switch s) = sy_km s"
  by (simp_all add: sys_switch_def Let_def split_beta con_fd_switch)

lemma fixed_sys_watch [simp]: "fixed (snd (sys_watch n m t)) = fixed m"
  by (simp add: sys_watch_def Let_def split_beta)

lemma fixed_trap_taken [simp]: "fixed (m\<lparr>trap_taken := b\<rparr>) = fixed m"
  by (simp add: fixed_def)

lemma synced: "(if c then s\<lparr>sy_synced := True\<rparr> else s) = s\<lparr>sy_synced := c \<or> sy_synced s\<rparr>"
  by simp

lemma kept_call: "kept s (sys_call s)"
proof -
  define t where "t = sys_switch s"
  obtain b m io where r: "sys_service (RD (sy_m t) 9) (trap_pc (sy_m t)) (sy_m t) (sy_io t) = (b, m, io)"
    using prod_cases3 by blast
  have f: "fixed m = fixed (sy_m t)"
    using fixed_sys_service[of "RD (sy_m t) 9" "trap_pc (sy_m t)" "sy_m t" "sy_io t"] r by simp
  have c: "con_ok (con (sy_io t)) \<Longrightarrow> con_ok (con io)"
    using con_ok_service[of "sy_io t" "RD (sy_m t) 9" "trap_pc (sy_m t)" "sy_m t"] r by simp
  have t: "fixed (sy_m t) = fixed (sy_m s)" "con (sy_io t) = con (sy_io s)" "sy_km t = sy_km s"
    by (simp_all add: t_def sys_switch_keeps)
  show ?thesis
    unfolding sys_call_def t_def[symmetric] Let_def synced
    using f c t by (cases b) (simp_all add: r kept_def sys_ok_def split_beta)
qed

lemma kept_trap: "kept s (outcome_sys (sys_trap s))"
  using kept_call[of s] by (simp add: sys_trap_def Let_def) (simp add: kept_def sys_ok_def)

lemma kept_run1:
  assumes "sys_run1 s = Some r"
  shows "kept s (outcome_sys r)"
proof (cases "fault_pending (sy_m s)")
  case True
  then show ?thesis using assms by (auto simp: sys_run1_def kept_def sys_ok_def)
next
  case False
  show ?thesis
  proof (cases "step (sy_m s)")
    case (Running m)
    then show ?thesis using assms False fixed_step[of "sy_m s" m]
      by (auto simp: sys_run1_def kept_def sys_ok_def)
  next
    case (Trapped m)
    have "kept s (s\<lparr>sy_m := m\<rparr>)" using fixed_trapped[OF Trapped] by (simp add: kept_def sys_ok_def)
    from kept_trans[OF this kept_trap] show ?thesis using assms False Trapped by (auto simp: sys_run1_def)
  next
    case NoStep
    then show ?thesis using assms False by (simp add: sys_run1_def)
  qed
qed

lemma kept_iter: "sys_iter opt s = Some r \<Longrightarrow> kept s (outcome_sys r)"
  using kept_run1[of "sys_observe opt s" r] kept_observe[of s opt] kept_trans[of s "sys_observe opt s"]
    kept_idle[of s r] kept_booted[of opt s r]
  by (auto simp: sys_iter_def Let_def kept_def split: if_splits)

section \<open>Whole runs\<close>

inductive sys_reaches :: "sys_opts \<Rightarrow> sys \<Rightarrow> sys \<Rightarrow> bool" for opt where
  start: "sys_reaches opt s s"
| onward: "sys_reaches opt s t \<Longrightarrow> sys_iter opt t = Some (Next u) \<Longrightarrow> sys_reaches opt s u"

inductive sys_ends :: "sys_opts \<Rightarrow> sys \<Rightarrow> sys \<Rightarrow> bool" for opt where
  halted: "sys_reaches opt s t \<Longrightarrow> sys_iter opt t = Some (Halt u) \<Longrightarrow> sys_ends opt s u"
| expired: "sys_reaches opt s t \<Longrightarrow> sys_ends opt s t"

lemma sys_reaches_Next:
  assumes "sys_iter opt s = Some (Next t)" "sys_reaches opt t u"
  shows "sys_reaches opt s u"
  using assms(2,1) by (induction rule: sys_reaches.induct) (auto intro: sys_reaches.intros)

lemma sys_ends_Next: "sys_iter opt s = Some (Next t) \<Longrightarrow> sys_ends opt t u \<Longrightarrow> sys_ends opt s u"
  by (auto elim!: sys_ends.cases intro: sys_ends.intros sys_reaches_Next)

lemma sys_loop_ends:
  assumes "sys_loop opt limit s = Some t"
  shows "sys_ends opt s t"
proof (rule sys_loop.raw_induct[OF _ assms, where P = "\<lambda>opt limit s t. sys_ends opt s t"])
  fix f opt limit s t
  assume ih: "\<And>opt limit s t. f opt limit s = Some t \<Longrightarrow> sys_ends opt s t"
    and r: "(if cpu_count (cpu (sy_m s)) < limit then
        (case sys_iter opt s of
           None \<Rightarrow> None
         | Some (Next s) \<Rightarrow> f opt limit s
         | Some (Halt s) \<Rightarrow> Some s)
      else Some s) = Some t"
  show "sys_ends opt s t"
  proof (cases "cpu_count (cpu (sy_m s)) < limit")
    case False
    then show ?thesis using r by (auto intro: sys_ends.intros sys_reaches.intros)
  next
    case True
    then obtain o' where o: "sys_iter opt s = Some o'" using r by (cases "sys_iter opt s") auto
    show ?thesis
    proof (cases o')
      case (Next u)
      then show ?thesis using r True o ih[of opt limit u t] sys_ends_Next[of opt s u t] by simp
    next
      case (Halt u)
      then show ?thesis using r True o sys_ends.halted[OF sys_reaches.start, of opt s u] by simp
    qed
  qed
qed

text \<open>What every pass keeps holds throughout a run and when it ends.\<close>

locale driver_invariant =
  fixes opt :: sys_opts
    and I :: "sys \<Rightarrow> bool"
  assumes keeps: "I s \<Longrightarrow> sys_iter opt s = Some r \<Longrightarrow> I (outcome_sys r)"
begin

lemma reached: "sys_reaches opt s t \<Longrightarrow> I s \<Longrightarrow> I t"
proof (induction rule: sys_reaches.induct)
  case (onward s t u)
  then show ?case using keeps[of t "Next u"] by simp
qed simp

lemma ended: "sys_ends opt s t \<Longrightarrow> I s \<Longrightarrow> I t"
proof (induction rule: sys_ends.induct)
  case (halted s t u)
  then show ?case using keeps[of t "Halt u"] reached by simp
qed (rule reached)

lemma looped: "sys_loop opt limit s = Some t \<Longrightarrow> I s \<Longrightarrow> I t"
  using ended sys_loop_ends by blast

end

interpretation buffers: driver_invariant opt sys_ok for opt
  by unfold_locales (auto dest: kept_iter simp: kept_def)

interpretation settings: driver_invariant opt "\<lambda>s. fixed (sy_m s) = c" for opt c
  by unfold_locales (auto dest: kept_iter simp: kept_def)

text \<open>Placing the kernel keeps the medium as well.\<close>

lemma fixed_map_page [simp]: "fixed (map_page m t va off) = fixed m"
  by (simp add: map_page_def Let_def set_ptpool_def) (simp add: fixed_def)

lemma fixed_map_range_off: "map_range_off m t va hi off = Some m' \<Longrightarrow> fixed m' = fixed m"
  by (erule map_range_off.raw_induct[rotated, where P = "\<lambda>m t va hi off m'. fixed m' = fixed m"])
     (auto split: if_splits)

lemma fixed_map_both: "map_both lo hi off m = Some m' \<Longrightarrow> fixed m' = fixed m"
  by (auto simp: map_both_def split: option.splits dest!: fixed_map_range_off)

lemma fixed_map_windows: "map_windows ds m = Some m' \<Longrightarrow> fixed m' = fixed m"
  by (induction ds m rule: map_windows.induct)
     (auto simp: map_range_def split: option.splits dest!: fixed_map_range_off)

lemma fixed_load_aprs [simp]: "fixed (load_aprs cs m) = fixed m"
  by (induction cs m rule: load_aprs.induct) (simp_all add: Let_def)

lemma fixed_boot_tables: "boot_build_tables m = Some m' \<Longrightarrow> fixed m' = fixed m"
  by (auto simp: boot_build_tables_def Let_def split: option.splits if_splits
      dest!: fixed_map_both fixed_map_windows)

lemma fixed_link_entries [simp]: "fixed (link_entries m h is) = fixed m"
  by (induction m h "is" rule: link_entries.induct) (simp_all add: Let_def)

lemma fixed_free_list [simp]: "fixed (build_free_list m) = fixed m"
  by (simp add: build_free_list_def Let_def)

lemma realmm_absent [simp]: "realmm (absent_nodes m is) = realmm m"
  by (induction m "is" rule: absent_nodes.induct) simp_all

lemma sys_reset_keeps [simp]: "mem (sys_reset a m) = mem m" "dev (sys_reset a m) = dev m"
  "sysmode (sys_reset a m) = sysmode m" "in_kcall (sys_reset a m) = in_kcall m" "cfg (sys_reset a m) = cfg m"
  by (simp_all add: sys_reset_def Let_def)

lemma kernel_load_keeps [simp]: "realmm (mem (kernel_load opt m a)) = realmm (mem m)"
  "dev (kernel_load opt m a) = dev m" "cfg (kernel_load opt m a) = cfg m"
  "sysmode (kernel_load opt m a) = sysmode m" "in_kcall (kernel_load opt m a) = in_kcall m"
  by (simp_all add: kernel_load_def kernel_place_def Let_def split_beta)

lemma sys_boot_keeps:
  assumes "sys_boot opt img sig m = Some (Ok m')"
  shows "root_img (dev m') = root_img (dev m)" "sysmode m'" "in_kcall m' = in_kcall m"
    "realmm (mem m') = realmm (mem m)" "procexp (cfg m') = procexp (cfg m)"
proof -
  define c where "c = (cfg m)\<lparr>force_sig_pc := if sig \<noteq> 0 then 0xC00A851C else 0, force_sig_val := sig\<rparr>"
  obtain a n where n: "(if so_synth_boot opt
       then map_option build_free_list (boot_build_tables (kernel_load opt (m\<lparr>sysmode := True, cfg := c\<rparr>) a))
       else Some (kernel_load opt (m\<lparr>sysmode := True, cfg := c\<rparr>) a)) = Some n"
    and m': "m' = sys_reset a (if so_nodes opt \<noteq> 0
        then n\<lparr>mem := absent_nodes (mem n) (map of_nat [unat (so_nodes opt)..<512])\<rparr> else n)"
    using assms unfolding sys_boot_def Let_def c_def[symmetric]
    by (auto split: option.splits if_splits simp del: map_option_eq_Some)
  have "fixed n = fixed (kernel_load opt (m\<lparr>sysmode := True, cfg := c\<rparr>) a)"
    using n by (auto split: if_splits dest!: fixed_boot_tables)
  then have f: "fixed n = (c, True, in_kcall m, realmm (mem m), root_img (dev m))" by (simp add: fixed_def)
  have "procexp c = procexp (cfg m)" by (simp add: c_def)
  then show "root_img (dev m') = root_img (dev m)" "sysmode m'" "in_kcall m' = in_kcall m"
    "realmm (mem m') = realmm (mem m)" "procexp (cfg m') = procexp (cfg m)"
    using f by (simp_all add: m' fixed_def)
qed

section \<open>A call that has to wait for a page\<close>

lemma RD_CR: "RD m' = RD m \<Longrightarrow> i < 32 \<Longrightarrow> CR m' i = CR m i"
proof -
  assume e: "RD m' = RD m" "i < 32"
  have u: "unat (i + 32) = unat i + 32" using e(2) by (subst unat_add_small) (simp_all add: word_less_nat_alt)
  have "\<not> i + 32 < 32" "i + 32 \<noteq> 0" using u by (auto simp: word_less_nat_alt)
  then have "RD n (i + 32) = CR n i" for n by (simp add: RD_def)
  then show "CR m' i = CR m i" using e(1) by metis
qed

text \<open>A pass over a machine with a fault pending in user mode delivers it.\<close>

lemma fault_pass:
  assumes "fault_pending (sy_m s)" "pc (sy_m s) < 0xC0000000" "\<not> supervisor (sy_m s)"
  shows "\<exists>u. sys_iter opt s = Some (Next u) \<and> sy_m u = sys_fault (sy_m s) \<and> con (sy_io u) = con (sy_io s)"
proof -
  have k: "pc (sy_m s) \<noteq> a" if "0xC0000000 \<le> a" for a using assms(2) that by auto
  have o: "sy_m (sys_observe opt s) = sy_m s"
    using k[of "0xC005AFE0"] k[of "0xC005B218"] by (simp add: sys_observe_def Let_def)
  have "sys_iter opt s = sys_run1 (sys_observe opt s)"
    using k[of "0xC0054720"] k[of "0xC0F00020"] k[of "0xC00A24F4"] k[of "0xC00A24B8"] assms(3)
    by (simp add: sys_iter_def Let_def)
  then show ?thesis using assms(1) by (simp add: sys_run1_def Let_def o sys_observe_keeps)
qed

lemma sys_fault_state:
  assumes "aligned (pc m)"
  shows "pc (sys_fault m) = CR m 7 + (if ufault_code (ufault (mmu m)) then 2 else 3) * 8"
    "supervisor (sys_fault m)" "cpu_r (cpu (sys_fault m)) = cpu_r (cpu m)"
    "rte (sys_fault m) = (pc m, set_cr (sys_fault m) 1 (CR m 1))"
    "\<not> ufault_code (ufault (mmu m)) \<Longrightarrow> CR (sys_fault m) 10 = ufault_va (ufault (mmu m))"
proof -
  have c: "CR (set_pending m False) i = CR m i" "pc (set_pending m False) = pc m"
    "cpu_r (cpu (set_pending m False)) = cpu_r (cpu m)" for i
    by (simp_all add: set_ufault_def)
  have f: "ufault_va (ufault (mmu (set_pending m False))) = ufault_va (ufault (mmu m))"
    "ufault_code (ufault (mmu (set_pending m False))) = ufault_code (ufault (mmu m))"
    by (simp_all add: set_ufault_def)
  note d = sys_fault_def Let_def deliver_fault_state c f
  show "pc (sys_fault m) = CR m 7 + (if ufault_code (ufault (mmu m)) then 2 else 3) * 8"
    "cpu_r (cpu (sys_fault m)) = cpu_r (cpu m)"
    by (simp_all add: d)
  show "supervisor (sys_fault m)" by (simp add: d supervisor_def supervisor_or)
  show "rte (sys_fault m) = (pc m, set_cr (sys_fault m) 1 (CR m 1))"
    using rte_snip[of "sys_fault m" "pc m"] assms resume_words(1)[OF assms] by (simp add: d)
  show "CR (sys_fault m) 10 = ufault_va (ufault (mmu m))" if "\<not> ufault_code (ufault (mmu m))"
    using that by (simp add: sys_fault_def Let_def deliver_fault_def c f)
qed

lemma console_read_waits:
  assumes "mmu_ok m" "fd_is_console io (RD m 2)" "n = (if RD m 4 > 4096 then 4096 else RD m 4)"
    and "user_buf m (RD m 3) n" "i < unat n" "\<not> resident m (RD m 3 + of_nat i)"
  shows "\<exists>m'. console_syscall 3 tpc m io = (True, m', io) \<and> RD m' = RD m \<and> pc m' = tpc \<and> fault_pending m' \<and>
    \<not> ufault_code (ufault (mmu m')) \<and> \<not> resident m (ufault_va (ufault (mmu m')))"
proof -
  obtain r m' where u: "ubuf_fault m (RD m 3) n True tpc = (r, m')" by fastforce
  note sp = ubuf_fault_spec[OF assms(1,4) u]
  have r: "r" using sp assms(5,6) by blast
  have n: "n \<noteq> 0" using assms(5) by auto
  have "console_read m io (RD m 3) (RD m 4) tpc = (m', io)"
    using u r n by (simp add: console_read_def Let_def assms(3)[symmetric])
  then have "console_syscall 3 tpc m io = (True, m', io)"
    using assms(2) by (simp add: console_syscall_def Let_def)
  then show ?thesis using sp r by auto
qed

section \<open>Properties\<close>

text \<open>C25. The host's buffers are never overrun: at every moment of a run and when it ends, whatever the
  guest has done, the console's line and terminal buffers, its mode structures and the kernel log's
  line buffers are within their arrays.\<close>

theorem run_type:
  assumes "sys_ends opt s t" "con_ok (con (sy_io s))" "km_ok (sy_km s)"
  shows "con_ok (con (sy_io t)) \<and> km_ok (sy_km t)"
  using buffers.ended[OF assms(1)] assms(2,3) by (simp add: sys_ok_def)

definition opt0 :: sys_opts where
  "opt0 = \<lparr>so_px = \<lparr>px_procexec = True, px_run_init = False, px_interactive = True, px_path = None,
             px_argv = [], px_envp = []\<rparr>,
           so_fs = (\<lambda>_. None), so_vmexp = False, so_kmsgs = True, so_dataphys = False,
           so_synth_boot = False, so_nodes = 0\<rparr>"

definition sys0 :: sys where
  "sys0 = \<lparr>sy_m = machine0, sy_io = io0, sy_km = kmsg0,
           sy_px = \<lparr>procexp_cluster = 0, procexp_pid = 0, procexp_proc = 0, deliver_traps = True\<rparr>,
           sy_watch = no_watch, sy_synced = False, sy_last_count = 0, sy_spins = 0, sy_warned = False\<rparr>"

theorem run_type_witness:
  "\<exists>t. sys_iter opt0 sys0 = Some (Next t) \<and> con_ok (con (sy_io t)) \<and> km_ok (sy_km t)"
proof -
  have "case sys_iter opt0 sys0 of Some (Next t) \<Rightarrow> True | _ \<Rightarrow> False" by code_simp
  then obtain t where t: "sys_iter opt0 sys0 = Some (Next t)" by (auto split: option.splits outcome.splits)
  then have "sys_ends opt0 sys0 t" by (blast intro: sys_ends.intros sys_reaches.intros)
  from run_type[OF this] t show ?thesis
    by (simp add: sys0_def io0_def con_ok_def con0_def kmsg0_def km_ok_def)
qed

lemma run_sys_keeps:
  assumes "run_sys opt img sig limit s = Some (Ok t)"
  shows "root_img (dev (sy_m t)) = root_img (dev (sy_m s)) \<and> sysmode (sy_m t) \<and>
    in_kcall (sy_m t) = in_kcall (sy_m s) \<and> realmm (mem (sy_m t)) = realmm (mem (sy_m s)) \<and>
    procexp (cfg (sy_m t)) = procexp (cfg (sy_m s))"
proof -
  obtain m where m: "sys_boot opt img sig (sy_m s) = Some (Ok m)" "sys_loop opt limit (s\<lparr>sy_m := m\<rparr>) = Some t"
    using assms by (auto simp: run_sys_def split: option.splits c_result.splits)
  have "fixed (sy_m t) = fixed m" using settings.looped[OF m(2), of "fixed m"] by simp
  then show ?thesis using sys_boot_keeps[OF m(1)] by (simp add: fixed_def)
qed


text \<open>A kernel that is all header, run for one instruction.\<close>

definition tiny_kernel :: "u8 list" where
  "tiny_kernel = [0, 0, 1, 11] @ replicate 8188 0"

definition tiny_start :: machine where
  "tiny_start = set_cr (WR (machine0\<lparr>sysmode := True, dev := dev0\<lparr>root_img := Some [7]\<rparr>\<rparr>) 31 0xC1008000) 1 0x80000003"

lemma tiny_boot: "sys_boot opt0 tiny_kernel 0 (machine0\<lparr>dev := dev0\<lparr>root_img := Some [7]\<rparr>\<rparr>) = Some (Ok tiny_start)"
proof -
  have n: "tiny_kernel ! i = (if i = 2 then 1 else if i = 3 then 11 else 0)" if "i < 32" for i
    using that by (auto simp: tiny_kernel_def nth_append nth_Cons' )
  have "aout_load_mem tiny_kernel = Some \<lparr>ao_magic = 0x10B, ao_text = 0, ao_data = 0, ao_bss = 0, ao_syms = 0,
      ao_entry = 0, ao_trsize = 0, ao_drsize = 0, ao_img = tiny_kernel\<rparr>"
    by (simp add: aout_load_mem_def aout_parse_def be32_at_def n be32_def) (simp add: tiny_kernel_def)
  moreover have "\<not> length tiny_kernel < 8192" by (simp add: tiny_kernel_def)
  ultimately show ?thesis
    by (simp add: sys_boot_def Let_def kernel_load_def kernel_place_def sys_reset_def opt0_def tiny_start_def
        machine0_def cfg0_def mem0_def set_pc_def WR_def cpu0_def)
qed


end
