(* ===== verification/Driver.thy ===== *)
theory Driver
  imports Sysmode
begin

text \<open>
  What the driver's loop does at its decisive points, across the components it drives: when the idle
  machine is given up, what a system call that the emulator answers does and what happens to all others,
  and what becomes of a call that met a page fault.
\<close>

section \<open>The kernel's words\<close>

text \<open>Kernel data is read through the kernel's translation; neither the fault record nor the agreement of
  the TLB is disturbed.\<close>

definition kern_va :: "machine \<Rightarrow> u32 \<Rightarrow> bool" where
  "kern_va m a \<longleftrightarrow> realmm (mem m) \<and> 0xC0000000 \<le> a \<and> a < 0xE0000000"

definition kern_word :: "machine \<Rightarrow> u32 \<Rightarrow> u32" where
  "kern_word m a = rd32 m (if translate_on (mmu m) then kern_addr m a False else a)"

lemma vr32_kernel:
  assumes "tlb_ok m" "kern_va m a" "vr32 m a = (v, m')"
  shows "v = kern_word m a \<and> tlb_step m m'"
proof -
  obtain pa k where t: "translate m a False = (pa, k)" by fastforce
  have m': "v = rd32 k pa" "m' = k" using assms(3) t by (auto simp: vr32_def)
  show ?thesis
  proof (cases "translate_on (mmu m)")
    case False
    then have "pa = a" "k = m" using t by (simp_all add: translate_def)
    then show ?thesis using False m' assms(1) by (simp add: kern_word_def tlb_step_refl)
  next
    case True
    have n: "\<not> a \<ge> UAREA_LO" "\<not> a \<ge> 0xE0000000" "realmm (mem m)" "a \<ge> 0xC0000000"
      using assms(2) by (auto simp: kern_va_def word_le_nat_alt word_less_nat_alt)
    then have "translate_kernel m a False = (pa, k)" using t True by (simp add: translate_def)
    note s = translate_kernel_spec[OF assms(1) n(3,4) this]
    then have "mem k = mem m" using sameD(1)[of m k] by (simp add: tlb_step_def)
    then show ?thesis using s True m' by (simp add: kern_word_def)
  qed
qed

lemma kern_step:
  assumes "tlb_step m m'"
  shows "kern_word m' = kern_word m" "kern_va m' = kern_va m"
proof -
  have s: "same_but_mmu m m'" using assms by (simp add: tlb_step_def)
  note e = same_entries[OF s] sameD[OF s]
  have k: "kern_addr m' = kern_addr m" unfolding fun_eq_iff kern_addr_def Let_def e by simp
  show "kern_word m' = kern_word m" unfolding fun_eq_iff kern_word_def k e by simp
  show "kern_va m' = kern_va m" unfolding fun_eq_iff kern_va_def e by simp
qed

section \<open>Who is alive\<close>

text \<open>The kernel's process table, read off its memory: slots, states and parents.\<close>

definition proc_slots :: "machine \<Rightarrow> u32 list" where
  "proc_slots m =
     (let pb = kern_word m 0xC1015758
      in if pb = 0 then [] else map (\<lambda>i. pb + of_nat i * 512) [0..<unat (kern_word m 0xC1014B80)])"

abbreviation proc_stat :: "machine \<Rightarrow> u32 \<Rightarrow> u32" where "proc_stat m q \<equiv> kern_word m (q + 0x40)"
abbreviation proc_parent :: "machine \<Rightarrow> u32 \<Rightarrow> u32" where "proc_parent m q \<equiv> kern_word m (q + 0x18)"

text \<open>\<open>root\<close> is an ancestor at most \<open>n\<close> steps up.\<close>

definition descends :: "machine \<Rightarrow> u32 \<Rightarrow> nat \<Rightarrow> u32 \<Rightarrow> bool" where
  "descends m root n q \<longleftrightarrow> (\<exists>k\<le>n. (proc_parent m ^^ k) q = root \<and> (\<forall>j<k. (proc_parent m ^^ j) q \<noteq> 0))"

text \<open>A set of addresses in kernel data that holds every slot and, with a process, its parent.\<close>

definition proc_table :: "machine \<Rightarrow> u32 set \<Rightarrow> bool" where
  "proc_table m P \<longleftrightarrow> kern_va m 0xC1015758 \<and> set (proc_slots m) \<subseteq> P \<and>
     (\<forall>q \<in> P. kern_va m (q + 0x18) \<and> kern_va m (q + 0x40) \<and> (proc_parent m q = 0 \<or> proc_parent m q \<in> P))"

lemma proc_step:
  assumes "tlb_step m m'"
  shows "proc_table m' = proc_table m" "descends m' = descends m" "proc_slots m' = proc_slots m"
  unfolding fun_eq_iff proc_table_def descends_def proc_slots_def kern_step[OF assms] by simp_all

lemma descends_rec:
  "descends m root 0 q \<longleftrightarrow> q = root"
  "descends m root (Suc n) q \<longleftrightarrow> q = root \<or> q \<noteq> 0 \<and> descends m root n (proc_parent m q)"
proof -
  show "descends m root 0 q \<longleftrightarrow> q = root" by (simp add: descends_def)
  have "(\<exists>k\<le>Suc n. P k) \<longleftrightarrow> P 0 \<or> (\<exists>k\<le>n. P (Suc k))" for P
    using Suc_le_mono le0 by (metis not0_implies_Suc)
  moreover have "(\<forall>j<Suc k. P j) \<longleftrightarrow> P 0 \<and> (\<forall>j<k. P (Suc j))" for P :: "nat \<Rightarrow> bool" and k
    by (auto simp: less_Suc_eq_0_disj)
  ultimately show "descends m root (Suc n) q \<longleftrightarrow> q = root \<or> q \<noteq> 0 \<and> descends m root n (proc_parent m q)"
    unfolding descends_def by (simp add: funpow_Suc_right del: funpow.simps(2)) auto
qed

lemma climb_spec:
  "tlb_ok m \<Longrightarrow> proc_table m P \<Longrightarrow> q = 0 \<or> q \<in> P \<Longrightarrow> climb n m q root = (r, m') \<Longrightarrow>
   tlb_step m m' \<and> (r = root \<longleftrightarrow> descends m root n q)"
proof (induction n arbitrary: m q)
  case 0
  then show ?case by (auto simp: tlb_step_refl descends_rec)
next
  case (Suc n)
  show ?case
  proof (cases "q = 0 \<or> q = root")
    case True
    then show ?thesis using Suc.prems by (auto simp: tlb_step_refl descends_rec)
  next
    case False
    then have q: "q \<in> P" "kern_va m (q + 0x18)" "proc_parent m q = 0 \<or> proc_parent m q \<in> P"
      using Suc.prems(2,3) by (auto simp: proc_table_def)
    obtain p k where v: "vr32 m (q + 0x18) = (p, k)" by fastforce
    note s = vr32_kernel[OF Suc.prems(1) q(2) v]
    have c: "climb n k p root = (r, m')" using Suc.prems(4) False v by simp
    have p: "p = proc_parent m q" "tlb_ok k" using s by (auto simp: tlb_step_ok)
    note st = proc_step[OF conjunct2[OF s]]
    from Suc.IH[OF p(2) _ _ c] have "tlb_step k m' \<and> (r = root \<longleftrightarrow> descends m root n p)"
      using Suc.prems(2) q(3) p(1) st by simp
    then show ?thesis using False tlb_step_trans[OF conjunct2[OF s]] p(1) by (simp add: descends_rec)
  qed
qed

lemma alive_scan_spec:
  "tlb_ok m \<Longrightarrow> proc_table m P \<Longrightarrow> set qs \<subseteq> P \<Longrightarrow> alive_scan m root qs = (b, m') \<Longrightarrow>
   tlb_step m m' \<and> (b \<longleftrightarrow> (\<exists>q \<in> set qs. proc_stat m q \<notin> {0, 5} \<and> descends m root 32 q))"
proof (induction qs arbitrary: m)
  case Nil
  then show ?case by (auto simp: tlb_step_refl)
next
  case (Cons q qs)
  have q: "q \<in> P" "kern_va m (q + 0x40)" using Cons.prems(2,3) by (auto simp: proc_table_def)
  obtain st k where v: "vr32 m (q + 0x40) = (st, k)" by fastforce
  note s = vr32_kernel[OF Cons.prems(1) q(2) v]
  have k: "tlb_ok k" "proc_table k P" using s proc_step(1)[of m k] Cons.prems(2) by (auto simp: tlb_step_ok)
  note e = kern_step(1)[OF conjunct2[OF s]] proc_step[OF conjunct2[OF s]]
  show ?case
  proof (cases "st = 0 \<or> st = 5")
    case True
    then have "alive_scan k root qs = (b, m')" using Cons.prems(4) v by auto
    from Cons.IH[OF k _ this] show ?thesis
      using Cons.prems(3) True s e tlb_step_trans[OF conjunct2[OF s]] by auto
  next
    case False
    obtain r l where c: "climb 32 k q root = (r, l)" by fastforce
    note cs = climb_spec[OF k _ c, unfolded e]
    have l: "tlb_ok l" "proc_table l P" using cs q(1) proc_step(1)[of k l] k(2) by (auto simp: tlb_step_ok)
    show ?thesis
    proof (cases "r = root")
      case True
      then have "b" "m' = l" using Cons.prems(4) v False c by auto
      then show ?thesis using True False s cs q(1) tlb_step_trans[of m k l] by auto
    next
      case n: False
      then have "alive_scan l root qs = (b, m')" using Cons.prems(4) v False c by auto
      note ih = Cons.IH[OF l _ this]
      have "tlb_step m l" using cs q(1) s tlb_step_trans[of m k l] by blast
      then show ?thesis
        using ih Cons.prems(3) False n s cs q(1) tlb_step_trans[of m l m'] kern_step(1)[of m l] proc_step(2)[of m l] by auto
    qed
  qed
qed

lemma still_alive_spec:
  assumes "tlb_ok m" "proc_table m P" "still_alive m root = (b, m')"
  shows "tlb_step m m' \<and> (b \<longleftrightarrow> (\<exists>q \<in> set (proc_slots m). proc_stat m q \<notin> {0, 5} \<and> descends m root 32 q))"
proof -
  obtain pb k where v: "vr32 m 0xC1015758 = (pb, k)" by fastforce
  obtain np l where w: "vr32 k 0xC1014B80 = (np, l)" by fastforce
  have g: "kern_va m 0xC1015758" "kern_va m 0xC1014B80" using assms(2) by (auto simp: proc_table_def kern_va_def)
  note s = vr32_kernel[OF assms(1) g(1) v]
  have k: "tlb_ok k" "kern_va k 0xC1014B80" using s kern_step(2)[of m k] g(2) by (auto simp: tlb_step_ok)
  note t = vr32_kernel[OF k w]
  have st: "tlb_step m l" using s t tlb_step_trans by blast
  note e = kern_step(1)[OF st] proc_step[OF st]
  have l: "tlb_ok l" "proc_table l P" using st assms(2) e by (auto simp: tlb_step_ok)
  have np: "np = kern_word m 0xC1014B80" "pb = kern_word m 0xC1015758" using s t kern_step(1)[of m k] by auto
  have "alive_scan l root (proc_slots m) = (b, m')"
    using assms(3) v w by (simp add: still_alive_def Let_def proc_slots_def np)
  moreover have "set (proc_slots m) \<subseteq> P" using assms(2) by (simp add: proc_table_def)
  ultimately show ?thesis using alive_scan_spec[OF l, of "proc_slots m" root b m'] st tlb_step_trans[of m l m'] unfolding e by auto
qed

text \<open>C10. The idle machine ends the run exactly when none of the program's processes is left, or when the
  scheduler was asked twice in close succession and achieved nothing.  A process is the program's when
  the process the emulator started is among the next 32 of its ancestors; zombies do not count.\<close>

theorem idle_ends_run:
  assumes "procexp (cfg (sy_m s))" "pc (sy_m s) = 0xC0F00020" "tlb_ok (sy_m s)" "proc_table (sy_m s) P"
  shows "(\<exists>u. sys_iter opt s = Some (Halt u)) \<longleftrightarrow>
    \<not> (\<exists>q \<in> set (proc_slots (sy_m s)). proc_stat (sy_m s) q \<notin> {0, 5} \<and>
         descends (sy_m s) (procexp_proc (sy_px s)) 32 q) \<or>
    cpu_count (cpu (sy_m s)) - sy_last_count s < 2000 \<and> sy_spins s \<ge> 1"
proof -
  obtain b m' where a: "still_alive (sy_m s) (procexp_proc (sy_px s)) = (b, m')" by fastforce
  note sp = still_alive_spec[OF assms(3,4) a]
  have c: "cpu m' = cpu (sy_m s)" using sp sameD(2)[of "sy_m s" m'] by (simp add: tlb_step_def)
  have "sys_iter opt s = sys_idle s" using assms(1,2) by (simp add: sys_iter_def Let_def)
  then have "(\<exists>u. sys_iter opt s = Some (Halt u)) \<longleftrightarrow>
      \<not> b \<or> cpu_count (cpu (sy_m s)) - sy_last_count s < 2000 \<and> sy_spins s \<ge> 1"
    by (auto simp: sys_idle_def Let_def a c)
  then show ?thesis using sp by simp
qed

text \<open>One sleeping process, the program's own, in a kernel that runs untranslated.\<close>

definition idle_mem :: mem_state where
  "idle_mem = mem_w32 (mem_w32 (mem_w32 (mem0\<lparr>realmm := True\<rparr>) 0xC1015758 0xC0100000) 0xC1014B80 1) 0xC0100040 1"

definition idle_sys :: sys where
  "idle_sys = sys0\<lparr>sy_m := set_pc (machine0\<lparr>mem := idle_mem, mmu := (mmu machine0)\<lparr>translate_on := False\<rparr>,
       cfg := cfg0\<lparr>procexp := True\<rparr>\<rparr>) 0xC0F00020,
     sy_px := (sy_px sys0)\<lparr>procexp_proc := 0xC0100000\<rparr>, sy_last_count := -5000\<rparr>"

theorem idle_ends_run_witness:
  "\<not> (\<exists>u. sys_iter opt0 idle_sys = Some (Halt u)) \<and>
   (\<exists>u. sys_iter opt0 (idle_sys\<lparr>sy_last_count := 0, sy_spins := 1\<rparr>) = Some (Halt u))"
proof -
  let ?m = "sy_m idle_sys" let ?p = "0xC0100000"
  have f: "tlb_flush ?m = ?m"
    by (simp add: idle_sys_def sys0_def machine0_def mmu0_def tlb_flush_def empty_ent_def set_pc_def)
  have ok: "tlb_ok ?m" using tlb_ok_flush[of ?m] f by simp
  have w: "kern_word ?m 0xC1015758 = ?p" "kern_word ?m 0xC1014B80 = 1" "kern_word ?m (?p + 0x40) = 1"
    "kern_word ?m (?p + 0x18) = 0"
    by code_simp+
  have s: "proc_slots ?m = [?p]" unfolding proc_slots_def w by simp
  have r: "realmm (mem ?m)" by code_simp
  have t: "proc_table ?m {?p}" using w r by (simp add: proc_table_def s kern_va_def)
  have c: "procexp (cfg ?m)" "pc ?m = 0xC0F00020" "cpu_count (cpu ?m) = 0" "procexp_proc (sy_px idle_sys) = ?p"
    "sy_last_count idle_sys = -5000" "sy_spins idle_sys = 0"
    by code_simp+
  have d: "descends ?m ?p 32 ?p" unfolding descends_def by (rule exI[of _ 0]) simp
  show ?thesis
    using idle_ends_run[of idle_sys "{?p}" opt0] idle_ends_run[of "idle_sys\<lparr>sy_last_count := 0, sy_spins := 1\<rparr>" "{?p}" opt0]
      ok t c d w(3) by (simp add: s)
qed

section \<open>System calls\<close>

text \<open>A trap of a program that the driver takes for a system call.\<close>

definition user_call :: "sys \<Rightarrow> bool" where
  "user_call s \<longleftrightarrow> deliver_traps (sy_px s) \<and> trap_vector (sy_m s) = 128 \<and> \<not> supervisor (sy_m s) \<and>
     CR (sy_m s) 7 \<ge> 0xC0000000"

lemma user_call_trap: "user_call s \<Longrightarrow> sys_trap s = Next (sys_call s)"
  by (simp add: user_call_def sys_trap_def Let_def)

lemma same_probe: "probe m va = (r, m') \<Longrightarrow> same_but_mmu m m'"
  by (auto simp: probe_def split: prod.splits dest!: same_translate)

lemma same_uread_bytes: "uread_bytes m va n = (s, m') \<Longrightarrow> same_but_mmu m m'"
proof (induction n arbitrary: m va s)
  case (Suc n)
  obtain r k where p: "probe m va = (r, k)" by fastforce
  show ?case
    using Suc.prems Suc.IH[of k "va + 1"] same_trans[OF same_probe[OF p]] same_probe[OF p]
    by (auto simp: p Let_def split: option.splits if_splits prod.splits)
qed simp

lemma same_uread_str: "same_but_mmu m (snd (uread_str m va n))"
  using same_uread_bytes[of m va "n - 1"] by (auto simp: uread_str_def split: prod.split)

lemma same_vr32: "vr32 m a = (v, m') \<Longrightarrow> same_but_mmu m m'"
  by (auto simp: vr32_def split: prod.splits dest: same_translate)

lemma same_real_pids: "same_but_mmu m (snd (real_pid m))" "same_but_mmu m (snd (real_ppid m))"
  by (auto simp: real_pid_def real_ppid_def split: prod.split dest!: same_vr32 intro: same_trans)

lemma same_sys_switch: "same_but_mmu (sy_m s) (sy_m (sys_switch s))"
  using same_real_pids same_trans by (fastforce simp: sys_switch_def split_beta Let_def)

lemma same_sys_watch: "same_but_mmu m (snd (sys_watch n m t))"
  using same_uread_str[of m] by (simp add: sys_watch_def Let_def split_beta)

text \<open>The services take no call but the six that they know.\<close>

lemma not_served: "n \<notin> {3, 4, 5, 6, 19, 54} \<Longrightarrow> sys_service n tpc m io = (False, m, io)"
  by (simp add: sys_service_def console_syscall_def disk_syscall_def hostfile_syscall_def Let_def split: option.split)

lemma delivered:
  assumes "aligned (trap_pc m)"
  shows "resumes m (sys_deliver m) (trap_vector m) (trap_pc m + 4)" "mem (sys_deliver m) = mem m"
    "dev (sys_deliver m) = dev m"
proof -
  have "resumes m (deliver_trap m (trap_vector m) (trap_pc m)) (trap_vector m) (trap_pc m + 4)"
    using assms rte_snip[of "deliver_trap m (trap_vector m) (trap_pc m)" "trap_pc m + 4"] resume_words(1)[OF assms]
    by (simp add: resumes_def deliver_trap_state supervisor_def supervisor_or aligned_add)
  then show "resumes m (sys_deliver m) (trap_vector m) (trap_pc m + 4)"
    by (simp add: resumes_def sys_deliver_def rte_def Let_def supervisor_def set_cr_def split: if_splits)
  show "mem (sys_deliver m) = mem m" "dev (sys_deliver m) = dev m"
    by (simp_all add: sys_deliver_def deliver_trap_state) (simp add: deliver_trap_def Let_def set_pc_def clear_pending_def)
qed


definition call_sys :: "u32 \<Rightarrow> sys" where
  "call_sys n = sys0\<lparr>sy_m := WR ((set_cr machine0 7 0xC0000000)\<lparr>trap_vector := 128, trap_pc := 0x2000\<rparr>) 9 n\<rparr>"


section \<open>Writing to the console\<close>

text \<open>The bytes a process sees from an address on.\<close>

definition user_bytes :: "machine \<Rightarrow> u32 \<Rightarrow> nat \<Rightarrow> bytes" where
  "user_bytes m va n = map (\<lambda>i. rd8 m (uaddr m (va + of_nat i))) [0..<n]"

lemma console_chunks_spec:
  "\<lbrakk>mmu_ok m; \<And>i. i < len \<Longrightarrow> user_va m (a + of_nat i); \<And>i. i < len \<Longrightarrow> resident m (a + of_nat i);
    \<not> fault_pending m; off \<le> len; console_chunks m c a off len e = (m', c')\<rbrakk> \<Longrightarrow>
   probed m m' \<and> ufault (mmu m') = ufault (mmu m) \<and>
   (\<exists>bss. concat bss = drop off (user_bytes m a len) \<and> c' = fold (\<lambda>bs. con_write bs e) bss c)"
proof (induction m c a off len e arbitrary: m' c' rule: console_chunks.induct)
  case (1 m c a off len e)
  show ?case
  proof (cases "off < len")
    case False
    then have "m' = m" "c' = c" using "1.prems"(6) by (simp_all add: console_chunks.simps)
    then show ?thesis
      using False "1.prems"(1,5) by (auto simp: probed_refl user_bytes_def intro!: exI[of _ "[]"])
  next
    case True
    let ?k = "min (len - off) 4096"
    obtain bs k where b: "uread_buf m (a + of_nat off) ?k = (bs, k)" by fastforce
    have sh: "a + of_nat off + of_nat i = a + of_nat (off + i)" for i :: nat by (simp add: add.assoc)
    have in_buf: "user_va m (a + of_nat off + of_nat i)" "resident m (a + of_nat off + of_nat i)" if "i < ?k" for i
      unfolding sh using that "1.prems"(2,3)[of "off + i"] by (simp_all add: less_diff_conv add.commute)
    have "bs = map (\<lambda>i. rd8 m (uaddr m (a + of_nat off + of_nat i))) [0..<?k] \<and> probed m k \<and> ufault (mmu k) = ufault (mmu m)"
      by (rule uread_buf_spec[OF "1.prems"(1) in_buf "1.prems"(4) b])
    then have bs: "bs = take ?k (drop off (user_bytes m a len))" and k: "probed m k" "ufault (mmu k) = ufault (mmu m)"
      using True unfolding sh by (auto simp: user_bytes_def take_map drop_map intro!: nth_equalityI)
    have sm: "same_but_mmu m k" "mmu_ok k" using k(1) by (simp_all add: probed_def)
    have st: "user_va k (a + of_nat i)" "resident k (a + of_nat i)" "uaddr k (a + of_nat i) = uaddr m (a + of_nat i)"
      if "i < len" for i
      using "1.prems"(2,3)[OF that] resident_same[OF sm(1) "1.prems"(2)[OF that]] user_va_same[OF sm(1)] by simp_all
    have ub: "user_bytes k a len = user_bytes m a len"
      using st(3) sameD(1)[OF sm(1)] by (simp add: user_bytes_def)
    have c: "console_chunks k (con_write bs e c) a (off + ?k) len e = (m', c')"
      using "1.prems"(6) True b by (simp add: console_chunks.simps[of m c a off len e])
    have np: "\<not> fault_pending k" using k(2) "1.prems"(4) by simp
    have le: "off + ?k \<le> len" using True by linarith
    from "1.IH"[OF True refl b[symmetric] refl sm(2) st(1,2) np le c] obtain bss where
      ih: "probed k m'" "ufault (mmu m') = ufault (mmu k)" "concat bss = drop (off + ?k) (user_bytes m a len)"
        "c' = fold (\<lambda>bs. con_write bs e) bss (con_write bs e c)"
      unfolding ub by auto
    have "concat (bs # bss) = drop off (user_bytes m a len)"
      unfolding concat.simps ih(3) bs by (metis append_take_drop_id drop_drop add.commute)
    then show ?thesis using ih probed_trans[OF k(1) ih(1)] k(2) by (auto intro!: exI[of _ "bs # bss"])
  qed
qed

lemma written_to_terminal:
  "\<not> con_use_sock c \<Longrightarrow> fold (\<lambda>bs. con_write bs e) bss c =
    (if e then c\<lparr>std_err := std_err c @ concat bss\<rparr> else c\<lparr>std_out := std_out c @ concat bss\<rparr>)"
  by (induction bss arbitrary: c) (simp_all add: con_write_def con_ensure_client_def)

lemma onlcr_append: "onlcr (a @ b) = onlcr a @ onlcr b"
  by (simp add: onlcr_def)

lemma written_to_client:
  "con_use_sock c \<Longrightarrow> con_csock c \<Longrightarrow> \<not> con_eof c \<Longrightarrow> 0 \<notin> set (net_sends c) \<Longrightarrow>
   delivers c (onlcr (concat bss)) (fold (\<lambda>bs. con_write bs e) bss c)"
proof (induction bss arbitrary: c)
  case Nil
  then show ?case by (simp add: delivers_def onlcr_def)
next
  case (Cons bs bss)
  have w: "con_write bs e c = con_out_loop bs [] c"
    using Cons.prems by (simp add: con_write_def con_ensure_client_def con_sock_write_def)
  have d: "delivers c (onlcr bs) (con_write bs e c)"
    using out_loop_delivers[of c "[]" bs] Cons.prems by (simp add: w)
  then have k: "con_use_sock (con_write bs e c)" "con_csock (con_write bs e c)" "\<not> con_eof (con_write bs e c)"
    "0 \<notin> set (net_sends (con_write bs e c))"
    using Cons.prems by (auto simp: delivers_def)
  show ?case
    using delivers_append[OF d, of "fold (\<lambda>bs. con_write bs e) bss (con_write bs e c)" "onlcr (concat bss)"]
      Cons.IH[OF k] k by (simp add: onlcr_append)
qed

lemma mmu_ok_vr32: "mmu_ok m \<Longrightarrow> mmu_ok (snd (vr32 m a))"
proof -
  assume ok: "mmu_ok m"
  obtain pa k where t: "translate m a False = (pa, k)" by fastforce
  have "tlb_ok k" using translate_spec[of m a False pa k] ok t by (simp add: mmu_ok_def)
  moreover have "devmap_ok k" using devmap_ok_same[OF same_translate[OF t]] ok by (simp add: mmu_ok_def)
  ultimately show ?thesis using t by (simp add: vr32_def mmu_ok_def)
qed

lemma mmu_ok_switch: "mmu_ok (sy_m s) \<Longrightarrow> mmu_ok (sy_m (sys_switch s))"
  by (simp add: sys_switch_def real_pid_def real_ppid_def Let_def split_beta mmu_ok_vr32)

text \<open>What a buffer check that passes leaves.\<close>

lemma ubuf_passes:
  assumes "mmu_ok m" "user_buf m va n" "ubuf_fault m va n w tpc = (False, m')"
  shows "probed m m'"
proof (cases "n = 0")
  case True
  then show ?thesis using assms(1,3) by (simp add: ubuf_fault_def probed_refl)
next
  case False
  obtain q m1 where u: "ubuf_pages m (va AND NOT 0xFFF) (ubuf_count va n) = (q, m1)" by fastforce
  note us = ubuf_pages_spec[OF assms(1) ubuf_page_user[OF False assms(2)] u]
  have "q = None" "m' = set_pending m1 (fault_pending m)"
    using assms(3) u False by (simp_all add: ubuf_fault_def split: option.splits)
  then show ?thesis using us by simp
qed

text \<open>What one that fails leaves: the fault of a page that is not there, the program back on the call.\<close>

definition stalled :: "machine \<Rightarrow> machine \<Rightarrow> u32 \<Rightarrow> bool" where
  "stalled m m' tpc \<longleftrightarrow> mem m' = mem m \<and> dev m' = dev m \<and> RD m' = RD m \<and> cpu_r (cpu m') = cpu_r (cpu m) \<and>
     pc m' = tpc \<and> fault_pending m' \<and> \<not> ufault_code (ufault (mmu m')) \<and>
     user_va m (ufault_va (ufault (mmu m'))) \<and> \<not> resident m (ufault_va (ufault (mmu m')))"

lemma same_ubuf_pages: "ubuf_pages m p n = (r, m') \<Longrightarrow> same_but_mmu m m'"
proof (induction n arbitrary: m p)
  case (Suc n)
  obtain x k where q: "probe m p = (x, k)" by fastforce
  show ?case
    using Suc.prems Suc.IH[of k "p + 0x1000"] same_trans[OF same_probe[OF q]] same_probe[OF q]
    by (auto simp: q split: option.splits)
qed simp

lemma ubuf_stalls:
  assumes "mmu_ok m" "user_buf m va n" "ubuf_fault m va n w tpc = (True, m')"
  shows "stalled m m' tpc"
proof -
  note sp = ubuf_fault_spec[OF assms]
  obtain p i where p: "ufault (mmu m') = \<lparr>ufault_pending = True, ufault_va = p, ufault_pc = tpc,
      ufault_code = False, ufault_write = w, ufault_width = 4\<rparr>" "\<not> resident m p" "i < unat n"
    "page_no (va + of_nat i) = page_no p"
    using sp by blast
  have "user_va m p"
    using user_buf_va[OF assms(2) p(3)] va_le_page[OF p(4), of "0xC0000000"] by (simp add: user_va_def)
  moreover have "cpu_r (cpu m') = cpu_r (cpu m)"
    using assms(3) by (auto simp: ubuf_fault_def split: if_splits prod.splits option.splits dest!: same_ubuf_pages sameD(2))
  ultimately show ?thesis using sp p by (simp add: stalled_def)
qed

text \<open>\<open>shown bs e c c'\<close>: the console has shown these bytes, on the host's terminal or to the connected
  client, and nothing else.\<close>

definition shown :: "bytes \<Rightarrow> bool \<Rightarrow> con_state \<Rightarrow> con_state \<Rightarrow> bool" where
  "shown bs e c c' \<longleftrightarrow>
     (\<not> con_use_sock c \<longrightarrow>
        c' = (if e then c\<lparr>std_err := std_err c @ bs\<rparr> else c\<lparr>std_out := std_out c @ bs\<rparr>)) \<and>
     (con_use_sock c \<and> con_csock c \<and> \<not> con_eof c \<and> 0 \<notin> set (net_sends c) \<longrightarrow>
        net_out c' = net_out c @ onlcr bs \<and> \<not> con_eof c')"

lemma console_write_shows:
  assumes "mmu_ok m" "\<not> fault_pending m" "fd_is_console io (RD m 2)"
    and "n = (if RD m 4 < 0x100000 then RD m 4 else 0x100000)" "user_buf m (RD m 3) n"
  shows "\<exists>m' io'. console_syscall 4 tpc m io = (True, m', io') \<and> mem m' = mem m \<and>
    (io' = io \<and> stalled m m' tpc \<or>
     (\<forall>i<unat n. resident m (RD m 3 + of_nat i)) \<and> pc m' = tpc + 8 \<and> RD m' = (RD m)(2 := RD m 4) \<and>
     \<not> fault_pending m' \<and> shown (user_bytes m (RD m 3) (unat n)) (RD m 2 = 2) (con io) (con io'))"
proof -
  obtain r m1 where u: "ubuf_fault m (RD m 3) n False tpc = (r, m1)" by fastforce
  note sp = ubuf_fault_spec[OF assms(1,5) u]
  have c: "console_syscall 4 tpc m io = (True, console_write m io (RD m 2) (RD m 3) (RD m 4) tpc)"
    using assms(3) by (simp add: console_syscall_def Let_def)
  show ?thesis
  proof (cases r)
    case True
    then have "console_write m io (RD m 2) (RD m 3) (RD m 4) tpc = (m1, io)"
      using u by (simp add: console_write_def Let_def assms(4)[symmetric])
    then show ?thesis using c sp True ubuf_stalls[OF assms(1,5)] u by auto
  next
    case False
    obtain m2 c2 where k: "console_chunks m1 (con io) (RD m 3) 0 (unat n) (RD m 2 = 2) = (m2, c2)" by fastforce
    have pm: "probed m m1" using ubuf_passes[OF assms(1,5)] u False by simp
    then have sm: "same_but_mmu m m1" "mmu_ok m1" by (simp_all add: probed_def)
    have b: "user_va m1 (RD m 3 + of_nat i)" "resident m1 (RD m 3 + of_nat i)"
      "uaddr m1 (RD m 3 + of_nat i) = uaddr m (RD m 3 + of_nat i)" if "i < unat n" for i
      using user_buf_va[OF assms(5) that] resident_same[OF sm(1)] user_va_same[OF sm(1)] sp False that by simp_all
    have ub: "user_bytes m1 (RD m 3) (unat n) = user_bytes m (RD m 3) (unat n)"
      using b(3) sameD(1)[OF sm(1)] by (simp add: user_bytes_def)
    have np: "\<not> fault_pending m1" using sp False assms(2) by simp
    from console_chunks_spec[OF sm(2) b(1,2) np le0 k] obtain bss where
      cs: "probed m1 m2" "ufault (mmu m2) = ufault (mmu m1)" "concat bss = user_bytes m (RD m 3) (unat n)"
        "c2 = fold (\<lambda>bs. con_write bs (RD m 2 = 2)) bss (con io)"
      unfolding ub by auto
    have s2: "mem m2 = mem m" "RD m2 = RD m"
      using cs(1) sameD[of m1 m2] sameD[OF sm(1)] by (simp_all add: probed_def)
    have w: "shown (user_bytes m (RD m 3) (unat n)) (RD m 2 = 2) (con io) c2"
      using written_to_terminal[where c = "con io" and bss = bss and e = "RD m 2 = 2"]
        written_to_client[where c = "con io" and bss = bss and e = "RD m 2 = 2"]
      by (auto simp: shown_def cs(3,4)[symmetric] delivers_def)
    have d: "RD (sys_done m2 v t) = (RD m2)(2 := v)" "fault_pending (sys_done m2 v t) = fault_pending m2" for v t
      by (auto simp: sys_done_def RD_def WR_def set_pc_def fun_eq_iff)
    have "console_write m io (RD m 2) (RD m 3) (RD m 4) tpc =
        (sys_done m2 (RD m 4) tpc, io\<lparr>con := c2, con_out_bytes := con_out_bytes io + RD m 4\<rparr>)"
      using u False k by (simp add: console_write_def Let_def assms(4)[symmetric])
    then show ?thesis using c sp False s2 w np cs(2) by (simp add: d)
  qed
qed

section \<open>Calls the emulator answers\<close>

text \<open>A call whose buffer was not resident: nothing has happened but that the next pass of the loop enters
  the kernel's handler of data faults, from which the program returns to the call itself.\<close>

definition retried :: "sys_opts \<Rightarrow> sys \<Rightarrow> sys \<Rightarrow> bool" where
  "retried opt s v \<longleftrightarrow>
     con (sy_io v) = con (sy_io s) \<and> mem (sy_m v) = mem (sy_m s) \<and>
     (\<exists>u. sys_iter opt v = Some (Next u) \<and> con (sy_io u) = con (sy_io s) \<and>
        resumes (sy_m s) (sy_m u) 3 (trap_pc (sy_m s)) \<and> \<not> resident (sy_m s) (CR (sy_m u) 10))"

lemma stalled_retries:
  assumes "stalled (sy_m s) (sy_m v) (trap_pc (sy_m s))" "con (sy_io v) = con (sy_io s)"
    and "\<not> supervisor (sy_m s)" "trap_pc (sy_m s) < 0xC0000000" "aligned (trap_pc (sy_m s))"
  shows "retried opt s v"
proof -
  note w = assms(1)[unfolded stalled_def]
  have cr: "CR (sy_m v) 1 = CR (sy_m s) 1" "CR (sy_m v) 7 = CR (sy_m s) 7"
    using w RD_CR[of "sy_m v" "sy_m s"] by simp_all
  have low: "pc (sy_m v) < 0xC0000000" and um: "\<not> supervisor (sy_m v)" and al: "aligned (pc (sy_m v))"
    using w assms(3-5) cr by (simp_all add: supervisor_def)
  from fault_pass[OF _ low um, of opt] w obtain u where
    u: "sys_iter opt v = Some (Next u)" "sy_m u = sys_fault (sy_m v)" "con (sy_io u) = con (sy_io v)"
    by blast
  note f = sys_fault_state[OF al]
  have "resumes (sy_m s) (sy_m u) 3 (trap_pc (sy_m s))"
    using f(1-4) w cr by (simp add: resumes_def u(2))
  then show ?thesis using u f(5) w assms(2) by (auto simp: retried_def)
qed

text \<open>What a process can see of the switch to its descriptors.\<close>

lemma switched:
  assumes "mmu_ok (sy_m s)"
  shows "mmu_ok (sy_m (sys_switch s))" "same_but_mmu (sy_m s) (sy_m (sys_switch s))"
    "RD (sy_m (sys_switch s)) = RD (sy_m s)" "trap_pc (sy_m (sys_switch s)) = trap_pc (sy_m s)"
    "mem (sy_m (sys_switch s)) = mem (sy_m s)" "cpu (sy_m (sys_switch s)) = cpu (sy_m s)"
    "user_buf (sy_m (sys_switch s)) = user_buf (sy_m s)"
  using mmu_ok_switch[OF assms] same_sys_switch[of s] sameD[OF same_sys_switch[of s]]
  by (simp_all add: user_buf_def fun_eq_iff)

text \<open>A service that took the call.\<close>

lemma sys_call_served:
  assumes "t = sys_switch s" "sys_service (RD (sy_m t) 9) (trap_pc (sy_m t)) (sy_m t) (sy_io t) = (True, m, io)"
  shows "sy_m (sys_call s) = m\<lparr>trap_taken := False\<rparr>" "sy_io (sys_call s) = io"
  using assms unfolding sys_call_def assms(1)[symmetric] Let_def synced by simp_all

lemma console_served: "console_syscall n tpc m io = (True, r) \<Longrightarrow> sys_service n tpc m io = (True, r)"
  by (simp add: sys_service_def)

lemma stalled_switched:
  assumes "same_but_mmu m n" "stalled n k tpc"
  shows "stalled m k tpc"
  using assms(2) resident_same(1)[OF assms(1), of "ufault_va (ufault (mmu k))"] user_va_same[OF assms(1)] sameD[OF assms(1)]
  by (simp add: stalled_def)

lemma taken [simp]: "RD (k\<lparr>trap_taken := b\<rparr>) = RD k" "stalled m (k\<lparr>trap_taken := b\<rparr>) tpc = stalled m k tpc"
  by (simp_all add: stalled_def RD_def fun_eq_iff)

text \<open>C6. A program's write to the console is shown once.  Its buffer may not be resident: then nothing is
  shown and the call is made again.  Otherwise the next state of the program is behind the call with the
  count as its result, memory and all other registers untouched, and the host's terminal or the client
  has got exactly the bytes the program sees in its buffer, at most the first megabyte of them.\<close>

theorem console_write_once:
  assumes "user_call s" "RD (sy_m s) 9 = 4" "mmu_ok (sy_m s)" "trap_pc (sy_m s) < 0xC0000000" "aligned (trap_pc (sy_m s))"
    and "fd_is_console (sy_io (sys_switch s)) (RD (sy_m s) 2)" "\<not> fault_pending (sy_m (sys_switch s))"
    and "n = (if RD (sy_m s) 4 < 0x100000 then RD (sy_m s) 4 else 0x100000)" "user_buf (sy_m s) (RD (sy_m s) 3) n"
  shows "\<exists>v. sys_trap s = Next v \<and>
    (retried opt s v \<or>
     mem (sy_m v) = mem (sy_m s) \<and> pc (sy_m v) = trap_pc (sy_m s) + 8 \<and>
     RD (sy_m v) = (RD (sy_m s))(2 := RD (sy_m s) 4) \<and> \<not> fault_pending (sy_m v) \<and>
     shown (user_bytes (sy_m s) (RD (sy_m s) 3) (unat n)) (RD (sy_m s) 2 = 2) (con (sy_io s)) (con (sy_io v)))"
proof -
  define t where "t = sys_switch s"
  note w = switched[OF assms(3), folded t_def]
  have ct: "con (sy_io t) = con (sy_io s)" by (simp add: t_def sys_switch_keeps)
  have h: "\<not> fault_pending (sy_m t)" "fd_is_console (sy_io t) (RD (sy_m t) 2)"
    "n = (if RD (sy_m t) 4 < 0x100000 then RD (sy_m t) 4 else 0x100000)" "user_buf (sy_m t) (RD (sy_m t) 3) n"
    unfolding w(3,7) unfolding t_def by fact+
  obtain m io where m: "console_syscall 4 (trap_pc (sy_m t)) (sy_m t) (sy_io t) = (True, m, io)" "mem m = mem (sy_m s)"
    and r: "io = sy_io t \<and> stalled (sy_m t) m (trap_pc (sy_m t)) \<or>
     (\<forall>i<unat n. resident (sy_m t) (RD (sy_m t) 3 + of_nat i)) \<and> pc m = trap_pc (sy_m t) + 8 \<and>
     RD m = (RD (sy_m t))(2 := RD (sy_m t) 4) \<and> \<not> fault_pending m \<and>
     shown (user_bytes (sy_m t) (RD (sy_m t) 3) (unat n)) (RD (sy_m t) 2 = 2) (con (sy_io t)) (con io)"
    using console_write_shows[OF w(1) h, of "trap_pc (sy_m t)"] w(5) by auto
  have c: "sy_m (sys_call s) = m\<lparr>trap_taken := False\<rparr>" "sy_io (sys_call s) = io"
    using sys_call_served[OF t_def, of m io] console_served[OF m(1)] assms(2) w(3) by simp_all
  have ub: "user_bytes (sy_m t) (RD (sy_m s) 3) (unat n) = user_bytes (sy_m s) (RD (sy_m s) 3) (unat n)"
    using user_buf_va[OF assms(9)] resident_same(2)[OF w(2)] w(5) by (simp add: user_bytes_def)
  show ?thesis
    using r
  proof
    assume st: "io = sy_io t \<and> stalled (sy_m t) m (trap_pc (sy_m t))"
    then have "stalled (sy_m s) m (trap_pc (sy_m s))" using stalled_switched[OF w(2)] w(4) by simp
    then have "retried opt s (sys_call s)"
      using stalled_retries[of s "sys_call s" opt] st c ct assms(1,4,5) by (simp add: user_call_def)
    then show ?thesis using user_call_trap[OF assms(1)] by blast
  qed (use user_call_trap[OF assms(1)] c m(2) ct w(3,4) ub in \<open>simp del: fun_upd_apply\<close>)
qed

text \<open>A process with one page, at \<open>0x1000\<close>, that holds \<open>hi\<close> and a newline.\<close>

definition talk_machine :: "u32 \<Rightarrow> u32 \<Rightarrow> machine" where
  "talk_machine n a =
     (let m = machine0\<lparr>mem := mem_w32 (mem_w32 (mem_w32 (mem_w32 (mem0\<lparr>realmm := True\<rparr>) 0xFFF7E204 0x5001)
                 0x5000 0x6001) 0x6004 0x7005) 0x7234 0x68690A00,
               mmu := mmu0\<lparr>translate_on := True\<rparr>, cfg := cfg0\<lparr>procexp := True\<rparr>, trap_vector := 128, trap_pc := 0x1100\<rparr>
      in WR (WR (WR (WR (set_cr m 7 0xC0000000) 9 n) 2 1) 3 a) 4 3)"

definition talk_sys :: "u32 \<Rightarrow> u32 \<Rightarrow> sys" where
  "talk_sys n a = sys0\<lparr>sy_m := talk_machine n a, sy_io := io0\<lparr>con := con0\<lparr>std_in := [[104, 10]]\<rparr>\<rparr>\<rparr>"

lemma talk_ok: "mmu_ok (sy_m (talk_sys n a))"
proof -
  have f: "tlb_flush (talk_machine n a) = talk_machine n a"
    by (simp add: talk_machine_def machine0_def mmu0_def tlb_flush_def empty_ent_def set_cr_def WR_def)
  moreover have "devmap_ok (talk_machine n a)"
    by (simp add: devmap_ok_def talk_machine_def machine0_def mmu0_def set_cr_def WR_def)
  ultimately show ?thesis using tlb_ok_flush[of "talk_machine n a"] by (simp add: mmu_ok_def talk_sys_def)
qed

theorem console_write_once_witness:
  "\<exists>v w. sys_trap (talk_sys 4 0x1234) = Next v \<and> std_out (con (sy_io v)) = [104, 105, 10] \<and> pc (sy_m v) = 0x1108 \<and>
     sys_trap (talk_sys 4 0x5000) = Next w \<and> retried opt0 (talk_sys 4 0x5000) w"
proof -
  have h: "user_call (talk_sys 4 a)" "RD (sy_m (talk_sys 4 a)) 9 = 4" "trap_pc (sy_m (talk_sys 4 a)) = 0x1100"
    "RD (sy_m (talk_sys 4 a)) 4 = 3" "RD (sy_m (talk_sys 4 a)) 2 = 1"
    if "a = 0x1234 \<or> a = 0x5000" for a
    using that by (auto, code_simp+)
  have k: "fd_is_console (sy_io (sys_switch (talk_sys 4 a))) 1" "\<not> fault_pending (sy_m (sys_switch (talk_sys 4 a)))"
    "RD (sy_m (talk_sys 4 a)) 3 = a"
    if "a = 0x1234 \<or> a = 0x5000" for a
    using that by (auto, code_simp+)
  have b: "user_buf (sy_m (talk_sys 4 a)) a 3" if "a = 0x1234 \<or> a = 0x5000" for a
    using that by (auto simp: user_buf_def)
  have w: "\<exists>v. sys_trap (talk_sys 4 a) = Next v \<and> (retried opt0 (talk_sys 4 a) v \<or>
      pc (sy_m v) = 0x1108 \<and> \<not> fault_pending (sy_m v))"
    if "a = 0x1234 \<or> a = 0x5000" for a
  proof -
    have al: "aligned (0x1100 :: u32)" "(0x1100 :: u32) < 0xC0000000" "(3 :: u32) = (if (3 :: u32) < 0x100000 then 3 else 0x100000)"
      by (simp_all add: aligned_def)
    note c = console_write_once[of "talk_sys 4 a" 3 opt0, OF h(1,2)[OF that] talk_ok, unfolded h(3-5)[OF that] k(3)[OF that]]
    from c[OF al(2,1) k(1,2)[OF that] al(3) b[OF that]] obtain v where
      v: "sys_trap (talk_sys 4 a) = Next v" "retried opt0 (talk_sys 4 a) v \<or> pc (sy_m v) = 0x1100 + 8 \<and> \<not> fault_pending (sy_m v)"
      by blast
    show ?thesis by (rule exI[of _ v]) (use v in simp)
  qed
  have o: "std_out (con (sy_io (talk_sys 4 0x1234))) = []" by code_simp
  have t: "case sys_trap (talk_sys 4 0x1234) of Next v \<Rightarrow> std_out (con (sy_io v)) = [104, 105, 10] | Halt _ \<Rightarrow> False"
    by code_simp
  have f: "case sys_trap (talk_sys 4 0x5000) of Next v \<Rightarrow> fault_pending (sy_m v) | Halt _ \<Rightarrow> False" by code_simp
  show ?thesis using w[of "0x1234"] w[of "0x5000"] o t f by (auto simp: retried_def)
qed

section \<open>Descriptors of calls that slept\<close>

text \<open>C32. The open of one process may sleep in the kernel while another makes a system call.  The tables are
  then the other's, and when the first returns, its descriptor is recorded there; its own table comes
  back without it, so its reads of the disk go to the kernel.\<close>

theorem open_marks_other_process:
  assumes "fw_pc (sy_watch s) \<noteq> 0" "fw_disk (sy_watch s)" "length (fdsets (sy_io s)) = 24"
    and "fdcur (sy_io s) = p" "p > 0" "q > 0" "p \<noteq> q" "fst (fdslot p (sy_io s)) \<noteq> None" "seeded (io_tab (sy_io s))"
    and "pc m = fw_pc (sy_watch s) + 8" "\<not> supervisor m" "RD m 2 < 64"
    and "t = sys_watch_return (s\<lparr>sy_io := fd_switch True q pp (sy_io s), sy_m := m\<rparr>)"
  shows "fd_disk (io_tab (sy_io t)) (RD m 2) = 1 \<and> sy_watch t = no_watch \<and>
    io_tab (fd_switch True p pp' (sy_io t)) = io_tab (sy_io s)"
proof -
  let ?io = "fd_switch True q pp (sy_io s)" let ?tab = "fd_mark (sy_watch s) (RD m 2) (RD m 3) (io_tab ?io)"
  have t: "sy_io t = ?io\<lparr>io_tab := ?tab\<rparr>" "sy_watch t = no_watch"
    using assms(1,10,11) by (simp_all add: assms(13) sys_watch_return_def Let_def)
  moreover have "fd_disk ?tab (RD m 2) = 1" using assms(2,12) by (simp add: fd_mark_def Let_def)
  ultimately show ?thesis using switch_restores[OF assms(3-9), where pp = pp and pp' = pp' and t = ?tab] by simp
qed

text \<open>Process 7 opens the disk and sleeps; 8 makes a call; 7 returns with descriptor 3.\<close>

theorem open_marks_other_process_witness:
  "let w = no_watch\<lparr>fw_pc := 0x1100, fw_disk := True\<rparr>; s = sys0\<lparr>sy_io := io0\<lparr>fdcur := 7\<rparr>, sy_watch := w\<rparr>;
       t = sys_watch_return (s\<lparr>sy_io := fd_switch True 8 7 (sy_io s), sy_m := WR (set_pc machine0 0x1108) 2 3\<rparr>)
   in fd_disk (io_tab (sy_io t)) 3 = 1 \<and> fdcur (sy_io t) = 8 \<and> fd_disk (io_tab (fd_switch True 7 0 (sy_io t))) 3 = 0"
proof -
  let ?w = "no_watch\<lparr>fw_pc := 0x1100, fw_disk := True\<rparr>" let ?s = "sys0\<lparr>sy_io := io0\<lparr>fdcur := 7\<rparr>, sy_watch := ?w\<rparr>"
  let ?m = "WR (set_pc machine0 0x1108) 2 3"
  let ?t = "sys_watch_return (?s\<lparr>sy_io := fd_switch True 8 7 (sy_io ?s), sy_m := ?m\<rparr>)"
  have m: "pc ?m = 0x1108" "\<not> supervisor ?m" "RD ?m 2 = 3" by code_simp+
  have f: "fst (fdslot 7 (sy_io ?s)) \<noteq> None" "fdcur (sy_io ?t) = 8" by code_simp+
  show ?thesis
    using open_marks_other_process[of ?s 7 8 ?m ?t 7 0] m f
    by (simp add: sys0_def io0_def seeded_def fd_tab_zero_def no_watch_def)
qed

section \<open>A request that is not checked\<close>

lemma vr32_keeps_fault: "fault_pending m \<Longrightarrow> ufault (mmu (snd (vr32 m a))) = ufault (mmu m)"
proof -
  assume p: "fault_pending m"
  obtain pa k where t: "translate m a False = (pa, k)" by fastforce
  show ?thesis using translate_fault[OF t] p t by (auto simp: fault_step_def vr32_def)
qed

text \<open>The raw transfer of the disk reads its request through the program's tables without looking whether
  it is there.  If it is not and memory has a zero where the count is looked for, the call is reported
  done, with the result 0, while the page fault of the request is pending: the kernel brings the page,
  and the program goes on behind the call with nothing transferred.\<close>

theorem raw_request_unchecked:
  assumes "mmu_ok m" "\<not> fault_pending m" "ufault_pending (snd (xlat_spec m req False))"
    and "fst (vr32 (snd (vr32 m req)) (req + 8)) * 512 = 0"
  shows "pc (disk_ioctl m f req tpc) = tpc + 8 \<and> RD (disk_ioctl m f req tpc) 2 = 0 \<and>
    fault_pending (disk_ioctl m f req tpc) \<and> ufault_va (ufault (mmu (disk_ioctl m f req tpc))) = req"
proof -
  obtain blk m1 where 1: "vr32 m req = (blk, m1)" by fastforce
  obtain cnt m2 where 2: "vr32 m1 (req + 8) = (cnt, m2)" by fastforce
  obtain flag m3 where 3: "vr32 m2 (req + 0x0c) = (flag, m3)" by fastforce
  obtain buf m4 where 4: "vr32 m3 (req + 0x10) = (buf, m4)" by fastforce
  obtain pa k where t: "translate m req False = (pa, k)" by fastforce
  have "fault_pending k" using translate_spec[OF _ _ t] assms(1,3) by (simp add: mmu_ok_def) (metis snd_conv)
  then have m1: "fault_pending m1" "ufault_va (ufault (mmu m1)) = req"
    using translate_fault[OF t] t 1 assms(2) by (auto simp: fault_step_def vr32_def)
  have m4: "ufault (mmu m4) = ufault (mmu m1)"
    using vr32_keeps_fault[of m1 "req + 8"] vr32_keeps_fault[of m2 "req + 0x0c"] vr32_keeps_fault[of m3 "req + 0x10"]
      m1(1) 2 3 4 by simp
  have n: "cnt * 512 = 0" using assms(4) 1 2 by simp
  have e: "disk_ioctl m f req tpc = sys_done (if flag AND 0x01000000 \<noteq> 0 then disk_to_user m4 f (unat blk * 512) buf 0
      else user_to_disk m4 f (unat blk * 512) buf 0) 0 tpc"
    by (simp add: disk_ioctl_def Let_def 1 2 3 4 n ubuf_fault_def)
  have d: "ufault (mmu (sys_done x v t)) = ufault (mmu x)" for x v t by (simp add: sys_done_def set_pc_def WR_def)
  have "ufault (mmu (disk_ioctl m f req tpc)) = ufault (mmu m4)"
    by (simp add: e d disk_to_user_def user_to_disk_def uwrite_mem_def set_ufault_def upd_dev_def split_beta)
  then show ?thesis using m1 m4 e by simp
qed

text \<open>A request at \<open>0x2000\<close>, where the process has nothing.\<close>

theorem raw_request_unchecked_witness:
  "let m = disk_ioctl (talk_machine 54 0) [1, 2, 3] 0x2000 0x1100
   in pc m = 0x1108 \<and> RD m 2 = 0 \<and> ufault_va (ufault (mmu m)) = 0x2000"
proof -
  let ?m = "talk_machine 54 0"
  have ok: "mmu_ok ?m" using talk_ok[of 54 0] by (simp add: talk_sys_def)
  have h: "\<not> fault_pending ?m" "ufault_pending (snd (xlat_spec ?m 0x2000 False))"
    "fst (vr32 (snd (vr32 ?m 0x2000)) (0x2000 + 8)) * 512 = 0"
    by code_simp+
  show ?thesis using raw_request_unchecked[OF ok h, of "[1, 2, 3]" "0x1100"] by (simp add: Let_def)
qed

end
