(* ===== verification/Frame.thy ===== *)
theory Frame
  imports Umem
begin

text \<open>
  What address translation reads, and what a copy into a process therefore leaves alone
  (\<^verbatim>\<open>uwrite_mem\<close> of \<^verbatim>\<open>proc.c\<close> over the walks of \<^verbatim>\<open>mmu.c\<close>).

  \<open>table_bytes\<close> is the footprint of translation: the area pointers in the registers of the memory
  management units and every descriptor a walk from them can read.  A change of memory outside it
  changes no translation and keeps the TLB in agreement with the tables.  So a copy into a resident
  buffer that shares no byte with the tables puts every byte where the process finds it, and changes
  nothing else.
\<close>

section \<open>The footprint of translation\<close>

definition word_bytes :: "mem_state \<Rightarrow> u32 \<Rightarrow> u32 set" where
  "word_bytes f a = {cphys f a, cphys f (a + 1), cphys f (a + 2), cphys f (a + 3)}"

text \<open>The bytes \<open>tab_r32\<close> may read: the word, and where a bias is set its copy.\<close>

definition tab_bytes :: "machine \<Rightarrow> u32 \<Rightarrow> bool \<Rightarrow> u32 set" where
  "tab_bytes m pa biased =
     word_bytes (mem m) pa \<union>
     (if biased then word_bytes (mem m) ((pa AND 0x3FFFFFFF) + ktab_bias (mmu m)) else {})"

definition walk_bytes :: "machine \<Rightarrow> u32 \<Rightarrow> u32 \<Rightarrow> u32 set" where
  "walk_bytes m apr va =
     (let segtab = apr AND 0xFFFFF000;
          biased = (ktab_bias (mmu m) \<noteq> 0 \<and> va < 0xC0000000);
          sdesc = tab_r32 m (segtab + seg_index va * 4) biased in
      if segtab = 0 then {}
      else tab_bytes m (segtab + seg_index va * 4) biased \<union>
        (if sdesc AND 1 = 0 then {} else tab_bytes m ((sdesc AND 0xFFFFF000) + page_index va * 4) biased))"

definition valid_walk :: "machine \<Rightarrow> u32 \<Rightarrow> u32 \<Rightarrow> u32 set" where
  "valid_walk m apr va = (if apr AND 1 = 0 then {} else walk_bytes m apr va)"

definition synth_apr :: "bool \<Rightarrow> u32" where
  "synth_apr code = (if code then CODE_SEGTAB else DATA_SEGTAB) OR 1"

definition apr_bytes :: "machine \<Rightarrow> bool \<Rightarrow> u32 set" where
  "apr_bytes m code =
     word_bytes (mem m) (cmmu_base code + CMMU_SAPR) \<union> word_bytes (mem m) (cmmu_base code + CMMU_UAPR)"

definition table_bytes :: "machine \<Rightarrow> u32 set" where
  "table_bytes m =
     (\<Union>code. apr_bytes m code \<union>
       (\<Union>va. valid_walk m (sapr m code) va \<union> valid_walk m (mode_apr m code) va \<union>
         (if realmm (mem m) then walk_bytes m (synth_apr code) va else {})))"

text \<open>The words of a table lie in its page.\<close>

lemma word_page:
  assumes "p \<in> word_bytes f a" "page_off a \<le> 4092"
  shows "page_no p = page_no (cphys f a)"
proof -
  have "page_no (cphys f (a + i)) = page_no (cphys f a)" if "unat i \<le> 3" for i
    using cphys_page[OF page_step(1)[OF assms(2) that]] .
  from this[of 1] this[of 2] this[of 3] show ?thesis using assms(1) by (auto simp: word_bytes_def)
qed

lemma slot_page:
  assumes "page_off b = 0" "unat i < 1024"
  shows "page_no (b + i * 4) = page_no b" "page_off (b + i * 4) = i * 4" "page_off (b + i * 4) \<le> 4092"
proof -
  have i: "unat (i * 4) = unat i * 4" using assms(2) by (subst unat_mult_lem[THEN iffD1]) auto
  obtain q where q: "unat b = 4096 * q" using assms(1) by (metis dvd_def unat_0 unat_page_off mod_0_imp_dvd)
  have "q < 1048576" using unat_u32_bound[of b] q by simp
  then have u: "unat (b + i * 4) = 4096 * q + unat i * 4" using assms(2) q i by (subst unat_add_small) auto
  show "page_no (b + i * 4) = page_no b" using assms(2) by (simp add: word_unat_eq_iff unat_page_no u q)
  show o: "page_off (b + i * 4) = i * 4" using assms(2) by (simp add: word_unat_eq_iff unat_page_off u i)
  show "page_off (b + i * 4) \<le> 4092" unfolding o using assms(2) i by (simp add: word_le_nat_alt)
qed

lemma index_bound: "unat (seg_index va) < 1024" "unat (page_index va) < 1024"
proof -
  have "x AND 0x3FF \<le> 0x3FF" for x :: u32 by (rule word_and_le1)
  then show "unat (seg_index va) < 1024" "unat (page_index va) < 1024"
    by (simp_all add: seg_index_def page_index_def word_le_nat_alt less_Suc_eq_le[symmetric] order_le_less_trans)
qed

lemma odd_word:
  assumes "mem_r32 f a AND 1 \<noteq> 0"
  shows "flat f (cphys f (a + 3)) \<noteq> 0"
proof -
  have "be32 b c d 0 AND 1 = 0" for b c d by (rule bit_word_eqI) (auto simp: be32_def bit_simps)
  then show ?thesis using assms unfolding mem_r32_flat by metis
qed

lemma tab_page:
  assumes "p \<in> tab_bytes m (b + i * 4) False" "page_off b = 0" "unat i < 1024"
  shows "page_no p = page_no (cphys (mem m) b)"
proof -
  note s = slot_page[OF assms(2,3)]
  have "p \<in> word_bytes (mem m) (b + i * 4)" using assms(1) by (simp add: tab_bytes_def)
  from word_page[OF this s(3)] cphys_page[OF s(1)] show ?thesis by simp
qed

section \<open>Changes outside it\<close>

text \<open>A memory that agrees with the machine's on a set of bytes.\<close>

definition agree :: "u32 set \<Rightarrow> mem_state \<Rightarrow> mem_state \<Rightarrow> bool" where
  "agree S f g \<longleftrightarrow> realmm g = realmm f \<and> (\<forall>p\<in>S. flat g p = flat f p)"

lemma agree_subset: "agree S f g \<Longrightarrow> T \<subseteq> S \<Longrightarrow> agree T f g"
  by (auto simp: agree_def)

lemma agree_Un [simp]: "agree (S \<union> T) f g \<longleftrightarrow> agree S f g \<and> agree T f g"
  by (auto simp: agree_def)

lemma agree_trans: "agree S f g \<Longrightarrow> agree S g h \<Longrightarrow> agree S f h"
  by (simp add: agree_def)

lemma agree_cphys: "agree S f g \<Longrightarrow> cphys g = cphys f"
  by (simp add: agree_def cphys_def fun_eq_iff)

lemma agree_word:
  assumes "agree (word_bytes f a) f g"
  shows "mem_r32 g a = mem_r32 f a" "word_bytes g a = word_bytes f a"
  using assms agree_cphys[OF assms] by (simp_all add: mem_r32_flat agree_def word_bytes_def)

lemma agree_tab:
  assumes "agree (tab_bytes m pa b) (mem m) g"
  shows "tab_r32 (m\<lparr>mem := g\<rparr>) pa b = tab_r32 m pa b" "tab_bytes (m\<lparr>mem := g\<rparr>) pa b = tab_bytes m pa b"
  using assms by (auto simp: tab_bytes_def tab_r32_def Let_def agree_word split: if_splits)

lemma agree_walk:
  assumes "agree (walk_bytes m apr va) (mem m) g"
  shows "mmu_pd (m\<lparr>mem := g\<rparr>) apr va = mmu_pd m apr va" "walk_bytes (m\<lparr>mem := g\<rparr>) apr va = walk_bytes m apr va"
  using assms by (auto simp: walk_bytes_def mmu_pd_def mmu_lookup_def Let_def agree_tab split: if_splits)

lemma agree_tables:
  assumes "agree (table_bytes m) (mem m) g"
  shows "agree (apr_bytes m code) (mem m) g"
    "sapr m code AND 1 \<noteq> 0 \<Longrightarrow> agree (walk_bytes m (sapr m code) va) (mem m) g"
    "mode_apr m code AND 1 \<noteq> 0 \<Longrightarrow> agree (walk_bytes m (mode_apr m code) va) (mem m) g"
    "realmm (mem m) \<Longrightarrow> agree (walk_bytes m (synth_apr code) va) (mem m) g"
    "realmm g = realmm (mem m)"
proof -
  have "apr_bytes m code \<subseteq> table_bytes m" "valid_walk m (sapr m code) va \<subseteq> table_bytes m"
    "valid_walk m (mode_apr m code) va \<subseteq> table_bytes m"
    "(if realmm (mem m) then walk_bytes m (synth_apr code) va else {}) \<subseteq> table_bytes m"
    unfolding table_bytes_def by blast+
  note sub = this[THEN agree_subset[OF assms]]
  show "agree (apr_bytes m code) (mem m) g"
    "sapr m code AND 1 \<noteq> 0 \<Longrightarrow> agree (walk_bytes m (sapr m code) va) (mem m) g"
    "mode_apr m code AND 1 \<noteq> 0 \<Longrightarrow> agree (walk_bytes m (mode_apr m code) va) (mem m) g"
    "realmm (mem m) \<Longrightarrow> agree (walk_bytes m (synth_apr code) va) (mem m) g"
    "realmm g = realmm (mem m)"
    using sub assms by (simp_all add: valid_walk_def agree_def[of "table_bytes m"])
qed

lemma same_table_bytes:
  assumes "same_but_mmu m m'"
  shows "table_bytes m' = table_bytes m"
proof -
  have t: "tab_r32 m' = tab_r32 m" "tab_bytes m' = tab_bytes m"
    by (simp_all add: fun_eq_iff tab_r32_def tab_bytes_def Let_def sameD[OF assms])
  have "walk_bytes m' = walk_bytes m" by (simp add: fun_eq_iff walk_bytes_def Let_def t sameD[OF assms])
  then show ?thesis
    by (simp add: table_bytes_def apr_bytes_def valid_walk_def same_entries[OF assms] sameD[OF assms] cong: if_cong)
qed

lemma agree_aprs:
  assumes "agree (table_bytes m) (mem m) g"
  shows "sapr (m\<lparr>mem := g\<rparr>) code = sapr m code" "mode_apr (m\<lparr>mem := g\<rparr>) code = mode_apr m code"
    "apr_bytes (m\<lparr>mem := g\<rparr>) code = apr_bytes m code"
proof -
  have "agree (word_bytes (mem m) (cmmu_base code + CMMU_SAPR)) (mem m) g"
    "agree (word_bytes (mem m) (cmmu_base code + CMMU_UAPR)) (mem m) g"
    using agree_tables(1)[OF assms, of code] by (simp_all add: apr_bytes_def)
  note w = this[THEN agree_word(1)] this[THEN agree_word(2)]
  show "sapr (m\<lparr>mem := g\<rparr>) code = sapr m code" "mode_apr (m\<lparr>mem := g\<rparr>) code = mode_apr m code"
    "apr_bytes (m\<lparr>mem := g\<rparr>) code = apr_bytes m code"
    using w by (simp_all add: sapr_def mode_apr_def apr_bytes_def supervisor_def)
qed

lemma agree_frame:
  assumes "agree (table_bytes m) (mem m) g" "mode_apr m code AND 1 \<noteq> 0"
  shows "fb_frame (m\<lparr>mem := g\<rparr>) (mode_apr m code) va code = fb_frame m (mode_apr m code) va code"
  using agree_walk(1)[OF agree_tables(3)[OF assms]] agree_walk(1)[OF agree_tables(4)[OF assms(1)], of code]
  by (auto simp: fb_frame_def agree_tables(5)[OF assms(1)] devmap_lookup_def synth_apr_def Let_def split: option.split)

lemma agree_entries:
  assumes "agree (table_bytes m) (mem m) g"
  shows "tlb_ref (m\<lparr>mem := g\<rparr>) = tlb_ref m"
proof -
  have "kern_entry (m\<lparr>mem := g\<rparr>) code va = kern_entry m code va" for code va
    using agree_walk(1)[OF agree_tables(2)[OF assms]] by (simp add: kern_entry_def agree_aprs[OF assms])
  moreover have "user_entry (m\<lparr>mem := g\<rparr>) code va = user_entry m code va" for code va
    using agree_frame[OF assms] by (simp add: user_entry_def agree_aprs[OF assms])
  ultimately show ?thesis by (simp add: fun_eq_iff page_entry_def agree_tables(5)[OF assms])
qed

lemma agree_table_bytes:
  assumes "agree (table_bytes m) (mem m) g"
  shows "table_bytes (m\<lparr>mem := g\<rparr>) = table_bytes m"
proof -
  have "valid_walk (m\<lparr>mem := g\<rparr>) (sapr m code) va = valid_walk m (sapr m code) va"
    "valid_walk (m\<lparr>mem := g\<rparr>) (mode_apr m code) va = valid_walk m (mode_apr m code) va"
    "realmm (mem m) \<Longrightarrow> walk_bytes (m\<lparr>mem := g\<rparr>) (synth_apr code) va = walk_bytes m (synth_apr code) va" for code va
    using agree_walk(2)[OF agree_tables(2)[OF assms]] agree_walk(2)[OF agree_tables(3)[OF assms]]
      agree_walk(2)[OF agree_tables(4)[OF assms]]
    by (simp_all add: valid_walk_def)
  then show ?thesis by (simp add: table_bytes_def agree_aprs[OF assms] agree_tables(5)[OF assms] cong: if_cong)
qed

lemma agree_mmu_ok:
  assumes "agree (table_bytes m) (mem m) g" "mmu_ok m"
  shows "mmu_ok (m\<lparr>mem := g\<rparr>)"
proof -
  have "key_hit (m\<lparr>mem := g\<rparr>) = key_hit m" "key_val (m\<lparr>mem := g\<rparr>) = key_val m"
    by (auto simp: fun_eq_iff tlb_hit_def tlb_at_def)
  then show ?thesis
    using assms by (simp add: mmu_ok_def tlb_ok_def tlbc.agrees_def agree_entries devmap_ok_def)
qed

lemma agree_spec:
  assumes "agree (table_bytes m) (mem m) g" "user_va m va"
  shows "xlat_spec (m\<lparr>mem := g\<rparr>) va code = xlat_spec m va code"
proof -
  have r: "realmm g = realmm (mem m)" "user_va (m\<lparr>mem := g\<rparr>) va" "pc (m\<lparr>mem := g\<rparr>) = pc m"
    using assms(2) by (simp_all add: user_va_def agree_tables(5)[OF assms(1)])
  show ?thesis
    using agree_frame[OF assms(1)] agree_cphys[OF assms(1)] xlat_user[OF r(2)] xlat_user[OF assms(2)]
    by (auto simp: user_spec_def Let_def r agree_aprs[OF assms(1)] split: option.split)
qed

lemma agree_user:
  assumes "agree (table_bytes m) (mem m) g"
  shows "user_va (m\<lparr>mem := g\<rparr>) va = user_va m va"
    "user_va m va \<Longrightarrow> uaddr (m\<lparr>mem := g\<rparr>) va = uaddr m va"
    "user_va m va \<Longrightarrow> resident (m\<lparr>mem := g\<rparr>) va = resident m va"
proof -
  let ?n = "set_pending m False"
  show "user_va (m\<lparr>mem := g\<rparr>) va = user_va m va" by (simp add: user_va_def agree_tables(5)[OF assms])
  have sp: "set_pending (m\<lparr>mem := g\<rparr>) False = ?n\<lparr>mem := g\<rparr>" by (simp add: set_ufault_def)
  have n: "agree (table_bytes ?n) (mem ?n) g" using assms same_table_bytes[of m ?n] sameD(1)[of m ?n] by simp
  show "user_va m va \<Longrightarrow> uaddr (m\<lparr>mem := g\<rparr>) va = uaddr m va"
    "user_va m va \<Longrightarrow> resident (m\<lparr>mem := g\<rparr>) va = resident m va"
    unfolding uaddr_def resident_def sp using agree_spec[OF n, of va False] by simp_all
qed

section \<open>A copy into a process\<close>

text \<open>The bytes of a buffer in physical memory, and what a copy to them makes of the memory.\<close>

definition buf_addr :: "machine \<Rightarrow> u32 \<Rightarrow> nat \<Rightarrow> u32" where
  "buf_addr m va i = uaddr m (va + of_nat i)"

definition buf_cells :: "machine \<Rightarrow> u32 \<Rightarrow> nat \<Rightarrow> u32 set" where
  "buf_cells m va n = (\<lambda>i. cphys (mem m) (buf_addr m va i)) ` {..<n}"

text \<open>A buffer of a process as the kernel hands them out: no byte of it lies in the tables, and no two are
  the same byte of memory.\<close>

definition own_buf :: "machine \<Rightarrow> u32 \<Rightarrow> nat \<Rightarrow> bool" where
  "own_buf m va n \<longleftrightarrow> buf_cells m va n \<inter> table_bytes m = {} \<and>
     inj_on (\<lambda>i. cphys (mem m) (buf_addr m va i)) {..<n}"

fun place_bytes :: "mem_state \<Rightarrow> u32 list \<Rightarrow> u8 list \<Rightarrow> mem_state" where
  "place_bytes f (a # as) (b # bs) = place_bytes (mem_w8 f a b) as bs"
| "place_bytes f _ _ = f"

lemma place_bytes_cphys [simp]: "cphys (place_bytes f as bs) = cphys f" "realmm (place_bytes f as bs) = realmm f"
  by (induction f as bs rule: place_bytes.induct) simp_all

lemma place_bytes_frame: "q \<notin> cphys f ` set as \<Longrightarrow> flat (place_bytes f as bs) q = flat f q"
  by (induction f as bs rule: place_bytes.induct) (auto simp: flat_mem_w8)

lemma place_bytes_nth:
  "\<lbrakk>length as = length bs; inj_on (cphys f) (set as); distinct as; i < length as\<rbrakk> \<Longrightarrow>
   flat (place_bytes f as bs) (cphys f (as ! i)) = bs ! i"
proof (induction f as bs arbitrary: i rule: place_bytes.induct)
  case (1 f a as b bs)
  show ?case
  proof (cases i)
    case 0
    have "cphys f a \<notin> cphys (mem_w8 f a b) ` set as" using 1(3,4) by (auto simp: inj_on_def)
    then show ?thesis using 0 place_bytes_frame[of "cphys f a" "mem_w8 f a b" as bs] by (simp add: flat_mem_w8)
  qed (use 1 in \<open>simp add: inj_on_def\<close>)
qed simp_all

lemma uwrite_bytes_put:
  "\<lbrakk>mmu_ok m; \<And>i. i < length bs \<Longrightarrow> user_va m (va + of_nat i); \<And>i. i < length bs \<Longrightarrow> resident m (va + of_nat i);
    buf_cells m va (length bs) \<inter> table_bytes m = {}; uwrite_bytes m va bs = (k, m')\<rbrakk> \<Longrightarrow>
   k = length bs \<and> mem m' = place_bytes (mem m) (map (buf_addr m va) [0..<length bs]) bs \<and>
   probed (m\<lparr>mem := mem m'\<rparr>) m' \<and> agree (table_bytes m) (mem m) (mem m')"
proof (induction bs arbitrary: m va k m')
  case Nil
  then show ?case by (simp add: probed_refl agree_def)
next
  case (Cons b bs)
  obtain r m1 where p: "probe m va = (r, m1)" by fastforce
  note ps = probe_spec[OF Cons.prems(1) p]
  have sm: "same_but_mmu m m1" and ok: "mmu_ok m1" using ps(1) by (simp_all add: probed_def)
  have z: "user_va m va" "resident m va" using Cons.prems(2,3)[of 0] by simp_all
  then have r: "r = Some (uaddr m va)" using ps(2) by simp
  let ?g = "mem_w8 (mem m) (uaddr m va) b" let ?n = "m1\<lparr>mem := ?g\<rparr>"
  have "cphys (mem m) (uaddr m va) \<notin> table_bytes m"
    using Cons.prems(4) by (auto simp: buf_cells_def buf_addr_def image_iff)
  then have g: "agree (table_bytes m) (mem m) ?g"
    by (auto simp: agree_def flat_mem_w8)
  then have g1: "agree (table_bytes m1) (mem m1) ?g" using same_table_bytes[OF sm] sameD(1)[OF sm] by simp
  obtain k2 m2 where w: "uwrite_bytes ?n (va + 1) bs = (k2, m2)" by fastforce
  then have e: "k = Suc k2" "m' = m2" using Cons.prems(5) p r sameD(1)[OF sm] by simp_all
  have sh: "(va + 1) + of_nat i = va + of_nat (Suc i)" for i :: nat by (simp add: add.assoc)
  have uv: "user_va m (va + of_nat (Suc i))" "resident m (va + of_nat (Suc i))" if "i < length bs" for i
    using Cons.prems(2,3)[of "Suc i"] that by simp_all
  have n: "user_va ?n ((va + 1) + of_nat i)" "resident ?n ((va + 1) + of_nat i)"
    "buf_addr ?n (va + 1) i = buf_addr m va (Suc i)" if "i < length bs" for i
    using uv[OF that] agree_user[OF g1, of "va + of_nat (Suc i)"] resident_same[OF sm uv(1)[OF that]]
      user_va_same[OF sm, of "va + of_nat (Suc i)"]
    unfolding sh buf_addr_def by simp_all
  have tb: "table_bytes ?n = table_bytes m" using agree_table_bytes[OF g1] same_table_bytes[OF sm] by simp
  have c: "buf_cells ?n (va + 1) (length bs) \<inter> table_bytes ?n = {}"
    using Cons.prems(4) n(3) unfolding tb by (force simp: buf_cells_def sameD(1)[OF sm])
  note ih = Cons.IH[OF agree_mmu_ok[OF g1 ok] n(1,2) c w]
  have up: "[0..<length (b # bs)] = 0 # map Suc [0..<length bs]"
    unfolding length_Cons by (rule nth_equalityI) (auto simp: nth_Cons split: nat.split simp del: upt_Suc)
  have a: "map (buf_addr ?n (va + 1)) [0..<length bs] = map (buf_addr m va \<circ> Suc) [0..<length bs]"
    using n(3) by simp
  have "mem m2 = place_bytes (mem m) (map (buf_addr m va) [0..<length (b # bs)]) (b # bs)"
    using ih unfolding up a by (simp add: buf_addr_def)
  moreover have "same_but_mmu (m\<lparr>mem := mem m2\<rparr>) (m1\<lparr>mem := mem m2\<rparr>)"
    using sm by (simp add: same_defs)
  then have "probed (m\<lparr>mem := mem m2\<rparr>) m2"
    using ih same_trans by (auto simp: probed_def)
  moreover have "agree (table_bytes ?n) (mem ?n) (mem m2)" using ih by blast
  then have "agree (table_bytes m) (mem m) (mem m2)" using agree_trans[OF g, of "mem m2"] by (simp only: tb) simp
  ultimately show ?case using ih e by simp
qed

text \<open>So the process finds the bytes in its buffer, and no other byte of memory is changed.\<close>

lemma own_buf_le:
  assumes "own_buf m va n" "k \<le> n"
  shows "own_buf m va k"
proof -
  have "{..<k} \<subseteq> {..<n}" using assms(2) by auto
  then have "buf_cells m va k \<subseteq> buf_cells m va n" unfolding buf_cells_def by (rule image_mono)
  then show ?thesis using assms(1) inj_on_subset[OF _ \<open>{..<k} \<subseteq> {..<n}\<close>] by (auto simp: own_buf_def)
qed

lemma uwrite_mem_delivers:
  assumes "mmu_ok m" "\<And>i. i < length bs \<Longrightarrow> user_va m (va + of_nat i)"
    and "\<And>i. i < length bs \<Longrightarrow> resident m (va + of_nat i)" "own_buf m va (length bs)" "uwrite_mem m va bs = (k, m')"
  shows "k = length bs" "probed (m\<lparr>mem := mem m'\<rparr>) m'" "ufault (mmu m') = ufault (mmu m)"
    "i < length bs \<Longrightarrow> rd8 m' (uaddr m' (va + of_nat i)) = bs ! i"
    "q \<notin> buf_cells m va (length bs) \<Longrightarrow> flat (mem m') q = flat (mem m) q"
    "realmm (mem m') = realmm (mem m)"
proof -
  let ?as = "map (buf_addr m va) [0..<length bs]"
  obtain m1 where w: "uwrite_bytes m va bs = (k, m1)" and m': "m' = set_ufault m1 (ufault (mmu m))"
    using assms(5) by (auto simp: uwrite_mem_def Let_def split: prod.splits)
  have own: "buf_cells m va (length bs) \<inter> table_bytes m = {}" "inj_on (\<lambda>i. cphys (mem m) (buf_addr m va i)) {..<length bs}"
    using assms(4) by (simp_all add: own_buf_def)
  note p = uwrite_bytes_put[OF assms(1-3) own(1) w]
  have mm: "mem m' = mem m1" by (simp add: m' set_ufault_def)
  show "k = length bs" "probed (m\<lparr>mem := mem m'\<rparr>) m'" "ufault (mmu m') = ufault (mmu m)"
    using p unfolding mm by (auto simp: m')
  then have s: "same_but_mmu (m\<lparr>mem := mem m'\<rparr>) m'" by (simp add: probed_def)
  have ag: "agree (table_bytes m) (mem m) (mem m')" using p unfolding mm by blast
  show "realmm (mem m') = realmm (mem m)" using ag by (simp add: agree_def)
  have cells: "cphys (mem m) ` set ?as = buf_cells m va (length bs)" by (auto simp: buf_cells_def)
  have d: "inj_on (cphys (mem m)) (set ?as)" "distinct ?as"
    using inj_on_imageI[of "cphys (mem m)" "buf_addr m va"] inj_on_imageI2[of "cphys (mem m)" "buf_addr m va"] own(2)
    by (simp_all add: comp_def distinct_map atLeast0LessThan)
  show "rd8 m' (uaddr m' (va + of_nat i)) = bs ! i" if i: "i < length bs"
  proof -
    have "uaddr m' (va + of_nat i) = ?as ! i"
      using i resident_same(2)[OF s, of "va + of_nat i"] agree_user[OF ag, of "va + of_nat i"] assms(2)[OF i]
      by (simp add: buf_addr_def)
    then show ?thesis
      using i place_bytes_nth[OF _ d, of bs i] p agree_cphys[OF ag] by (simp add: mem_r8_flat mm)
  qed
  show "flat (mem m') q = flat (mem m) q" if "q \<notin> buf_cells m va (length bs)"
    using place_bytes_frame[of q "mem m" ?as bs] that p unfolding cells mm by simp
qed

text \<open>Neither a probe nor the processor's registers matter for where a buffer lies.\<close>

lemma own_buf_same:
  assumes "same_but_mmu m m'" "\<And>i. i < n \<Longrightarrow> user_va m (va + of_nat i)"
  shows "own_buf m' va n = own_buf m va n" "buf_cells m' va n = buf_cells m va n"
proof -
  have a: "buf_addr m' va i = buf_addr m va i" if "i < n" for i
    using resident_same(2)[OF assms(1) assms(2)[OF that]] by (simp add: buf_addr_def)
  then show c: "buf_cells m' va n = buf_cells m va n" by (simp add: buf_cells_def sameD[OF assms(1)])
  show "own_buf m' va n = own_buf m va n"
    using a by (simp add: own_buf_def c same_table_bytes[OF assms(1)] sameD(1)[OF assms(1)] inj_on_def)
qed

lemma uaddr_cong:
  assumes "mem m' = mem m" "mmu m' = mmu m" "cfg m' = cfg m" "supervisor m' = supervisor m"
  shows "uaddr m' = uaddr m"
proof -
  let ?n = "set_pending m False" and ?n' = "set_pending m' False"
  have e: "mem ?n' = mem ?n" "mmu ?n' = mmu ?n" "cfg ?n' = cfg ?n" "supervisor ?n' = supervisor ?n"
    using assms by (simp_all add: set_ufault_def supervisor_def)
  have pd: "mmu_pd ?n' = mmu_pd ?n"
    by (simp add: fun_eq_iff mmu_pd_def mmu_lookup_def Let_def tab_r32_def e)
  have fb: "fb_frame ?n' = fb_frame ?n" "mode_apr ?n' = mode_apr ?n" "sapr ?n' = sapr ?n"
    by (simp_all add: fun_eq_iff fb_frame_def Let_def pd devmap_lookup_def mode_apr_def sapr_def e cong: option.case_cong if_cong)
  have u: "fst (user_spec ?n' va False) = fst (user_spec ?n va False)" for va
    by (auto simp: user_spec_def Let_def fb e split: option.split)
  have k: "table_addr ?n' = table_addr ?n" "kern_addr ?n' = kern_addr ?n" "scratch_value ?n' = scratch_value ?n"
    by (simp_all add: fun_eq_iff table_addr_def kern_addr_def devmap_lookup_def fb pd e scratch_value_def Let_def cong: option.case_cong if_cong)
  then have "device_addr ?n' = device_addr ?n" by (simp add: fun_eq_iff device_addr_def Let_def)
  then show ?thesis by (simp add: fun_eq_iff uaddr_def xlat_spec_def u k e)
qed

end
