(* ===== verification/Delivery.thy ===== *)
theory Delivery
  imports Driver Frame
begin

text \<open>
  What a program gets when it reads (the calls that \<^verbatim>\<open>console.c\<close> answers in the loop of \<^verbatim>\<open>sysmode.c\<close>): the
  bytes of the console, of the raw disk and of the host file arrive in its buffer and nowhere else, or the
  call is made again.  The copy is the one of \<open>Frame\<close>, the loop the one of \<open>Driver\<close>.
\<close>

section \<open>What a read hands over\<close>

text \<open>A process that got bytes in its buffer: it sees them there, and no other byte of memory has changed.\<close>

definition got :: "machine \<Rightarrow> u32 \<Rightarrow> bytes \<Rightarrow> machine \<Rightarrow> bool" where
  "got m va bs m' \<longleftrightarrow> user_bytes m' va (length bs) = bs \<and>
     (\<forall>q. q \<notin> buf_cells m va (length bs) \<longrightarrow> flat (mem m') q = flat (mem m) q)"

lemma RD_sys_done: "RD (sys_done m v t) = (RD m)(2 := v)"
  by (auto simp: sys_done_def RD_def WR_def set_pc_def fun_eq_iff)

lemma copied_got:
  assumes "mmu_ok m" "user_buf m va n" "ubuf_fault m va n w tpc = (False, m1)" "own_buf m va (length bs)"
    and "length bs \<le> unat n" "uwrite_mem m1 va bs = (k, m2)"
  shows "k = length bs" "RD m2 = RD m" "got m va bs (sys_done m2 v tpc')"
proof -
  have sm: "same_but_mmu m m1" "mmu_ok m1" using ubuf_passes[OF assms(1-3)] by (simp_all add: probed_def)
  have uv: "user_va m (va + of_nat i)" if "i < length bs" for i
    using user_buf_va[OF assms(2)] that assms(5) by simp
  have b: "user_va m1 (va + of_nat i)" "resident m1 (va + of_nat i)" if "i < length bs" for i
    using uv[OF that] resident_same(1)[OF sm(1) uv[OF that]] user_va_same[OF sm(1)] ubuf_fault_spec[OF assms(1-3)]
      that assms(5) by simp_all
  have own: "own_buf m1 va (length bs)" using own_buf_same(1)[OF sm(1) uv] assms(4) by simp
  note d = uwrite_mem_delivers[OF sm(2) b own assms(6)]
  show "k = length bs" by (rule d(1))
  have s2: "same_but_mmu (m1\<lparr>mem := mem m2\<rparr>) m2" using d(2) by (simp add: probed_def)
  moreover have "RD (m1\<lparr>mem := mem m2\<rparr>) = RD m1" by (simp add: RD_def fun_eq_iff)
  ultimately show "RD m2 = RD m" using sameD(17)[OF s2] sameD(17)[OF sm(1)] by simp
  have f: "mem (sys_done m2 v tpc') = mem m2" "mmu (sys_done m2 v tpc') = mmu m2" "cfg (sys_done m2 v tpc') = cfg m2"
    "supervisor (sys_done m2 v tpc') = supervisor m2"
    by (simp_all add: sys_done_def set_pc_def WR_def supervisor_def)
  have "user_bytes (sys_done m2 v tpc') va (length bs) = bs"
    using uaddr_cong[OF f] d(4) by (intro nth_equalityI) (simp_all add: user_bytes_def f)
  moreover have "flat (mem m2) q = flat (mem m) q" if "q \<notin> buf_cells m va (length bs)" for q
    using d(5)[of q] that own_buf_same(2)[OF sm(1) uv] sameD(1)[OF sm(1)] by simp
  ultimately show "got m va bs (sys_done m2 v tpc')" by (simp add: got_def f)
qed

lemma got_taken: "got m va bs (k\<lparr>trap_taken := b\<rparr>) = got m va bs k"
  by (simp add: got_def user_bytes_def uaddr_cong[of "k\<lparr>trap_taken := b\<rparr>" k] supervisor_def)

lemma got_same:
  assumes "same_but_mmu m m'" "\<And>i. i < length bs \<Longrightarrow> user_va m (va + of_nat i)"
  shows "got m' va bs k = got m va bs k"
  by (simp add: got_def own_buf_same(2)[OF assms] sameD(1)[OF assms(1)])

text \<open>The read is done: the whole buffer was resident, the program is behind the call with the count as its
  result and all other registers untouched, and it got the bytes.\<close>

definition handed :: "machine \<Rightarrow> u32 \<Rightarrow> nat \<Rightarrow> u32 \<Rightarrow> bytes \<Rightarrow> machine \<Rightarrow> bool" where
  "handed m va n tpc bs m' \<longleftrightarrow> (\<forall>i<n. resident m (va + of_nat i)) \<and> pc m' = tpc + 8 \<and>
     RD m' = (RD m)(2 := of_nat (length bs)) \<and> got m va bs m'"

definition own_if_there :: "machine \<Rightarrow> u32 \<Rightarrow> nat \<Rightarrow> nat \<Rightarrow> bool" where
  "own_if_there m va n k \<longleftrightarrow> ((\<forall>i<n. resident m (va + of_nat i)) \<longrightarrow> own_buf m va k)"

lemma stalled_or_handed:
  assumes "mmu_ok m" "user_buf m va n" "own_if_there m va (unat n) (length bs)" "length bs \<le> unat n"
    and "ubuf_fault m va n w tpc = (r, m1)"
  shows "if r then stalled m m1 tpc
    else handed m va (unat n) tpc bs (sys_done (snd (uwrite_mem m1 va bs)) (of_nat (length bs)) tpc)"
proof (cases r)
  case True
  then show ?thesis using ubuf_stalls[OF assms(1,2)] assms(5) by auto
next
  case False
  obtain k m2 where w: "uwrite_mem m1 va bs = (k, m2)" by fastforce
  have u: "ubuf_fault m va n w tpc = (False, m1)" using assms(5) False by simp
  have rs: "\<forall>i<unat n. resident m (va + of_nat i)" using ubuf_fault_spec[OF assms(1,2) u] by simp
  then have own: "own_buf m va (length bs)" using assms(3) by (simp add: own_if_there_def)
  note g = copied_got[OF assms(1,2) u own assms(4) w]
  have "pc (sys_done m2 (of_nat (length bs)) tpc) = tpc + 8" by (simp add: sys_done_def)
  then show ?thesis using False rs g by (simp add: w handed_def RD_sys_done)
qed

text \<open>A read that a service answers, seen from the program.\<close>

lemma own_switched:
  assumes "mmu_ok (sy_m s)" "user_buf (sy_m s) va n" "k \<le> unat n"
  shows "own_if_there (sy_m (sys_switch s)) va (unat n) k = own_if_there (sy_m s) va (unat n) k"
proof -
  note w = switched(2)[OF assms(1)]
  have uv: "user_va (sy_m s) (va + of_nat i)" if "i < unat n" for i by (rule user_buf_va[OF assms(2) that])
  have "own_buf (sy_m (sys_switch s)) va k = own_buf (sy_m s) va k"
    by (rule own_buf_same(1)[OF w]) (use uv assms(3) in simp)
  then show ?thesis using resident_same(1)[OF w uv] by (simp add: own_if_there_def)
qed

lemma trap_reads:
  assumes "user_call s" "mmu_ok (sy_m s)" "trap_pc (sy_m s) < 0xC0000000" "aligned (trap_pc (sy_m s))"
    and "user_buf (sy_m s) va n" "length bs \<le> unat n" "t = sys_switch s"
    and "sys_service (RD (sy_m t) 9) (trap_pc (sy_m t)) (sy_m t) (sy_io t) = (True, m, io)"
    and "io = sy_io t \<and> stalled (sy_m t) m (trap_pc (sy_m t)) \<or>
      handed (sy_m t) va (unat n) (trap_pc (sy_m t)) bs m \<and> Q io"
  shows "\<exists>v. sys_trap s = Next v \<and>
    (retried opt s v \<or> handed (sy_m s) va (unat n) (trap_pc (sy_m s)) bs (sy_m v) \<and> Q (sy_io v))"
proof -
  note w = switched[OF assms(2), folded assms(7)]
  have ct: "con (sy_io t) = con (sy_io s)" by (simp add: assms(7) sys_switch_keeps)
  note k = sys_call_served[OF assms(7,8)]
  have uv: "user_va (sy_m s) (va + of_nat i)" if "i < unat n" for i by (rule user_buf_va[OF assms(5) that])
  show ?thesis
    using assms(9)
  proof
    assume st: "io = sy_io t \<and> stalled (sy_m t) m (trap_pc (sy_m t))"
    then have "stalled (sy_m s) m (trap_pc (sy_m s))" using stalled_switched[OF w(2)] w(4) by simp
    then have "retried opt s (sys_call s)"
      using stalled_retries[of s "sys_call s" opt] st k ct assms(1,3,4) by (simp add: user_call_def)
    then show ?thesis using user_call_trap[OF assms(1)] by blast
  next
    assume d: "handed (sy_m t) va (unat n) (trap_pc (sy_m t)) bs m \<and> Q io"
    have "got (sy_m s) va bs (sy_m (sys_call s))"
      using d got_same[OF w(2)] uv assms(6) by (simp add: k got_taken handed_def)
    moreover have "resident (sy_m t) (va + of_nat i) = resident (sy_m s) (va + of_nat i)" if "i < unat n" for i
      using resident_same(1)[OF w(2) uv[OF that]] .
    ultimately show ?thesis using user_call_trap[OF assms(1)] k d w(3,4) by (auto simp: handed_def)
  qed
qed

section \<open>Reading from the console\<close>

lemma raw_more_le: "length (fst (con_raw_more n s)) \<le> n"
proof (induction n arbitrary: s)
  case (Suc n)
  obtain b s1 where r: "con_input_ready s = (b, s1)" by fastforce
  obtain k s2 where k: "con_in_key s1 = (k, s2)" by fastforce
  show ?case using Suc.IH[of s2] by (cases b; cases k) (simp_all add: r k Let_def split_beta)
qed simp

lemma std_line_le: "length (fst (con_std_line n s)) \<le> n"
proof (induction n arbitrary: s)
  case (Suc n)
  obtain k s1 where k: "con_std_getc s = (k, s1)" by fastforce
  show ?case using Suc.IH[of s1] by (cases k) (simp_all add: k Let_def split_beta)
qed simp

lemma console_take_le: "length (fst (console_take c n)) \<le> n"
proof (cases "tty_is_raw c")
  case True
  obtain k s where k: "con_in_key (con_ensure_client c) = (k, s)" by fastforce
  show ?thesis
    using raw_more_le[of "n - 1" s] True
    by (cases k) (auto simp: console_take_def con_read_raw_def k Let_def split_beta)
next
  case False
  have "length (fst (con_sock_read n s)) \<le> n" for s by (simp add: con_sock_read_def Let_def split_beta)
  then show ?thesis using False std_line_le[of n] by (simp add: console_take_def con_read_line_def Let_def)
qed

lemma console_read_takes:
  assumes "mmu_ok m" "fd_is_console io (RD m 2)" "n = (if RD m 4 > 4096 then 4096 else RD m 4)" "user_buf m (RD m 3) n"
    and "(bs, c) = console_take (con io) (unat n)" "own_if_there m (RD m 3) (unat n) (length bs)"
  shows "\<exists>m' io'. console_syscall 3 tpc m io = (True, m', io') \<and>
    (io' = io \<and> stalled m m' tpc \<or> handed m (RD m 3) (unat n) tpc bs m' \<and> con io' = c)"
proof -
  obtain r m1 where u: "ubuf_fault m (RD m 3) n True tpc = (r, m1)" by fastforce
  have e: "console_syscall 3 tpc m io = (True, console_read m io (RD m 3) (RD m 4) tpc)"
    using assms(2) by (simp add: console_syscall_def Let_def)
  have n: "(if n \<noteq> 0 then ubuf_fault m (RD m 3) n True tpc else (False, m)) = (r, m1)"
    using u by (auto simp: ubuf_fault_def)
  have le: "length bs \<le> unat n" using console_take_le[of "con io" "unat n"] assms(5)[symmetric] by simp
  note h = stalled_or_handed[OF assms(1,4,6) le u]
  show ?thesis
  proof (cases r)
    case True
    then have "console_read m io (RD m 3) (RD m 4) tpc = (m1, io)"
      using n by (simp add: console_read_def Let_def assms(3)[symmetric])
    then show ?thesis using e h True by simp
  next
    case False
    obtain k m2 where w: "uwrite_mem m1 (RD m 3) bs = (k, m2)" by fastforce
    have u0: "ubuf_fault m (RD m 3) n True tpc = (False, m1)" using u False by simp
    have rs: "\<forall>i<unat n. resident m (RD m 3 + of_nat i)" using ubuf_fault_spec[OF assms(1,4) u0] by simp
    have "k = length bs" using copied_got(1)[OF assms(1,4) u0 _ le w] rs assms(6) by (simp add: own_if_there_def)
    then have "console_read m io (RD m 3) (RD m 4) tpc =
        (sys_done m2 (of_nat (length bs)) tpc, io\<lparr>con := c, con_in_bytes := con_in_bytes io + of_nat k\<rparr>)"
      using n False w by (simp add: console_read_def Let_def assms(3)[symmetric] assms(5)[symmetric])
    then show ?thesis using e h False w by simp
  qed
qed

section \<open>Reading the raw disk and the host file\<close>

lemma disk_read_takes:
  assumes "mmu_ok m" "RD m 2 < 64" "fd_disk (io_tab io) (RD m 2) \<noteq> 0" "disk_img (dev m) = Some f"
    and "user_buf m (RD m 3) (RD m 4)" "bs = file_read0 f (unat (disk_off (io_tab io) (RD m 2))) (unat (RD m 4))"
    and "own_if_there m (RD m 3) (unat (RD m 4)) (length bs)"
  shows "\<exists>m' io'. disk_syscall 3 tpc m io = (True, m', io') \<and>
    (io' = io \<and> stalled m m' tpc \<or>
     handed m (RD m 3) (unat (RD m 4)) tpc bs m' \<and> io' = set_disk_off (RD m 2) (disk_off (io_tab io) (RD m 2) + RD m 4) io)"
proof -
  obtain r m1 where u: "ubuf_fault m (RD m 3) (RD m 4) True tpc = (r, m1)" by fastforce
  have len: "length bs = unat (RD m 4)" by (simp add: assms(6) file_read0_def file_read_def Let_def)
  then have "length bs \<le> unat (RD m 4)" "of_nat (length bs) = RD m 4" by simp_all
  then show ?thesis
    using stalled_or_handed[OF assms(1,5,7) _ u] assms(2-4)
    by (cases r) (simp_all add: disk_syscall_def Let_def u disk_to_user_def assms(6)[symmetric] not_le)
qed

text \<open>The host file as the program sees it: its bytes, then zeros up to the presented length.\<close>

definition presented :: "io_state \<Rightarrow> bytes \<Rightarrow> bytes" where
  "presented io f = take (unat (hostfile_vsize io))
     (take (unat (hostfile_size io)) f @ replicate (unat (hostfile_vsize io)) 0)"

lemma presented_length: "length (presented io f) = unat (hostfile_vsize io)"
  by (simp add: presented_def)

lemma zero_filled:
  fixes f :: bytes
  assumes "p + w \<le> v" "r = min w (s - p)"
  shows "take r (drop p f) @ replicate (w - length (take r (drop p f))) 0 = take w (drop p (take v (take s f @ replicate v 0)))"
proof (rule nth_equalityI)
  show "length (take r (drop p f) @ replicate (w - length (take r (drop p f))) 0) =
      length (take w (drop p (take v (take s f @ replicate v 0))))"
  proof -
    have "length (take v (take s f @ replicate v 0)) = v" by simp
    then have "length (take w (drop p (take v (take s f @ replicate v 0)))) = w"
      using assms(1) by (simp only: length_take length_drop)
    moreover have "length (take r (drop p f)) \<le> w" using assms(2) by simp
    ultimately show ?thesis by (simp only: length_append length_replicate)
  qed
  fix i assume "i < length (take r (drop p f) @ replicate (w - length (take r (drop p f))) 0)"
  then have i: "i < w" using assms(2) by (simp split: if_splits)
  have cut: "take w (drop p (take v x)) ! i = x ! (p + i)" if "v \<le> length x" for x :: bytes
    using i assms(1) that by simp
  have "take w (drop p (take v (take s f @ replicate v 0))) ! i = (take s f @ replicate v 0) ! (p + i)"
    by (rule cut) simp
  also have "\<dots> = (if p + i < length f \<and> p + i < s then f ! (p + i) else 0)"
    using i assms(1) by (auto simp: nth_append)
  also have "\<dots> = (take r (drop p f) @ replicate (w - length (take r (drop p f))) 0) ! i"
  proof (cases "i < length (take r (drop p f))")
    case True
    then have "p + i < length f" "p + i < s" "i < r" using assms(2) by auto
    then show ?thesis using True by (simp add: nth_append)
  next
    case False
    then have "\<not> (p + i < length f \<and> p + i < s)" using i assms(2) by auto
    moreover have "i - length (take r (drop p f)) < w - length (take r (drop p f))" using False i by linarith
    ultimately show ?thesis using False by (simp only: nth_append if_False nth_replicate)
  qed
  finally show "(take r (drop p f) @ replicate (w - length (take r (drop p f))) 0) ! i =
      take w (drop p (take v (take s f @ replicate v 0))) ! i" by simp
qed

lemma host_bytes_slice:
  assumes "unat off + unat want \<le> unat (hostfile_vsize io)"
  shows "host_bytes io f off want = take (unat want) (drop (unat off) (presented io f))"
proof -
  let ?s = "hostfile_size io" and ?v = "hostfile_vsize io"
  define rn where "rn = (if off < ?s then (if off + want \<le> ?s then want else ?s - off) else 0)"
  have u: "unat (off + want) = unat off + unat want" using assms unat_u32_bound[of ?v] by (subst unat_add_small) simp_all
  have rn: "unat rn = min (unat want) (unat ?s - unat off)"
    by (auto simp: rn_def word_less_nat_alt word_le_nat_alt u unat_sub_if' min_def)
  have "host_bytes io f off want = take (unat rn) (drop (unat off) f) @
      replicate (unat want - length (take (unat rn) (drop (unat off) f))) 0"
    by (simp add: host_bytes_def Let_def file_read_def rn_def)
  then show ?thesis unfolding presented_def using zero_filled[OF assms rn] by simp
qed

lemma hostfile_read_takes:
  assumes "mmu_ok m" "RD m 2 < 64" "fd_host io (RD m 2) \<noteq> 0" "hostfile_img io = Some f"
    and "off = host_off io (RD m 2)" "unat off + unat (RD m 4) < 2 ^ 32"
    and "bs = take (unat (RD m 4)) (drop (unat off) (presented io f))" "user_buf m (RD m 3) (of_nat (length bs))"
    and "own_if_there m (RD m 3) (length bs) (length bs)"
  shows "\<exists>m' io'. hostfile_syscall 3 tpc m io = (True, m', io') \<and>
    (io' = io \<and> stalled m m' tpc \<or>
     handed m (RD m 3) (length bs) tpc bs m' \<and>
     io' = io\<lparr>host_off := (host_off io)(RD m 2 := off + of_nat (length bs))\<rparr>)"
proof (cases "off \<ge> hostfile_vsize io")
  case True
  then have b: "bs = []" using assms(7) by (simp add: presented_length word_le_nat_alt)
  have "RD (sys_done m 0 tpc) = (RD m)(2 := 0)" by (rule RD_sys_done)
  then have "handed m (RD m 3) 0 tpc [] (sys_done m 0 tpc)"
    by (simp add: handed_def got_def user_bytes_def sys_done_def set_pc_def WR_def)
  moreover have "io = io\<lparr>host_off := (host_off io)(RD m 2 := off)\<rparr>" by (simp add: assms(5))
  ultimately show ?thesis
    using True assms(2-5) by (auto simp: hostfile_syscall_def Let_def b not_le)
next
  case False
  define want where "want = host_want io off (RD m 4)"
  have u: "unat (off + RD m 4) = unat off + unat (RD m 4)" using assms(6) by (subst unat_add_small) simp_all
  have w: "unat want = min (unat (RD m 4)) (unat (hostfile_vsize io) - unat off)"
    using False by (auto simp: want_def host_want_def word_less_nat_alt word_le_nat_alt u unat_sub_if' min_def)
  have len: "length bs = unat want" using assms(7) by (simp add: presented_length w)
  have b: "bs = take (unat want) (drop (unat off) (presented io f))"
    by (simp add: assms(7) w min_def presented_length)
  have hb: "host_bytes io f off want = bs"
    unfolding b by (rule host_bytes_slice) (use False w in \<open>simp add: word_le_nat_alt\<close>)
  have ub: "user_buf m (RD m 3) want" using assms(8) by (simp add: len)
  obtain r m1 where x: "ubuf_fault m (RD m 3) want True tpc = (r, m1)" by fastforce
  have "own_if_there m (RD m 3) (unat want) (length bs)" "length bs \<le> unat want" using assms(9) by (simp_all add: len)
  from stalled_or_handed[OF assms(1) ub this x] show ?thesis
    using False assms(2-4) assms(5)[symmetric]
    by (cases r) (auto simp: hostfile_syscall_def Let_def want_def[symmetric] x hb len not_le)
qed

section \<open>The process with one page\<close>

lemma talk_flat:
  assumes "flat (mem (talk_machine n a)) p \<noteq> 0"
  shows "p \<in> {0xFFF7E206, 0xFFF7E207, 0x5002, 0x5003, 0x6006, 0x6007, 0x7234, 0x7235, 0x7236}"
proof -
  have "flat \<lparr>mem_pages = \<lambda>_. None, mem_cmram = \<lambda>_. None, realmm = True\<rparr> p = 0" by (simp add: flat_def)
  then show ?thesis using assms
    by (simp add: talk_machine_def Let_def set_cr_def flat_mem_w32 cphys_def mem0_def byte_of_def split: if_splits)
qed

lemma talk_words:
  "mem_r32 (mem (talk_machine n a)) 0x5000 = 0x6001"
  "mem_r32 (mem (talk_machine n a)) (cmmu_base code + CMMU_SAPR) = 0"
  "mem_r32 (mem (talk_machine n a)) (cmmu_base code + CMMU_UAPR) = (if code then 0 else 0x5001)"
proof -
  have m: "mem (talk_machine n a) = mem (talk_machine 0 0)" by (simp add: talk_machine_def Let_def set_cr_def)
  have w: "mem_r32 (mem (talk_machine 0 0)) 0x5000 = 0x6001" "mem_r32 (mem (talk_machine 0 0)) 0xFFF7E200 = 0"
    "mem_r32 (mem (talk_machine 0 0)) 0xFFF7F200 = 0" "mem_r32 (mem (talk_machine 0 0)) 0xFFF7E204 = 0x5001"
    "mem_r32 (mem (talk_machine 0 0)) 0xFFF7F204 = 0"
    by code_simp+
  show "mem_r32 (mem (talk_machine n a)) 0x5000 = 0x6001"
    "mem_r32 (mem (talk_machine n a)) (cmmu_base code + CMMU_SAPR) = 0"
    "mem_r32 (mem (talk_machine n a)) (cmmu_base code + CMMU_UAPR) = (if code then 0 else 0x5001)"
    using w by (simp_all add: m cmmu_base_def)
qed

lemma talk_sdesc:
  assumes "mem_r32 (mem (talk_machine n a)) (b + i * 4) AND 1 \<noteq> 0" "unat i < 1024" "b \<in> {0x5000, 0xE0790000, 0x803F0000}"
  shows "mem_r32 (mem (talk_machine n a)) (b + i * 4) = 0x6001"
proof -
  let ?f = "mem (talk_machine n a)"
  have b: "page_off b = 0" using assms(3) by auto
  note s = slot_page[OF b assms(2)]
  have r: "realmm ?f" by (simp add: talk_machine_def Let_def set_cr_def)
  have fl: "cphys ?f (b + i * 4 + 3) \<in> {0xFFF7E206, 0xFFF7E207, 0x5002, 0x5003, 0x6006, 0x6007, 0x7234, 0x7235, 0x7236}"
    by (rule talk_flat[OF odd_word[OF assms(1)]])
  have pg: "page_no (cphys ?f (b + i * 4 + 3)) = page_no (cphys ?f b)"
    using cphys_page[OF page_step(1)[OF s(3), of 3]] cphys_page[OF s(1)] by simp
  have "page_no (cphys ?f b) \<in> {0xFFF7E, 5, 6, 7}" using fl unfolding pg[symmetric] by auto
  then have b5: "b = 0x5000" using assms(3) r by (auto simp: cphys_def)
  have of: "page_off (cphys ?f (b + i * 4 + 3)) = i * 4 + 3"
    using page_step(2)[OF s(3), of 3] s(2) by simp
  have "page_no (cphys ?f (b + i * 4 + 3)) = 5" unfolding pg using r by (simp add: b5 cphys_def)
  then have "cphys ?f (b + i * 4 + 3) = 0x5002 \<or> cphys ?f (b + i * 4 + 3) = 0x5003" using fl by auto
  moreover have "page_off (0x5002 :: u32) = 2" "page_off (0x5003 :: u32) = 3" by simp_all
  ultimately have "i * 4 + 3 = 2 \<or> i * 4 + 3 = 3" using of by metis
  moreover have u: "unat (i * 4) = unat i * 4" using assms(2) by (subst unat_mult_lem[THEN iffD1]) auto
  then have "unat (i * 4 + 3) = unat i * 4 + 3" using assms(2) by (subst unat_add_small) auto
  then have "i * 4 + 3 \<noteq> 2" using arg_cong[of "i * 4 + 3" 2 unat] by auto
  ultimately have "i * 4 = 0" by (simp add: add_eq_self_zero)
  then show ?thesis by (simp add: b5 talk_words)
qed

lemma talk_walk:
  assumes "p \<in> walk_bytes (talk_machine n a) apr va" "apr AND 0xFFFFF000 \<in> {0x5000, 0xE0790000, 0x803F0000}"
  shows "page_no p \<noteq> 7"
proof -
  let ?m = "talk_machine n a"
  define b where "b = apr AND 0xFFFFF000"
  have b: "b \<in> {0x5000, 0xE0790000, 0x803F0000}" using assms(2) by (simp add: b_def)
  have nb: "ktab_bias (mmu ?m) = 0" and r: "realmm (mem ?m)"
    by (simp_all add: talk_machine_def Let_def mmu0_def set_cr_def)
  have b': "page_off b = 0" "page_no (cphys (mem ?m) b) \<noteq> 7" using b r by (auto simp: cphys_def)
  define d where "d = tab_r32 ?m (b + seg_index va * 4) False"
  from assms(1) have "p \<in> tab_bytes ?m (b + seg_index va * 4) False \<or>
      d AND 1 \<noteq> 0 \<and> p \<in> tab_bytes ?m ((d AND 0xFFFFF000) + page_index va * 4) False"
    by (auto simp: walk_bytes_def Let_def nb b_def d_def split: if_splits)
  then show ?thesis
  proof
    assume "p \<in> tab_bytes ?m (b + seg_index va * 4) False"
    from tab_page[OF this b'(1) index_bound(1)] b'(2) show ?thesis by simp
  next
    assume v: "d AND 1 \<noteq> 0 \<and> p \<in> tab_bytes ?m ((d AND 0xFFFFF000) + page_index va * 4) False"
    have "d = mem_r32 (mem ?m) (b + seg_index va * 4)" by (simp add: d_def tab_r32_def Let_def)
    then have "d = 0x6001" using talk_sdesc[of n a b "seg_index va"] v index_bound(1) b by simp
    then have "page_no p = page_no (cphys (mem ?m) 0x6000)"
      using v tab_page[of p ?m "0x6000" "page_index va"] index_bound(2)[of va] by simp
    then show ?thesis by (simp add: cphys_def)
  qed
qed

lemma talk_tables:
  assumes "p \<in> table_bytes (talk_machine n a)"
  shows "page_no p \<noteq> 7"
proof -
  let ?m = "talk_machine n a"
  have user: "\<not> supervisor ?m" by (simp add: talk_machine_def Let_def supervisor_def set_cr_def WR_def machine0_def cpu0_def)
  have r: "sapr ?m code = 0" "mode_apr ?m code = (if code then 0 else 0x5001)" for code
    by (simp_all add: sapr_def mode_apr_def talk_words user)
  have c: "page_no (cphys (mem ?m) x) \<noteq> 7 \<and> page_off x \<le> 4092" if "x \<in> {0xFFF7E200, 0xFFF7E204, 0xFFF7F200, 0xFFF7F204}" for x
    using that by (elim insertE emptyE) (simp_all add: cphys_def)
  have w: "page_no q \<noteq> 7" if "q \<in> word_bytes (mem ?m) x" "x \<in> {0xFFF7E200, 0xFFF7E204, 0xFFF7F200, 0xFFF7F204}" for q x
    using word_page[OF that(1)] c[OF that(2)] by simp
  have ab: "page_no q \<noteq> 7" if "q \<in> apr_bytes ?m code" for q code
    using that w[of q] by (cases code) (auto simp: apr_bytes_def cmmu_base_def)
  have sy: "synth_apr code AND 0xFFFFF000 \<in> {0x5000, 0xE0790000, 0x803F0000}" for code
    by (cases code) (simp_all add: synth_apr_def)
  obtain code va where "p \<in> apr_bytes ?m code \<or> p \<in> valid_walk ?m (sapr ?m code) va \<or>
      p \<in> valid_walk ?m (mode_apr ?m code) va \<or> p \<in> walk_bytes ?m (synth_apr code) va"
    using assms unfolding table_bytes_def by (force split: if_splits)
  then consider "p \<in> apr_bytes ?m code" | "p \<in> walk_bytes ?m 0x5001 va" | "p \<in> walk_bytes ?m (synth_apr code) va"
    by (auto simp: valid_walk_def r split: if_splits)
  then show ?thesis
    by cases (use ab talk_walk[OF _ sy] talk_walk[of p n a "0x5001" va] in simp_all)
qed

lemma talk_cell:
  assumes "i < 2"
  shows "cphys (mem (talk_machine 3 0x1234)) (buf_addr (talk_machine 3 0x1234) 0x1234 i) = (if i = 0 then 0x7234 else 0x7235)"
proof -
  have u: "uaddr (talk_machine 3 0x1234) 0x1234 = 0x7234" "uaddr (talk_machine 3 0x1234) 0x1235 = 0x7235" by code_simp+
  then show ?thesis using assms by (auto simp: buf_addr_def cphys_def less_2_cases_iff)
qed

lemma talk_own: "own_buf (talk_machine 3 0x1234) 0x1234 2"
proof -
  have "page_no p = 7" if "p \<in> buf_cells (talk_machine 3 0x1234) 0x1234 2" for p
    using that talk_cell by (auto simp: buf_cells_def)
  then show ?thesis using talk_tables[of _ 3 "0x1234"] talk_cell by (auto simp: own_buf_def inj_on_def)
qed

section \<open>The read\<close>

text \<open>C7. A program's read of the console loses no input and hands it over.  Its buffer may not be
  resident: then the console is untouched and the call is made again once the kernel has dealt with the
  fault.  Otherwise the whole buffer is resident before any input is taken, the next state of the program
  is behind the call with the number of bytes as its result and all other registers untouched, the
  program sees exactly the bytes of the line, or of the keys in raw mode, in its buffer, and no other byte
  of memory has changed.\<close>

theorem console_read_once:
  assumes "user_call s" "RD (sy_m s) 9 = 3" "mmu_ok (sy_m s)" "trap_pc (sy_m s) < 0xC0000000" "aligned (trap_pc (sy_m s))"
    and "fd_is_console (sy_io (sys_switch s)) (RD (sy_m s) 2)"
    and "n = (if RD (sy_m s) 4 > 4096 then 4096 else RD (sy_m s) 4)" "user_buf (sy_m s) (RD (sy_m s) 3) n"
    and "(bs, c) = console_take (con (sy_io s)) (unat n)"
    and "(\<forall>i<unat n. resident (sy_m s) (RD (sy_m s) 3 + of_nat i)) \<longrightarrow> own_buf (sy_m s) (RD (sy_m s) 3) (length bs)"
  shows "\<exists>v. sys_trap s = Next v \<and>
    (retried opt s v \<or>
     (\<forall>i<unat n. resident (sy_m s) (RD (sy_m s) 3 + of_nat i)) \<and> pc (sy_m v) = trap_pc (sy_m s) + 8 \<and>
     RD (sy_m v) = (RD (sy_m s))(2 := of_nat (length bs)) \<and> con (sy_io v) = c \<and>
     got (sy_m s) (RD (sy_m s) 3) bs (sy_m v))"
proof -
  define t where "t = sys_switch s"
  note w = switched[OF assms(3), folded t_def]
  have ct: "con (sy_io t) = con (sy_io s)" by (simp add: t_def sys_switch_keeps)
  have h: "fd_is_console (sy_io t) (RD (sy_m t) 2)"
    "n = (if RD (sy_m t) 4 > 4096 then 4096 else RD (sy_m t) 4)" "user_buf (sy_m t) (RD (sy_m t) 3) n"
    unfolding w(3,7) unfolding t_def by fact+
  have bs: "(bs, c) = console_take (con (sy_io t)) (unat n)" using assms(9) ct by simp
  have le: "length bs \<le> unat n" using console_take_le[of "con (sy_io s)" "unat n"] assms(9)[symmetric] by simp
  have own: "own_if_there (sy_m t) (RD (sy_m t) 3) (unat n) (length bs)"
    using own_switched[OF assms(3,8) le] assms(10) by (simp add: own_if_there_def w(3)[unfolded t_def] t_def)
  obtain m io where m: "console_syscall 3 (trap_pc (sy_m t)) (sy_m t) (sy_io t) = (True, m, io)"
    and r: "io = sy_io t \<and> stalled (sy_m t) m (trap_pc (sy_m t)) \<or>
      handed (sy_m t) (RD (sy_m s) 3) (unat n) (trap_pc (sy_m t)) bs m \<and> con io = c"
    using console_read_takes[OF w(1) h bs own, of "trap_pc (sy_m t)"] w(3) by auto
  have "sys_service (RD (sy_m t) 9) (trap_pc (sy_m t)) (sy_m t) (sy_io t) = (True, m, io)"
    using console_served[OF m] assms(2) w(3) by simp
  from trap_reads[where Q = "\<lambda>x. con x = c" and opt = opt, OF assms(1,3-5,8) le t_def this r]
  show ?thesis unfolding handed_def by blast
qed

text \<open>The line \<open>h\<close>, newline is waiting; the buffer is in the page, and then in none.\<close>

theorem console_read_once_witness:
  "\<exists>v w. sys_trap (talk_sys 3 0x1234) = Next v \<and> user_bytes (sy_m v) 0x1234 2 = [104, 10] \<and> RD (sy_m v) 2 = 2 \<and>
     flat (mem (sy_m v)) 0x7236 = 0x0A \<and>
     sys_trap (talk_sys 3 0x5000) = Next w \<and> retried opt0 (talk_sys 3 0x5000) w"
proof -
  have h: "user_call (talk_sys 3 a)" "RD (sy_m (talk_sys 3 a)) 9 = 3" "trap_pc (sy_m (talk_sys 3 a)) = 0x1100"
    "RD (sy_m (talk_sys 3 a)) 4 = 3" "RD (sy_m (talk_sys 3 a)) 2 = 1" "RD (sy_m (talk_sys 3 a)) 3 = a"
    "fd_is_console (sy_io (sys_switch (talk_sys 3 a))) 1"
    if "a = 0x1234 \<or> a = 0x5000" for a
    using that by (auto, code_simp+)
  have c: "con (sy_io (talk_sys 3 a)) = con0\<lparr>std_in := [[104, 10]]\<rparr>" and m: "sy_m (talk_sys 3 a) = talk_machine 3 a" for a
    by (simp_all add: talk_sys_def sys0_def io0_def)
  let ?t = "console_take (con0\<lparr>std_in := [[104, 10]]\<rparr>) (unat (3 :: u32))"
  have "fst ?t = [104, 10]" by code_simp
  then have t: "([104, 10], snd ?t) = ?t" by (simp add: prod_eq_iff)
  have nr: "\<not> resident (talk_machine 3 0x5000) 0x5000" by code_simp
  have own: "(\<forall>i<unat (3 :: u32). resident (talk_machine 3 a) (a + of_nat i)) \<longrightarrow> own_buf (talk_machine 3 a) a (length [104, 10 :: u8])"
    if "a = 0x1234 \<or> a = 0x5000" for a
    using that
  proof
    assume "a = 0x1234"
    moreover have "length [104, 10 :: u8] = 2" by simp
    ultimately show ?thesis using talk_own by metis
  next
    assume "a = 0x5000"
    moreover have "(0 :: nat) < unat (3 :: u32)" "(0x5000 :: u32) + of_nat 0 = 0x5000" by simp_all
    ultimately show ?thesis using nr by metis
  qed
  have w: "\<exists>v. sys_trap (talk_sys 3 a) = Next v \<and> (retried opt0 (talk_sys 3 a) v \<or>
      pc (sy_m v) = 0x1108 \<and> RD (sy_m v) 2 = 2 \<and> got (talk_machine 3 a) a [104, 10] (sy_m v))"
    if "a = 0x1234 \<or> a = 0x5000" for a
  proof -
    have al: "aligned (0x1100 :: u32)" "(0x1100 :: u32) < 0xC0000000" "(3 :: u32) = (if (3 :: u32) > 4096 then 4096 else 3)"
      "user_buf (talk_machine 3 a) a 3"
      using that by (auto simp: aligned_def user_buf_def)
    note d = console_read_once[of "talk_sys 3 a" 3 "[104, 10]" "snd ?t" opt0, OF h(1,2)[OF that] talk_ok,
      unfolded m c h(3-6)[OF that, unfolded m]]
    from d[OF al(2,1) h(7)[OF that] al(3,4) t own[OF that]] obtain v where
      v: "sys_trap (talk_sys 3 a) = Next v" "retried opt0 (talk_sys 3 a) v \<or> pc (sy_m v) = 0x1100 + 8 \<and>
        RD (sy_m v) = (RD (talk_machine 3 a))(2 := of_nat (length [104, 10 :: u8])) \<and> got (talk_machine 3 a) a [104, 10] (sy_m v)"
      by blast
    show ?thesis by (rule exI[of _ v]) (use v in auto)
  qed
  have k: "case sys_trap (talk_sys 3 0x1234) of Next v \<Rightarrow> std_in (con (sy_io v)) \<noteq> [[104, 10]] | Halt _ \<Rightarrow> False"
    by code_simp
  have f: "case sys_trap (talk_sys 3 0x5000) of Next v \<Rightarrow> pc (sy_m v) = 0x1100 | Halt _ \<Rightarrow> False" by code_simp
  from w[of "0x5000"] f obtain v5 where v5: "sys_trap (talk_sys 3 0x5000) = Next v5" "retried opt0 (talk_sys 3 0x5000) v5"
    by auto
  from w[of "0x1234"] k obtain v where v: "sys_trap (talk_sys 3 0x1234) = Next v" "RD (sy_m v) 2 = 2"
    "got (talk_machine 3 0x1234) 0x1234 [104, 10] (sy_m v)"
    by (auto simp: retried_def c)
  have "cphys (mem (talk_machine 3 0x1234)) (buf_addr (talk_machine 3 0x1234) 0x1234 i) \<noteq> 0x7236" if "i < 2" for i
    using that talk_cell[of i] by (auto simp: less_2_cases_iff)
  then have "(0x7236 :: u32) \<notin> buf_cells (talk_machine 3 0x1234) 0x1234 (length [104, 10 :: u8])" by (auto simp: buf_cells_def)
  moreover have "flat (mem (talk_machine 3 0x1234)) 0x7236 = 0x0A" by code_simp
  ultimately have "user_bytes (sy_m v) 0x1234 2 = [104, 10]" "flat (mem (sy_m v)) 0x7236 = 0x0A"
    using v(3) by (simp_all add: got_def numeral_2_eq_2)
  then show ?thesis using v v5 by blast
qed

text \<open>A program's read of the raw disk gives it the sectors' bytes, zeros past the end of the image, or is made
  again.\<close>

theorem disk_read_once:
  assumes "user_call s" "RD (sy_m s) 9 = 3" "mmu_ok (sy_m s)" "trap_pc (sy_m s) < 0xC0000000" "aligned (trap_pc (sy_m s))"
    and "io = sy_io (sys_switch s)" "d = RD (sy_m s) 2" "n = RD (sy_m s) 4"
    and "\<not> fd_is_console io d" "d < 64" "fd_disk (io_tab io) d \<noteq> 0" "disk_img (dev (sy_m s)) = Some f"
    and "user_buf (sy_m s) (RD (sy_m s) 3) n" "bs = file_read0 f (unat (disk_off (io_tab io) d)) (unat n)"
    and "own_if_there (sy_m s) (RD (sy_m s) 3) (unat n) (length bs)"
  shows "\<exists>v. sys_trap s = Next v \<and>
    (retried opt s v \<or>
     handed (sy_m s) (RD (sy_m s) 3) (unat n) (trap_pc (sy_m s)) bs (sy_m v) \<and>
     sy_io v = set_disk_off d (disk_off (io_tab io) d + n) io)"
proof -
  define t where "t = sys_switch s"
  note w = switched[OF assms(3), folded t_def]
  have le: "length bs \<le> unat n" by (simp add: assms(14) file_read0_def file_read_def Let_def)
  have own: "own_if_there (sy_m t) (RD (sy_m t) 3) (unat (RD (sy_m t) 4)) (length bs)"
    using own_switched[OF assms(3,13) le] assms(8,15) by (simp add: w(3) t_def[symmetric])
  have h: "RD (sy_m t) 2 < 64" "fd_disk (io_tab (sy_io t)) (RD (sy_m t) 2) \<noteq> 0" "disk_img (dev (sy_m t)) = Some f"
    "user_buf (sy_m t) (RD (sy_m t) 3) (RD (sy_m t) 4)"
    "bs = file_read0 f (unat (disk_off (io_tab (sy_io t)) (RD (sy_m t) 2))) (unat (RD (sy_m t) 4))"
    using assms(6-8,10-14) sameD[OF w(2)] by (simp_all add: w(3,7) t_def[symmetric])
  obtain m io' where m: "disk_syscall 3 (trap_pc (sy_m t)) (sy_m t) (sy_io t) = (True, m, io')"
    and r: "io' = sy_io t \<and> stalled (sy_m t) m (trap_pc (sy_m t)) \<or>
      handed (sy_m t) (RD (sy_m s) 3) (unat n) (trap_pc (sy_m t)) bs m \<and> io' = set_disk_off d (disk_off (io_tab io) d + n) io"
    using disk_read_takes[OF w(1) h own, of "trap_pc (sy_m t)"] assms(6-8) by (auto simp: w(3) t_def[symmetric])
  have "sys_service (RD (sy_m t) 9) (trap_pc (sy_m t)) (sy_m t) (sy_io t) = (True, m, io')"
    using m assms(2,6,7,9) by (simp add: sys_service_def console_syscall_def Let_def w(3) t_def[symmetric])
  from trap_reads[where Q = "\<lambda>x. x = set_disk_off d (disk_off (io_tab io) d + n) io",
      OF assms(1,3-5,13) le t_def this r] show ?thesis .
qed

text \<open>C8. A program's read of the file the host exposes as \<^verbatim>\<open>/hosttar\<close> loses nothing and invents nothing.  If its
  buffer is not resident the call is made again after the page fault.  Otherwise the program is behind the
  call with exactly the bytes of its offset on, of the file followed by zeros up to the length the file is
  presented with, in its buffer, no other byte of memory has changed, and the offset has moved by their
  number.\<close>

theorem hostfile_read_once:
  assumes "user_call s" "RD (sy_m s) 9 = 3" "mmu_ok (sy_m s)" "trap_pc (sy_m s) < 0xC0000000" "aligned (trap_pc (sy_m s))"
    and "io = sy_io (sys_switch s)" "d = RD (sy_m s) 2" "off = host_off io d"
    and "\<not> fd_is_console io d" "d < 64" "fd_disk (io_tab io) d = 0" "fd_host io d \<noteq> 0" "hostfile_img io = Some f"
    and "unat off + unat (RD (sy_m s) 4) < 2 ^ 32" "bs = take (unat (RD (sy_m s) 4)) (drop (unat off) (presented io f))"
    and "user_buf (sy_m s) (RD (sy_m s) 3) (of_nat (length bs))"
    and "own_if_there (sy_m s) (RD (sy_m s) 3) (length bs) (length bs)"
  shows "\<exists>v. sys_trap s = Next v \<and>
    (retried opt s v \<or>
     handed (sy_m s) (RD (sy_m s) 3) (length bs) (trap_pc (sy_m s)) bs (sy_m v) \<and>
     sy_io v = io\<lparr>host_off := (host_off io)(d := off + of_nat (length bs))\<rparr>)"
proof -
  define t where "t = sys_switch s"
  note w = switched[OF assms(3), folded t_def]
  let ?n = "of_nat (length bs) :: u32"
  have n: "unat ?n = length bs"
    using assms(14,15) by (intro unat_of_nat_small) simp
  have own: "own_if_there (sy_m t) (RD (sy_m t) 3) (length bs) (length bs)"
    using own_switched[OF assms(3,16), of "length bs"] assms(17) by (simp add: n w(3) t_def[symmetric])
  have h: "RD (sy_m t) 2 < 64" "fd_host (sy_io t) (RD (sy_m t) 2) \<noteq> 0" "hostfile_img (sy_io t) = Some f"
    "off = host_off (sy_io t) (RD (sy_m t) 2)" "unat off + unat (RD (sy_m t) 4) < 2 ^ 32"
    "bs = take (unat (RD (sy_m t) 4)) (drop (unat off) (presented (sy_io t) f))"
    "user_buf (sy_m t) (RD (sy_m t) 3) (of_nat (length bs))"
    using assms(6-8,10,12-16) by (simp_all add: w(3,7) t_def[symmetric])
  obtain m io' where m: "hostfile_syscall 3 (trap_pc (sy_m t)) (sy_m t) (sy_io t) = (True, m, io')"
    and r: "io' = sy_io t \<and> stalled (sy_m t) m (trap_pc (sy_m t)) \<or>
      handed (sy_m t) (RD (sy_m s) 3) (unat ?n) (trap_pc (sy_m t)) bs m \<and>
      io' = io\<lparr>host_off := (host_off io)(d := off + ?n)\<rparr>"
    using hostfile_read_takes[OF w(1) h own, of "trap_pc (sy_m t)"] assms(6-8) by (auto simp: n w(3) t_def[symmetric])
  have v: "sys_service (RD (sy_m t) 9) (trap_pc (sy_m t)) (sy_m t) (sy_io t) = (True, m, io')"
    using m assms(2,6,7,9,11)
    by (simp add: sys_service_def console_syscall_def disk_syscall_def Let_def w(3) t_def[symmetric])
  have le: "length bs \<le> unat ?n" by (simp only: n)
  from trap_reads[where Q = "\<lambda>x. x = io\<lparr>host_off := (host_off io)(d := off + ?n)\<rparr>", OF assms(1,3-5,16) le t_def v r] show ?thesis by (simp only: n)
qed

text \<open>A file of one byte, presented with two.\<close>

definition host_sys :: sys where
  "host_sys = sys0\<lparr>sy_m := talk_machine 3 0x1234, sy_io := io0\<lparr>console_io := False, fd_host := (\<lambda>_. 0)(1 := 1),
     hostfile_img := Some [104], hostfile_size := 1, hostfile_vsize := 2\<rparr>\<rparr>"

theorem hostfile_read_once_witness:
  "\<exists>v. sys_trap host_sys = Next v \<and> user_bytes (sy_m v) 0x1234 2 = [104, 0] \<and> RD (sy_m v) 2 = 2 \<and> pc (sy_m v) = 0x1108 \<and>
     flat (mem (sy_m v)) 0x7236 = 0x0A \<and> host_off (sy_io v) 1 = 2"
proof -
  let ?io = "sy_io (sys_switch host_sys)"
  have h: "user_call host_sys" "RD (sy_m host_sys) 9 = 3" "trap_pc (sy_m host_sys) = 0x1100"
    "RD (sy_m host_sys) 4 = 3" "RD (sy_m host_sys) 2 = 1" "RD (sy_m host_sys) 3 = 0x1234"
    "\<not> fd_is_console ?io 1" "fd_disk (io_tab ?io) 1 = 0" "fd_host ?io 1 = 1" "host_off ?io 1 = 0"
    "hostfile_img ?io = Some [104]" "hostfile_size ?io = 1" "hostfile_vsize ?io = 2"
    by code_simp+
  have ok: "mmu_ok (sy_m host_sys)" using talk_ok[of 3 "0x1234"] by (simp add: host_sys_def talk_sys_def)
  have m: "sy_m host_sys = talk_machine 3 0x1234" by (simp add: host_sys_def)
  have b: "[104, 0] = take (unat (3 :: u32)) (drop (unat (0 :: u32)) (presented ?io [104]))"
    unfolding presented_def h by code_simp
  have al: "aligned (0x1100 :: u32)" "user_buf (talk_machine 3 0x1234) 0x1234 (of_nat (length [104, 0 :: u8]))"
    "own_if_there (talk_machine 3 0x1234) 0x1234 (length [104, 0 :: u8]) (length [104, 0 :: u8])"
    using talk_own by (simp add: aligned_def, simp add: user_buf_def, simp add: own_if_there_def numeral_2_eq_2)
  obtain v where v: "sys_trap host_sys = Next v" "retried opt0 host_sys v \<or>
      handed (talk_machine 3 0x1234) 0x1234 (length [104, 0 :: u8]) 0x1100 [104, 0] (sy_m v) \<and>
      sy_io v = ?io\<lparr>host_off := (host_off ?io)(1 := 0 + of_nat (length [104, 0 :: u8]))\<rparr>"
    using hostfile_read_once[of host_sys ?io 1 0 "[104]" "[104, 0]" opt0] h ok al b by (auto simp: m)
  have "case sys_trap host_sys of Next v \<Rightarrow> mem_r8 (mem (sy_m v)) 0x7235 = 0 | Halt _ \<Rightarrow> False"
    "mem_r8 (mem (talk_machine 3 0x1234)) 0x7235 = 0x69" "mem_r8 (mem (talk_machine 3 0x1234)) 0x7236 = 0x0A" by code_simp+
  then have nr: "\<not> retried opt0 host_sys v" using v(1) by (auto simp: retried_def m)
  show ?thesis
  proof (intro exI[of _ v] conjI)
    show "flat (mem (sy_m v)) 0x7236 = 0x0A"
    proof -
      have "0x7236 \<notin> buf_cells (talk_machine 3 0x1234) 0x1234 2" using talk_cell by (auto simp: buf_cells_def)
      moreover have "flat (mem (talk_machine 3 0x1234)) 0x7236 = 0x0A" by code_simp
      ultimately show ?thesis using v(2) nr by (simp add: handed_def got_def numeral_2_eq_2)
    qed
  qed (use v nr in \<open>auto simp: handed_def got_def numeral_2_eq_2\<close>)
qed

end
