(* ===== verification/Ffs.thy ===== *)
theory Ffs
  imports Devices
begin

text \<open>
  The filesystem reader of \<^verbatim>\<open>ffs.c\<close>: the superblock and its cache, inode lookup, the block map, the
  directory scan and \<open>ffs_read_file\<close>, over image files that are byte lists.

  A step that runs over the end of a buffer is \<open>Overrun\<close>, the error return \<open>-1\<close> is \<open>Fail\<close>, and the directory scan, whose 32-bit offset may come round
  again, gives \<open>None\<close> where it does not end.  What \<open>malloc\<close> hands out is a parameter: the contents of
  a fresh buffer, or \<open>None\<close>.
\<close>

section \<open>The image\<close>

type_synonym malloc_fun = "nat \<Rightarrow> u8 list option"

definition get32 :: "nat \<Rightarrow> u8 list \<Rightarrow> u32" where
  "get32 p l = be32 (l ! p) (l ! (p + 1)) (l ! (p + 2)) (l ! (p + 3))"

definition dread32 :: "u8 list \<Rightarrow> u32 \<Rightarrow> u32" where
  "dread32 img byteoff =
     (let b = file_read img (unat byteoff) 4 in if length b \<noteq> 4 then 0 else get32 0 b)"

definition dread :: "u8 list \<Rightarrow> u32 \<Rightarrow> u32 \<Rightarrow> u8 list" where
  "dread img byteoff n = file_read0 img (unat byteoff) (unat n)"

text \<open>Storing into a buffer of fixed size.\<close>

definition put_bytes :: "nat \<Rightarrow> u8 list \<Rightarrow> u8 list \<Rightarrow> u8 list c_result" where
  "put_bytes p bs buf =
     (if p + length bs \<le> length buf then Ok (take p buf @ bs @ drop (p + length bs) buf) else Overrun)"

section \<open>The superblock\<close>

record ffs_sb =
  sb_ok :: bool
  sb_fsize :: u32
  sb_bsize :: u32
  sb_frag :: u32
  sb_iblkno :: u32
  sb_cgoffset :: u32
  sb_cgmask :: u32
  sb_ipg :: u32
  sb_fpg :: u32
  sb_inopb :: u32
  sb_nindir :: u32

abbreviation (input) FFS_SBOFF :: u32 where "FFS_SBOFF \<equiv> 8192"

text \<open>The flag is true where the C function returns -1.\<close>

definition ffs_init :: "u8 list option \<Rightarrow> ffs_sb \<Rightarrow> bool \<times> ffs_sb" where
  "ffs_init fp s =
     (if sb_ok s then (False, s)
      else case fp of
        None \<Rightarrow> (True, s)
      | Some img \<Rightarrow>
          if dread32 img (FFS_SBOFF + 0x55c) \<noteq> 0x011954 then (True, s)
          else
            let s = s\<lparr>sb_iblkno := dread32 img (FFS_SBOFF + 0x10),
                      sb_cgoffset := dread32 img (FFS_SBOFF + 0x18),
                      sb_cgmask := dread32 img (FFS_SBOFF + 0x1c),
                      sb_bsize := dread32 img (FFS_SBOFF + 0x30),
                      sb_fsize := dread32 img (FFS_SBOFF + 0x34),
                      sb_frag := dread32 img (FFS_SBOFF + 0x38),
                      sb_nindir := dread32 img (FFS_SBOFF + 0x74),
                      sb_inopb := dread32 img (FFS_SBOFF + 0x78),
                      sb_ipg := dread32 img (FFS_SBOFF + 0xb8),
                      sb_fpg := dread32 img (FFS_SBOFF + 0xbc)\<rparr>
            in if sb_fsize s = 0 \<or> sb_bsize s = 0 \<or> sb_ipg s = 0 \<or> sb_inopb s = 0 \<or> sb_nindir s = 0
               then (True, s)
               else (False, s\<lparr>sb_ok := True\<rparr>))"

section \<open>Inodes and blocks\<close>

definition blockbyte :: "ffs_sb \<Rightarrow> u32 \<Rightarrow> u32" where
  "blockbyte s fragaddr = fragaddr * sb_fsize s"

definition dinode_byte :: "ffs_sb \<Rightarrow> u32 \<Rightarrow> u32" where
  "dinode_byte s ino =
     (let cg = ino div sb_ipg s;
          cgstart = sb_fpg s * cg + sb_cgoffset s * (cg AND NOT (sb_cgmask s));
          fragaddr = cgstart + sb_iblkno s + ((ino mod sb_ipg s) div sb_inopb s) * sb_frag s
      in blockbyte s fragaddr + (ino mod sb_inopb s) * 128)"

definition ind :: "u8 list \<Rightarrow> ffs_sb \<Rightarrow> u32 \<Rightarrow> u32 \<Rightarrow> u32" where
  "ind img s blkfrag idx =
     (if blkfrag = 0 then 0 else dread32 img (blockbyte s blkfrag + idx * 4))"

definition bmap :: "u8 list \<Rightarrow> ffs_sb \<Rightarrow> u32 list \<Rightarrow> u32 list \<Rightarrow> u32 \<Rightarrow> u32" where
  "bmap img s db ib bn =
     (let nind = sb_nindir s in
      if bn < 12 then db ! unat bn
      else
        let bn = bn - 12 in
        if bn < nind then ind img s (ib ! 0) bn
        else
          let bn = bn - nind in
          if bn < nind * nind then
            let l1 = ind img s (ib ! 1) (bn div nind) in ind img s l1 (bn mod nind)
          else 0)"

fun ffs_fill :: "u8 list \<Rightarrow> ffs_sb \<Rightarrow> u32 list \<Rightarrow> u32 list \<Rightarrow> u32 \<Rightarrow> u32 list \<Rightarrow> u8 list \<Rightarrow> u8 list c_result"
where
  "ffs_fill img s db ib sz [] buf = Ok buf"
| "ffs_fill img s db ib sz (k # ks) buf =
     (let fa = bmap img s db ib k;
          n = (if (k + 1) * sb_bsize s \<le> sz then sb_bsize s else sz - k * sb_bsize s);
          bs = (if fa \<noteq> 0 then dread img (blockbyte s fa) n else replicate (unat n) 0)
      in case put_bytes (unat (k * sb_bsize s)) bs buf of
           Ok buf \<Rightarrow> ffs_fill img s db ib sz ks buf
         | Fail \<Rightarrow> Fail
         | Overrun \<Rightarrow> Overrun)"

definition dinode :: "u8 list \<Rightarrow> ffs_sb \<Rightarrow> u32 \<Rightarrow> u8 list" where
  "dinode img s ino = dread img (dinode_byte s ino) 128"

definition din_size :: "u8 list \<Rightarrow> u32" where "din_size din = get32 0x0c din"

definition din_db :: "u8 list \<Rightarrow> u32 list" where
  "din_db din = map (\<lambda>i. get32 (0x28 + 4 * i) din) [0..<12]"

definition din_ib :: "u8 list \<Rightarrow> u32 list" where
  "din_ib din = map (\<lambda>i. get32 (0x58 + 4 * i) din) [0..<3]"

definition read_ino :: "malloc_fun \<Rightarrow> u8 list \<Rightarrow> ffs_sb \<Rightarrow> u32 \<Rightarrow> (u8 list \<times> u32 \<times> u32) c_result" where
  "read_ino fresh img s ino =
     (let din = dinode img s ino;
          mode = ucast (get16 0 din);
          sz = din_size din
      in case fresh (unat (if sz \<noteq> 0 then sz else 1)) of
           None \<Rightarrow> Fail
         | Some buf \<Rightarrow>
             let nblk = (sz + sb_bsize s - 1) div sb_bsize s in
             (case ffs_fill img s (din_db din) (din_ib din) sz (map of_nat [0..<unat nblk]) buf of
                Ok buf \<Rightarrow> Ok (buf, sz, mode)
              | Fail \<Rightarrow> Fail
              | Overrun \<Rightarrow> Overrun))"

section \<open>Names\<close>

text \<open>The scan of one directory: the inode number of the entry, or 0.\<close>

partial_function (option) dir_scan :: "u8 list \<Rightarrow> u32 \<Rightarrow> u8 list \<Rightarrow> u32 \<Rightarrow> u32 c_result option" where
  "dir_scan dir dlen nm off =
     (if \<not> off + 8 \<le> dlen then Some (Ok 0)
      else if length dir < unat off + 8 then Some Overrun
      else
        let dino = get32 (unat off) dir;
            reclen = get16 (unat off + 4) dir;
            namlen = get16 (unat off + 6) dir
        in if reclen = 0 then Some (Ok 0)
           else if dino \<noteq> 0 \<and> unat namlen = length nm then
             (if length dir < unat off + 8 + length nm then Some Overrun
              else if take (length nm) (drop (unat off + 8) dir) = nm then Some (Ok dino)
              else dir_scan dir dlen nm (off + ucast reclen))
           else dir_scan dir dlen nm (off + ucast reclen))"

abbreviation (input) slash :: u8 where "slash \<equiv> 0x2f"

definition path_comp :: "u8 list \<Rightarrow> u8 list" where
  "path_comp p = take 255 (takeWhile (\<lambda>c. c \<noteq> slash) p)"

lemma path_comp_nonempty:
  assumes "dropWhile (\<lambda>c. c = slash) path \<noteq> []"
  shows "path_comp (dropWhile (\<lambda>c. c = slash) path) \<noteq> []"
  using assms hd_dropWhile[of "\<lambda>c. c = slash" path]
  by (cases "dropWhile (\<lambda>c. c = slash) path") (auto simp: path_comp_def)

lemma path_shrinks:
  assumes "p = dropWhile (\<lambda>c. c = slash) path" "p \<noteq> []"
  shows "length p - length (path_comp p) < length path"
proof -
  have "length p \<le> length path" by (simp add: assms(1) length_dropWhile_le)
  moreover have "0 < length (path_comp p)" "0 < length p"
    using assms path_comp_nonempty by simp_all
  ultimately show ?thesis by linarith
qed

function namei_from :: "malloc_fun \<Rightarrow> u8 list \<Rightarrow> ffs_sb \<Rightarrow> u32 \<Rightarrow> u8 list \<Rightarrow> u32 c_result option" where
  "namei_from fresh img s ino path =
     (let p = dropWhile (\<lambda>c. c = slash) path in
      if p = [] then Some (Ok ino)
      else
        let nm = path_comp p in
        (case read_ino fresh img s ino of
           Fail \<Rightarrow> Some Fail
         | Overrun \<Rightarrow> Some Overrun
         | Ok (dir, dlen, dmode) \<Rightarrow>
             if dmode AND 0xF000 \<noteq> 0x4000 then Some Fail
             else (case dir_scan dir dlen nm 0 of
                 None \<Rightarrow> None
               | Some Fail \<Rightarrow> Some Fail
               | Some Overrun \<Rightarrow> Some Overrun
               | Some (Ok found) \<Rightarrow>
                   if found = 0 then Some Fail
                   else namei_from fresh img s found (drop (length nm) p))))"
  by pat_completeness auto

termination
  by (relation "measure (\<lambda>(_, _, _, _, path). length path)") (simp_all add: path_shrinks)

definition namei :: "malloc_fun \<Rightarrow> u8 list \<Rightarrow> ffs_sb \<Rightarrow> u8 list \<Rightarrow> u32 c_result option" where
  "namei fresh img s path = namei_from fresh img s 2 path"

section \<open>Reading a file\<close>

text \<open>The reader's two statics; an open file of the host is a number, \<open>0\<close> for \<open>NULL\<close>, and \<open>host\<close> gives
  the bytes of each.\<close>

record ffs_state =
  ffs_cache :: ffs_sb
  ffs_fp :: nat

definition ffs_switch :: "nat \<Rightarrow> ffs_state \<Rightarrow> ffs_state" where
  "ffs_switch img st =
     (if img \<noteq> ffs_fp st then st\<lparr>ffs_fp := img, ffs_cache := (ffs_cache st)\<lparr>sb_ok := False\<rparr>\<rparr> else st)"

definition ffs_get ::
  "malloc_fun \<Rightarrow> u8 list \<Rightarrow> ffs_sb \<Rightarrow> u8 list \<Rightarrow> (u8 list \<times> u32) c_result option" where
  "ffs_get fresh file s path =
     (case namei fresh file s path of
        None \<Rightarrow> None
      | Some Fail \<Rightarrow> Some Fail
      | Some Overrun \<Rightarrow> Some Overrun
      | Some (Ok ino) \<Rightarrow>
          (case read_ino fresh file s ino of
             Fail \<Rightarrow> Some Fail
           | Overrun \<Rightarrow> Some Overrun
           | Ok (buf, len, mode) \<Rightarrow>
               if mode AND 0xF000 \<noteq> 0x8000 then Some Fail else Some (Ok (buf, len))))"

definition ffs_read_file ::
  "malloc_fun \<Rightarrow> (nat \<Rightarrow> u8 list) \<Rightarrow> ffs_state \<Rightarrow> nat \<Rightarrow> u8 list \<Rightarrow> (u8 list \<times> u32) c_result option \<times> ffs_state"
where
  "ffs_read_file fresh host st img path =
     (if img = 0 then (Some Fail, st)
      else
        let st = ffs_switch img st;
            file = host (ffs_fp st);
            (err, s) = ffs_init (Some file) (ffs_cache st);
            st = st\<lparr>ffs_cache := s\<rparr>
        in (if err then Some Fail else ffs_get fresh file s path, st))"

declare namei_from.simps [simp del]

section \<open>The bytes of an inode\<close>

text \<open>Byte \<open>i\<close> of an inode: where its block is a hole, 0; otherwise the image byte there, 0 beyond
  the end of the image.\<close>

definition ino_byte :: "u8 list \<Rightarrow> ffs_sb \<Rightarrow> u8 list \<Rightarrow> nat \<Rightarrow> u8" where
  "ino_byte img s din i =
     (let k = i div unat (sb_bsize s);
          fa = bmap img s (din_db din) (din_ib din) (of_nat k);
          p = unat (blockbyte s fa) + i mod unat (sb_bsize s)
      in if fa = 0 \<or> length img \<le> p then 0 else img ! p)"

lemma length_dread [simp]: "length (dread img off n) = unat n"
  by (simp add: dread_def)

lemma dread_nth:
  assumes "i < unat n"
  shows "dread img off n ! i = (if length img \<le> unat off + i then 0 else img ! (unat off + i))"
  using assms by (auto simp: dread_def file_read0_def file_read_def nth_append min_def)

lemma put_bytes_Ok:
  "put_bytes p bs buf = Ok buf' \<longleftrightarrow>
   p + length bs \<le> length buf \<and> buf' = take p buf @ bs @ drop (p + length bs) buf"
  by (auto simp: put_bytes_def)

lemma put_bytes_nth:
  assumes "put_bytes p bs buf = Ok buf'"
  shows "length buf' = length buf"
    and "i < p \<Longrightarrow> buf' ! i = buf ! i"
    and "i < length bs \<Longrightarrow> buf' ! (p + i) = bs ! i"
  using assms by (auto simp: put_bytes_Ok nth_append)

text \<open>The words of the fill loop, as numbers: block \<open>k\<close> begins at \<open>k * bsize\<close> and holds \<open>bsize\<close> bytes,
  fewer if it is the last.\<close>

lemma fill_words:
  assumes B: "sb_bsize s \<noteq> 0" and S: "unat sz + unat (sb_bsize s) \<le> 4294967296"
    and k: "k * unat (sb_bsize s) < unat sz"
  shows "unat (of_nat k * sb_bsize s) = k * unat (sb_bsize s)"
    and "unat (if (of_nat k + 1) * sb_bsize s \<le> sz then sb_bsize s else sz - of_nat k * sb_bsize s) =
         min (unat (sb_bsize s)) (unat sz - k * unat (sb_bsize s))"
proof -
  let ?B = "unat (sb_bsize s)"
  have B1: "1 \<le> ?B" using B by (simp add: unat_gt_0 Suc_leI)
  then have "k \<le> k * ?B" by simp
  with k S B1 have k32: "Suc k < 4294967296" by linarith
  have k1: "unat (of_nat k :: u32) = k" "unat (of_nat k + 1 :: u32) = Suc k"
    using k32 unat_of_nat_small[of k] unat_of_nat_small[of "Suc k"] by (simp_all add: add.commute)
  show kB: "unat (of_nat k * sb_bsize s) = k * ?B"
    using k S by (simp add: unat_word_ariths k1)
  have SB: "unat ((of_nat k + 1) * sb_bsize s) = Suc k * ?B"
    using k S by (subst unat_word_ariths(2)) (simp add: k1)
  have "of_nat k * sb_bsize s \<le> sz" using k by (simp add: word_le_nat_alt kB)
  then have "unat (sz - of_nat k * sb_bsize s) = unat sz - k * ?B"
    by (simp add: unat_sub kB)
  then show "unat (if (of_nat k + 1) * sb_bsize s \<le> sz then sb_bsize s else sz - of_nat k * sb_bsize s) =
         min ?B (unat sz - k * ?B)"
    by (auto simp: word_le_nat_alt SB min_def)
qed

definition block_bytes :: "u8 list \<Rightarrow> ffs_sb \<Rightarrow> u8 list \<Rightarrow> u32 \<Rightarrow> u32 \<Rightarrow> u8 list" where
  "block_bytes img s din k n =
     (let fa = bmap img s (din_db din) (din_ib din) k
      in if fa \<noteq> 0 then dread img (blockbyte s fa) n else replicate (unat n) 0)"

lemma block_bytes_nth:
  assumes "i < unat n" "unat n \<le> unat (sb_bsize s)"
  shows "block_bytes img s din (of_nat k) n ! i = ino_byte img s din (k * unat (sb_bsize s) + i)"
proof -
  have "(k * unat (sb_bsize s) + i) div unat (sb_bsize s) = k"
    "(k * unat (sb_bsize s) + i) mod unat (sb_bsize s) = i"
    using assms by simp_all
  then show ?thesis
    using assms(1) by (simp add: block_bytes_def ino_byte_def Let_def dread_nth)
qed

lemma ffs_fill_bytes:
  assumes B: "sb_bsize s \<noteq> 0" and S: "unat sz + unat (sb_bsize s) \<le> 4294967296"
  shows "\<lbrakk>length buf = max 1 (unat sz); \<And>i. i < k * unat (sb_bsize s) \<Longrightarrow> i < unat sz \<Longrightarrow> buf ! i = ino_byte img s din i;
          k \<le> nb; \<And>j. j < nb \<Longrightarrow> j * unat (sb_bsize s) < unat sz; unat sz \<le> nb * unat (sb_bsize s)\<rbrakk> \<Longrightarrow>
     \<exists>buf'. ffs_fill img s (din_db din) (din_ib din) sz (map of_nat [k..<nb]) buf = Ok buf' \<and>
       length buf' = length buf \<and> (\<forall>i<unat sz. buf' ! i = ino_byte img s din i)"
proof (induction "nb - k" arbitrary: k buf)
  case 0
  then have "k = nb" by simp
  with 0 show ?case by (auto intro: less_le_trans)
next
  case (Suc d)
  let ?B = "unat (sb_bsize s)" let ?k = "of_nat k :: u32"
  let ?n = "if (?k + 1) * sb_bsize s \<le> sz then sb_bsize s else sz - ?k * sb_bsize s"
  let ?bs = "block_bytes img s din ?k ?n"
  have kb: "k < nb" using Suc.hyps by linarith
  note w = fill_words[OF B S Suc.prems(4)[OF kb]]
  have lb: "length ?bs = unat ?n" by (simp add: block_bytes_def Let_def)
  have "k * ?B + length ?bs \<le> length buf"
    using Suc.prems(1) Suc.prems(4)[OF kb] by (simp only: lb w(2))
  then obtain buf1 where b1: "put_bytes (k * ?B) ?bs buf = Ok buf1" by (simp add: put_bytes_def)
  have c1: "buf1 ! i = ino_byte img s din i" if "i < Suc k * ?B" "i < unat sz" for i
  proof (cases "i < k * ?B")
    case True
    with that Suc.prems(2) put_bytes_nth(2)[OF b1] show ?thesis by simp
  next
    case False
    then obtain j where j: "i = k * ?B + j" using le_Suc_ex not_less by blast
    with that w(2) have "j < unat ?n" by auto
    then have "buf1 ! i = ?bs ! j" using put_bytes_nth(3)[OF b1, of j] by (simp only: j lb)
    also have "\<dots> = ino_byte img s din i"
      unfolding j using \<open>j < unat ?n\<close> w(2) by (intro block_bytes_nth) auto
    finally show ?thesis .
  qed
  have "\<exists>buf'. ffs_fill img s (din_db din) (din_ib din) sz (map of_nat [Suc k..<nb]) buf1 = Ok buf' \<and>
       length buf' = length buf1 \<and> (\<forall>i<unat sz. buf' ! i = ino_byte img s din i)"
    using Suc.hyps(2) kb c1 Suc.prems(1,4,5) put_bytes_nth(1)[OF b1]
    by (intro Suc.hyps(1)) auto
  moreover have "[k..<nb] = k # [Suc k..<nb]" using kb by (simp add: upt_conv_Cons)
  moreover have "ffs_fill img s (din_db din) (din_ib din) sz (map of_nat (k # [Suc k..<nb])) buf =
      ffs_fill img s (din_db din) (din_ib din) sz (map of_nat [Suc k..<nb]) buf1"
    using b1 by (simp only: ffs_fill.simps list.map Let_def w(1) block_bytes_def c_result.case)
  ultimately show ?case using put_bytes_nth(1)[OF b1] by simp
qed

text \<open>The number of blocks is the quotient rounded up.\<close>

lemma block_count:
  assumes B: "sb_bsize s \<noteq> 0" and S: "unat sz + unat (sb_bsize s) \<le> 4294967296"
  defines "nb \<equiv> unat ((sz + sb_bsize s - 1) div sb_bsize s)"
  shows "j < nb \<Longrightarrow> j * unat (sb_bsize s) < unat sz" and "unat sz \<le> nb * unat (sb_bsize s)"
proof -
  let ?B = "unat (sb_bsize s)"
  have B1: "1 \<le> ?B" using B by (simp add: unat_gt_0 Suc_leI)
  have "unat (sb_bsize s - 1) = ?B - 1" using B1 by (subst unat_sub) (simp_all add: word_le_nat_alt)
  then have "unat (sz + (sb_bsize s - 1)) = unat sz + (?B - 1)"
    using S B1 by (subst unat_add_small) simp_all
  then have nb: "nb = (unat sz + (?B - 1)) div ?B"
    by (simp add: nb_def unat_div add_diff_eq)
  have split: "unat sz + (?B - 1) = nb * ?B + (unat sz + (?B - 1)) mod ?B" by (simp add: nb)
  have "(unat sz + (?B - 1)) mod ?B < ?B" using B1 by simp
  then show "unat sz \<le> nb * ?B" using split by linarith
  assume "j < nb"
  then have "Suc j * ?B \<le> nb * ?B" by (intro mult_le_mono1) simp
  then show "j * ?B < unat sz" using split B1 by simp
qed

definition well_malloc :: "malloc_fun \<Rightarrow> bool" where
  "well_malloc fresh \<longleftrightarrow> (\<forall>n b. fresh n = Some b \<longrightarrow> length b = n)"

lemma read_ino_Ok:
  assumes "well_malloc fresh" "sb_bsize s \<noteq> 0" "din = dinode img s ino"
    and S: "unat (din_size din) + unat (sb_bsize s) \<le> 4294967296"
    and f: "fresh (max 1 (unat (din_size din))) = Some b"
  shows "\<exists>buf. read_ino fresh img s ino = Ok (buf, din_size din, ucast (get16 0 din)) \<and>
     length buf = max 1 (unat (din_size din)) \<and>
     (\<forall>i<unat (din_size din). buf ! i = ino_byte img s din i)"
proof -
  let ?sz = "din_size din"
  have m: "unat (if ?sz \<noteq> 0 then ?sz else 1) = max 1 (unat ?sz)"
    by (auto simp: unat_gt_0 max_def Suc_le_eq)
  have "length b = max 1 (unat ?sz)" using assms(1) f by (simp add: well_malloc_def)
  then obtain buf where "ffs_fill img s (din_db din) (din_ib din) ?sz
        (map of_nat [0..<unat ((?sz + sb_bsize s - 1) div sb_bsize s)]) b = Ok buf"
      "length buf = length b" "\<forall>i<unat ?sz. buf ! i = ino_byte img s din i"
    using ffs_fill_bytes[OF assms(2) S, where buf = b and k = 0 and img = img and din = din
        and nb = "unat ((?sz + sb_bsize s - 1) div sb_bsize s)"]
      block_count[OF assms(2) S] by auto
  then show ?thesis
    unfolding read_ino_def Let_def assms(3)[symmetric]
    using \<open>length b = _\<close> by (simp only: m f option.case c_result.case) blast
qed

section \<open>Directories\<close>

text \<open>A directory entry as the filesystem writes it: inode number, record length, name length, the
  name and the padding of the record.\<close>

type_synonym dir_entry = "u32 \<times> u16 \<times> u8 list"

fun enc_entry :: "dir_entry \<Rightarrow> u8 list" where
  "enc_entry (ino, reclen, name) =
     [byte_of 0 ino, byte_of 1 ino, byte_of 2 ino, byte_of 3 ino,
      hbyte_of 0 reclen, hbyte_of 1 reclen,
      hbyte_of 0 (of_nat (length name)), hbyte_of 1 (of_nat (length name))]
     @ name @ replicate (unat reclen - 8 - length name) 0"

fun good_entry :: "dir_entry \<Rightarrow> bool" where
  "good_entry (ino, reclen, name) \<longleftrightarrow> 8 + length name \<le> unat reclen"

definition enc_dir :: "dir_entry list \<Rightarrow> u8 list" where
  "enc_dir es = concat (map enc_entry es)"

fun dir_lookup :: "u8 list \<Rightarrow> dir_entry list \<Rightarrow> u32" where
  "dir_lookup nm [] = 0"
| "dir_lookup nm ((ino, reclen, name) # es) =
     (if ino \<noteq> 0 \<and> name = nm then ino else dir_lookup nm es)"

lemma length_enc_entry: "good_entry (ino, reclen, name) \<Longrightarrow> length (enc_entry (ino, reclen, name)) = unat reclen"
  by simp

lemma enc_entry_fields:
  assumes "good_entry (ino, reclen, name)"
  defines "e \<equiv> enc_entry (ino, reclen, name)"
  shows "get32 (length pre) (pre @ e @ post) = ino"
    and "get16 (length pre + 4) (pre @ e @ post) = reclen"
    and "unat (get16 (length pre + 6) (pre @ e @ post)) = length name"
    and "take (length name) (drop (length pre + 8) (pre @ e @ post)) = name"
proof -
  have "length name < 65536" using assms(1) unsigned_less[of reclen, where 'a = nat] by simp
  then have n: "unat (of_nat (length name) :: u16) = length name"
    by (simp add: unat_of_nat take_bit_nat_eq_self)
  show "get32 (length pre) (pre @ e @ post) = ino"
    using be32_byte_of[of ino] by (simp add: get32_def e_def nth_append)
  show "get16 (length pre + 4) (pre @ e @ post) = reclen"
    using be16_hbyte_of[of reclen] by (simp add: get16_def e_def nth_append numeral_eq_Suc)
  show "unat (get16 (length pre + 6) (pre @ e @ post)) = length name"
    using be16_hbyte_of[of "of_nat (length name)"]
    by (simp add: get16_def e_def nth_append numeral_eq_Suc n)
  show "take (length name) (drop (length pre + 8) (pre @ e @ post)) = name"
    by (simp add: e_def)
qed

lemma unat_off8:
  assumes "unat off + 8 < 4294967296"
  shows "unat (off + 8 :: u32) = unat off + 8"
  using assms by (subst unat_add_small) simp_all

lemma dir_scan_at:
  assumes "\<forall>e\<in>set es. good_entry e" and "length pre + length (enc_dir es) + 8 < 4294967296"
  shows "dir_scan (pre @ enc_dir es) (of_nat (length (pre @ enc_dir es))) nm (of_nat (length pre)) =
         Some (Ok (dir_lookup nm es))"
  using assms
proof (induction es arbitrary: pre)
  case Nil
  have "unat (of_nat (length pre) :: u32) = length pre"
    using Nil.prems by (intro unat_of_nat_small) simp
  then have "\<not> (of_nat (length pre) :: u32) + 8 \<le> of_nat (length pre)"
    using Nil.prems by (simp add: word_le_nat_alt unat_off8 enc_dir_def)
  then show ?case by (subst dir_scan.simps) (simp add: enc_dir_def)
next
  case (Cons e es)
  obtain ino reclen name where e: "e = (ino, reclen, name)" by (cases e)
  let ?off = "of_nat (length pre) :: u32" let ?post = "enc_dir es"
  let ?dir = "pre @ enc_entry e @ ?post" let ?dlen = "of_nat (length ?dir) :: u32"
  have g: "good_entry (ino, reclen, name)" using Cons.prems(1) e by auto
  have le: "length (enc_entry e) = unat reclen" using length_enc_entry[OF g] e by simp
  have ed: "enc_dir (e # es) = enc_entry e @ ?post" by (simp add: enc_dir_def)
  have r8: "8 + length name \<le> unat reclen" using g by simp
  have off: "unat ?off = length pre"
    using Cons.prems(2) by (intro unat_of_nat_small) simp
  have dlen: "unat ?dlen = length pre + unat reclen + length ?post"
    using Cons.prems(2) unat_of_nat_small[of "length ?dir"] by (simp add: ed le)
  have c1: "?off + 8 \<le> ?dlen"
    using Cons.prems(2) r8 unfolding word_le_nat_alt dlen
    by (subst unat_off8) (simp_all add: off ed le)
  have c2: "\<not> length ?dir < unat ?off + 8" "\<not> length ?dir < unat ?off + 8 + length name"
    using r8 by (simp_all add: off le)
  have f: "get32 (unat ?off) ?dir = ino" "get16 (unat ?off + 4) ?dir = reclen"
      "unat (get16 (unat ?off + 6) ?dir) = length name" "take (length name) (drop (unat ?off + 8) ?dir) = name"
    unfolding off e by (rule enc_entry_fields[OF g])+
  have r0: "reclen \<noteq> 0" using r8 by auto
  have next_off: "?off + ucast reclen = of_nat (length (pre @ enc_entry e))"
    by (simp add: le)
  have "dir_scan ((pre @ enc_entry e) @ ?post) (of_nat (length ((pre @ enc_entry e) @ ?post))) nm
          (of_nat (length (pre @ enc_entry e))) = Some (Ok (dir_lookup nm es))"
    using Cons.prems by (intro Cons.IH) (auto simp: ed)
  then have rest: "dir_scan ?dir ?dlen nm (?off + ucast reclen) = Some (Ok (dir_lookup nm es))"
    unfolding next_off by simp
  have "dir_scan ?dir ?dlen nm ?off = Some (Ok (dir_lookup nm (e # es)))"
    by (subst dir_scan.simps) (use c1 c2 f r0 rest in \<open>auto simp: Let_def e\<close>)
  then show ?case by (simp add: ed)
qed

lemma unat_ucast16: "unat (ucast (r :: u16) :: u32) = unat r"
  using unsigned_less[of r, where 'a = nat] by (simp add: unsigned_ucast_eq take_bit_nat_eq_self)

text \<open>The offset comes round only in a directory of nearly four gigabytes.\<close>

lemma dir_scan_ends:
  assumes "unat dlen + 65544 < 4294967296"
  shows "unat off \<le> unat dlen + 65535 \<Longrightarrow> dir_scan dir dlen nm off \<noteq> None"
proof (induction "unat dlen + 65536 - unat off" arbitrary: off rule: less_induct)
  case less
  let ?r = "get16 (unat off + 4) dir"
  have r: "unat ?r < 65536" using unsigned_less[of ?r, where 'a = nat] by simp
  have step: "dir_scan dir dlen nm (off + ucast ?r) \<noteq> None" if "off + 8 \<le> dlen" "?r \<noteq> 0"
  proof -
    have o8: "unat off + 8 \<le> unat dlen"
      using that(1) less.prems assms by (simp add: word_le_nat_alt unat_off8)
    then have "unat (off + ucast ?r) = unat off + unat ?r"
      using r assms by (subst unat_add_small) (simp_all add: unat_ucast16)
    moreover have "0 < unat ?r" using that(2) by (simp add: unat_gt_0)
    ultimately show ?thesis using o8 r by (intro less.hyps) simp_all
  qed
  show ?case by (subst dir_scan.simps) (use step in \<open>auto simp: Let_def\<close>)
qed

definition bounded_malloc :: "malloc_fun \<Rightarrow> bool" where
  "bounded_malloc fresh \<longleftrightarrow> (\<forall>n \<ge> 2147483648. fresh n = None)"

lemma read_ino_len:
  assumes "bounded_malloc fresh" "read_ino fresh img s ino = Ok (buf, len, mode)"
  shows "unat len < 2147483648"
proof -
  have "len = din_size (dinode img s ino)" "fresh (unat (if len \<noteq> 0 then len else 1)) \<noteq> None"
    using assms(2) by (auto simp: read_ino_def Let_def split: option.splits c_result.splits if_splits)
  then show ?thesis using assms(1) by (auto simp: bounded_malloc_def not_less[symmetric] split: if_splits)
qed

lemma namei_from_ends:
  assumes "bounded_malloc fresh"
  shows "namei_from fresh img s ino path \<noteq> None"
proof (induction path arbitrary: ino rule: measure_induct_rule[of length])
  case (less path)
  let ?p = "dropWhile (\<lambda>c. c = slash) path"
  have d: "dir_scan dir dlen nm 0 \<noteq> None" if "read_ino fresh img s ino = Ok (dir, dlen, mode)" for dir dlen mode nm
    using read_ino_len[OF assms that] by (intro dir_scan_ends) simp_all
  have n: "?p \<noteq> [] \<Longrightarrow> namei_from fresh img s i (drop (length (path_comp ?p)) ?p) \<noteq> None" for i
    using path_shrinks[OF refl, of path] by (intro less.IH) simp
  show ?case
    by (subst namei_from.simps, unfold Let_def)
      (auto split: c_result.split option.split simp del: dropWhile_eq_Nil_conv dest: d n)
qed

section \<open>Paths\<close>

text \<open>The second path is resolved from where the first one ends.\<close>

definition then_namei :: "u32 c_result option \<Rightarrow> (u32 \<Rightarrow> u32 c_result option) \<Rightarrow> u32 c_result option" where
  "then_namei r f = (case r of Some (Ok ino) \<Rightarrow> f ino | _ \<Rightarrow> r)"

lemma then_namei_simps [simp]:
  "then_namei None f = None" "then_namei (Some Fail) f = Some Fail"
  "then_namei (Some Overrun) f = Some Overrun" "then_namei (Some (Ok i)) f = f i"
  by (simp_all add: then_namei_def)

lemma namei_from_skip: "namei_from fresh img s ino (slash # q) = namei_from fresh img s ino q"
  by (subst (1 2) namei_from.simps) simp

lemma namei_from_slashes:
  "dropWhile (\<lambda>c. c = slash) p = [] \<Longrightarrow> namei_from fresh img s ino (p @ q) = namei_from fresh img s ino q"
proof (induction p)
  case (Cons c p)
  then show ?case by (simp add: namei_from_skip split: if_splits)
qed simp

lemma path_comp_append: "path_comp (p @ slash # q) = path_comp p"
  by (simp add: path_comp_def takeWhile_tail)

lemma length_path_comp: "length (path_comp p) \<le> length p"
  by (simp add: path_comp_def min.coboundedI1 length_takeWhile_le)

lemma namei_from_append:
  "namei_from fresh img s ino (p @ slash # q) =
   then_namei (namei_from fresh img s ino p) (\<lambda>i. namei_from fresh img s i q)"
proof (induction p arbitrary: ino rule: measure_induct_rule[of length])
  case (less path)
  let ?p = "dropWhile (\<lambda>c. c = slash) path"
  show ?case
  proof (cases "?p = []")
    case True
    then have "namei_from fresh img s ino (path @ slash # q) = namei_from fresh img s ino q"
      by (simp add: namei_from_slashes namei_from_skip)
    moreover have "namei_from fresh img s ino path = Some (Ok ino)"
      using True by (subst namei_from.simps) (simp add: Let_def)
    ultimately show ?thesis by simp
  next
    case False
    have d: "dropWhile (\<lambda>c. c = slash) (path @ slash # q) = ?p @ slash # q"
      using False by (metis dropWhile_append dropWhile_eq_Nil_conv)
    have n: "namei_from fresh img s i (drop (length (path_comp ?p)) ?p @ slash # q) =
        then_namei (namei_from fresh img s i (drop (length (path_comp ?p)) ?p)) (\<lambda>i. namei_from fresh img s i q)" for i
      using path_shrinks[OF refl False] by (intro less.IH) simp
    show ?thesis
      using False
      by (subst (1 2) namei_from.simps, unfold Let_def d)
        (simp add: path_comp_append length_path_comp n split: c_result.split option.split
          del: dropWhile_eq_Nil_conv)
  qed
qed

section \<open>The cached superblock\<close>

definition ffs_state0 :: ffs_state where
  "ffs_state0 = \<lparr>ffs_cache = \<lparr>sb_ok = False, sb_fsize = 0, sb_bsize = 0, sb_frag = 0, sb_iblkno = 0,
     sb_cgoffset = 0, sb_cgmask = 0, sb_ipg = 0, sb_fpg = 0, sb_inopb = 0, sb_nindir = 0\<rparr>, ffs_fp = 0\<rparr>"

text \<open>A superblock in the cache is the one the image it was read from has now.\<close>

definition ffs_coherent :: "(nat \<Rightarrow> u8 list) \<Rightarrow> ffs_state \<Rightarrow> bool" where
  "ffs_coherent host st \<longleftrightarrow>
     (sb_ok (ffs_cache st) \<longrightarrow>
        ffs_init (Some (host (ffs_fp st))) (ffs_cache ffs_state0) = (False, ffs_cache st))"

lemma ffs_init_fresh:
  assumes "\<not> sb_ok s" "\<not> sb_ok s'"
  shows "fst (ffs_init fp s) = fst (ffs_init fp s')"
    and "\<not> fst (ffs_init fp s) \<Longrightarrow> ffs_init fp s = ffs_init fp s'"
  using assms by (auto simp: ffs_init_def Let_def split: option.splits if_splits)

lemma ffs_init_ok: "\<not> fst (ffs_init fp s) \<longleftrightarrow> sb_ok (snd (ffs_init fp s))"
  by (auto simp: ffs_init_def Let_def split: option.splits)

lemma ffs_switch_coherent:
  assumes "ffs_coherent host st"
  shows "ffs_fp (ffs_switch img st) = img" "ffs_coherent host (ffs_switch img st)"
  using assms by (auto simp: ffs_switch_def ffs_coherent_def)

lemma ffs_init_coherent:
  assumes "ffs_coherent host st" "ffs_fp st = img"
  defines "r \<equiv> ffs_init (Some (host img)) (ffs_cache st)"
    and "r0 \<equiv> ffs_init (Some (host img)) (ffs_cache ffs_state0)"
  shows "fst r = fst r0" "\<not> fst r \<Longrightarrow> r = r0" "ffs_coherent host (st\<lparr>ffs_cache := snd r\<rparr>)"
proof -
  have n: "\<not> sb_ok (ffs_cache ffs_state0)" by (simp add: ffs_state0_def)
  have ok: "r = (False, ffs_cache st)" if "sb_ok (ffs_cache st)"
    using that by (simp add: r_def ffs_init_def)
  have c: "sb_ok (ffs_cache st) \<Longrightarrow> r0 = (False, ffs_cache st)"
    using assms(1,2) by (simp add: ffs_coherent_def r0_def)
  show 1: "fst r = fst r0"
    using ok c ffs_init_fresh(1)[OF _ n] by (cases "sb_ok (ffs_cache st)") (auto simp: r_def r0_def)
  show 2: "r = r0" if "\<not> fst r"
    using that ok c ffs_init_fresh(2)[OF _ n] by (cases "sb_ok (ffs_cache st)") (auto simp: r_def r0_def)
  show "ffs_coherent host (st\<lparr>ffs_cache := snd r\<rparr>)"
    unfolding ffs_coherent_def
  proof
    assume "sb_ok (ffs_cache (st\<lparr>ffs_cache := snd r\<rparr>))"
    then have "\<not> fst r" by (simp add: r_def ffs_init_ok)
    then have "r0 = (False, snd r)" using 1 2 by (metis prod.collapse)
    then show "ffs_init (Some (host (ffs_fp (st\<lparr>ffs_cache := snd r\<rparr>)))) (ffs_cache ffs_state0) =
        (False, ffs_cache (st\<lparr>ffs_cache := snd r\<rparr>))"
      using assms(2) by (simp add: r0_def)
  qed
qed

lemma ffs_read_file_coherent:
  assumes "ffs_coherent host st"
  shows "fst (ffs_read_file fresh host st img path) = fst (ffs_read_file fresh host ffs_state0 img path)"
    and "ffs_coherent host (snd (ffs_read_file fresh host st img path))"
proof -
  have 0: "ffs_coherent host ffs_state0" by (simp add: ffs_coherent_def ffs_state0_def)
  have s0: "ffs_cache (ffs_switch img ffs_state0) = ffs_cache ffs_state0"
    by (simp add: ffs_switch_def ffs_state0_def)
  note sw = ffs_switch_coherent[OF assms, of img] and sw0 = ffs_switch_coherent[OF 0, of img]
  note i = ffs_init_coherent[OF sw(2,1)]
  obtain e s where r: "ffs_init (Some (host img)) (ffs_cache (ffs_switch img st)) = (e, s)" by fastforce
  obtain e' s' where r': "ffs_init (Some (host img)) (ffs_cache ffs_state0) = (e', s')" by fastforce
  have "e = e'" "\<not> e \<Longrightarrow> s = s'" using i(1,2) by (simp_all add: r r')
  then show "fst (ffs_read_file fresh host st img path) = fst (ffs_read_file fresh host ffs_state0 img path)"
    by (auto simp: ffs_read_file_def Let_def sw(1) sw0(1) s0 r r')
  show "ffs_coherent host (snd (ffs_read_file fresh host st img path))"
    using assms i(3) by (auto simp: ffs_read_file_def Let_def sw(1) r)
qed

lemma ffs_get_returns:
  assumes "bounded_malloc fresh"
  shows "ffs_get fresh file s path \<noteq> None"
proof (cases "namei fresh file s path")
  case None
  then show ?thesis using namei_from_ends[OF assms] by (simp add: namei_def)
next
  case (Some r)
  then show ?thesis by (cases r) (auto simp: ffs_get_def split: c_result.split)
qed

lemma ffs_read_file_returns:
  assumes "bounded_malloc fresh"
  shows "fst (ffs_read_file fresh host st img path) \<noteq> None"
  by (simp add: ffs_read_file_def ffs_get_returns[OF assms, simplified] Let_def split: prod.split)

text \<open>An entry whose name length runs past the directory makes the comparison read past the buffer.\<close>

lemma dir_overread:
  "dir_scan [0, 0, 0, 7, 0, 16, 0, 40, 97, 97, 97, 97, 97, 97, 97, 97] 16 (replicate 40 97) 0 = Some Overrun"
  by (subst dir_scan.simps) code_simp

section \<open>Properties\<close>

text \<open>A file of ten bytes, a block of data and a hole, on an image of 136 bytes.\<close>

definition sb_small :: ffs_sb where
  "sb_small = \<lparr>sb_ok = True, sb_fsize = 1, sb_bsize = 8, sb_frag = 8, sb_iblkno = 0,
     sb_cgoffset = 0, sb_cgmask = 0, sb_ipg = 4, sb_fpg = 0, sb_inopb = 4, sb_nindir = 2\<rparr>"

definition img_small :: "u8 list" where
  "img_small = [0x81, 0xA4] @ replicate 10 0 @ [0, 0, 0, 10] @ replicate 24 0 @ [0, 0, 0, 128]
     @ replicate 84 0 @ [1, 2, 3, 4, 5, 6, 7, 8]"

text \<open>C21. Reading an inode: with the geometry the superblock gives, the buffer \<open>read_ino\<close> returns has
  the inode's size and holds, at every position, the byte the block map puts there, 0 in a hole and
  beyond the end of the image.  Nothing is stored outside the buffer, and no byte of it is left as
  \<open>malloc\<close> gave it.\<close>

theorem inode_bytes:
  assumes "well_malloc fresh" and "sb_bsize s \<noteq> 0" and "din = dinode img s ino"
    and "unat (din_size din) + unat (sb_bsize s) \<le> 4294967296"
    and "fresh (max 1 (unat (din_size din))) = Some b"
  shows "\<exists>buf. read_ino fresh img s ino = Ok (buf, din_size din, ucast (get16 0 din)) \<and>
     length buf = max 1 (unat (din_size din)) \<and>
     (\<forall>i<unat (din_size din). buf ! i = ino_byte img s din i)"
  using assms by (rule read_ino_Ok)

theorem inode_bytes_witness:
  "\<exists>buf. read_ino (\<lambda>n. Some (replicate n 0xEE)) img_small sb_small 0 = Ok (buf, 10, 0x81A4) \<and>
     length buf = 10 \<and> buf ! 3 = 4 \<and> buf ! 8 = 0"
proof -
  have v: "din_size (dinode img_small sb_small 0) = 10" "get16 0 (dinode img_small sb_small 0) = 0x81A4"
      "sb_bsize sb_small = 8" "ino_byte img_small sb_small (dinode img_small sb_small 0) 3 = 4"
      "ino_byte img_small sb_small (dinode img_small sb_small 0) 8 = 0"
    by code_simp+
  show ?thesis
    using inode_bytes[of "\<lambda>n. Some (replicate n 0xEE)" sb_small "dinode img_small sb_small 0" img_small 0]
    by (auto simp: v well_malloc_def)
qed

text \<open>A directory written entry by entry is read entry by entry: the scan finds the first entry in
  use with exactly this name, and 0 where there is none.\<close>

theorem dir_scan_finds:
  assumes "\<forall>e\<in>set es. good_entry e" and "length (enc_dir es) + 8 < 4294967296"
  shows "dir_scan (enc_dir es) (of_nat (length (enc_dir es))) nm 0 = Some (Ok (dir_lookup nm es))"
  using dir_scan_at[of es "[]" nm] assms by simp

theorem dir_scan_finds_witness:
  "dir_scan (enc_dir [(2, 12, c_string ''.''), (0, 12, c_string ''unix''), (7, 16, c_string ''vmunix'')])
     (of_nat (length (enc_dir [(2, 12, c_string ''.''), (0, 12, c_string ''unix''), (7, 16, c_string ''vmunix'')])))
     (c_string ''vmunix'') 0 = Some (Ok 7)"
proof -
  let ?es = "[(2, 12, c_string ''.''), (0, 12, c_string ''unix''), (7, 16, c_string ''vmunix'')] :: dir_entry list"
  have l: "\<forall>e\<in>set ?es. good_entry e" "length (enc_dir ?es) = 40" "dir_lookup (c_string ''vmunix'') ?es = 7"
    by code_simp+
  show ?thesis
    using dir_scan_finds[of ?es "c_string ''vmunix''"] unfolding l(2,3) using l(1) by simp
qed

text \<open>A path is resolved component by component: \<open>p/q\<close> is \<open>q\<close> looked up from the inode \<open>p\<close> names,
  and fails where \<open>p\<close> does, for any two paths and any number of slashes between them.\<close>

theorem namei_path:
  "namei_from fresh img s ino (p @ slash # q) =
   (case namei_from fresh img s ino p of
      Some (Ok i) \<Rightarrow> namei_from fresh img s i q
    | r \<Rightarrow> r)"
  unfolding namei_from_append by (simp add: then_namei_def split: option.split c_result.split)



text \<open>C23. The cached superblock never shows: while the images' superblocks stay as they are, a read gives what
  a reader that has just started would give, whichever images were read before it, and the cache
  stays that way.\<close>

theorem ffs_cache_coherent:
  assumes "ffs_coherent host st"
  shows "fst (ffs_read_file fresh host st img path) = fst (ffs_read_file fresh host ffs_state0 img path) \<and>
     ffs_coherent host (snd (ffs_read_file fresh host st img path))"
  using ffs_read_file_coherent[OF assms] by simp

theorem ffs_cache_coherent_witness:
  "let host = (\<lambda>n. if n = 1 then img_small else []); fresh = (\<lambda>n. Some (replicate n 0));
       st = snd (ffs_read_file fresh host ffs_state0 1 (c_string ''/a''))
   in fst (ffs_read_file fresh host st 2 (c_string ''/b'')) =
      fst (ffs_read_file fresh host ffs_state0 2 (c_string ''/b''))"
  unfolding Let_def
  by (rule ffs_cache_coherent[THEN conjunct1], rule ffs_cache_coherent[THEN conjunct2])
    (simp add: ffs_coherent_def ffs_state0_def)

end
