(* ===== verification/Command.thy ===== *)
theory Command
  imports Sysmode Ffs
begin

text \<open>
  The command line (\<^verbatim>\<open>main.c\<close>): the options, what follows from them, the files that are opened, and the
  run that is started.

  Options may stand anywhere; the loop over the words is \<open>parse\<close>, one word \<open>opt_step\<close>, in the groups the
  code has them in.  \<open>main_sys\<close> and \<open>main_user\<close> are the two modes.  Files are the bytes the host gives for a
  name; two names are two files.

  The lemmas show that no command line overruns an array, what \<open>--shell\<close> amounts to wherever it
  stands, and that a whole run leaves the file it boots from alone.
\<close>

section \<open>Words\<close>

definition starts :: "string \<Rightarrow> bytes \<Rightarrow> bool" where
  "starts p a \<longleftrightarrow> take (length p) a = c_string p"

definition rest_of :: "string \<Rightarrow> bytes \<Rightarrow> bytes" where
  "rest_of p a = drop (length p) a"

definition is_word :: "string \<Rightarrow> bytes \<Rightarrow> bool" where
  "is_word p a \<longleftrightarrow> a = c_string p"

text \<open>\<open>strtoull\<close> in base 0: blanks, a sign, \<open>0x\<close> for hexadecimal, \<open>0\<close> for octal; too large a number is the
  largest one.\<close>

definition digit_of :: "u8 \<Rightarrow> nat" where
  "digit_of c =
     (let n = unat c in
      if 48 \<le> n \<and> n \<le> 57 then n - 48
      else if 97 \<le> n \<and> n \<le> 122 then n - 87
      else if 65 \<le> n \<and> n \<le> 90 then n - 55
      else 99)"

fun digits :: "nat \<Rightarrow> nat \<Rightarrow> bytes \<Rightarrow> nat" where
  "digits base acc [] = acc"
| "digits base acc (c # cs) = (if digit_of c < base then digits base (acc * base + digit_of c) cs else acc)"

definition base_digits :: "bytes \<Rightarrow> nat" where
  "base_digits s =
     (case s of
        c # x # d # _ \<Rightarrow>
          if c = 48 \<and> (x = 120 \<or> x = 88) \<and> digit_of d < 16 then digits 16 0 (drop 2 s)
          else if c = 48 then digits 8 0 s else digits 10 0 s
      | c # _ \<Rightarrow> if c = 48 then digits 8 0 s else digits 10 0 s
      | [] \<Rightarrow> 0)"

definition strtoull :: "bytes \<Rightarrow> u64" where
  "strtoull s =
     (let s = dropWhile (\<lambda>c. c = 32 \<or> 9 \<le> c \<and> c \<le> 13) s;
          (neg, s) = (case s of c # cs \<Rightarrow> if c = 45 then (True, cs) else if c = 43 then (False, cs) else (False, s)
                      | [] \<Rightarrow> (False, s));
          n = base_digits s
      in if n \<ge> 2 ^ 64 then - 1 else if neg then - of_nat n else of_nat n)"

abbreviation strtoul32 :: "bytes \<Rightarrow> u32" where "strtoul32 s \<equiv> ucast (strtoull s)"

section \<open>Options\<close>

abbreviation (input) MAX_UARGV :: nat where "MAX_UARGV \<equiv> 32"
abbreviation (input) MAX_UENVP :: nat where "MAX_UENVP \<equiv> 32"
abbreviation (input) MAX_WORDS :: nat where "MAX_WORDS \<equiv> 64"

record opts =
  o_limit :: u64
  o_sig :: u32
  o_sys :: bool                    \<comment> \<open>\<open>mode_sys\<close>\<close>
  o_tickdiv_set :: bool
  o_color :: int                   \<comment> \<open>0 auto, 1 \<open>--color\<close>, -1 \<open>--no-color\<close>\<close>
  o_words :: "bytes list"
  o_nodes :: u32
  o_root :: "bytes option"
  o_kernel :: "bytes option"
  o_disk :: bytes
  o_hostfile :: "bytes option"
  o_desc_clear :: u32
  o_clock :: bool
  o_period :: u64
  o_tickdiv :: u32
  o_interactive :: bool
  o_deliver :: bool
  o_uprog :: "bytes option"
  o_uargv :: "bytes list"
  o_uenvp :: "bytes list"
  o_kmsgs :: bool
  o_vmexp :: bool
  o_procexp :: bool
  o_procexec :: bool
  o_dataphys :: bool
  o_init :: bool
  o_console :: bool
  o_port :: u32
  o_debug :: bool
  o_verbose :: bool

definition opts0 :: opts where
  "opts0 = \<lparr>o_limit = 200000000, o_sig = 65, o_sys = False, o_tickdiv_set = False, o_color = 0, o_words = [],
     o_nodes = 0, o_root = None, o_kernel = None, o_disk = c_string ''disk.img'', o_hostfile = None,
     o_desc_clear = 4, o_clock = False, o_period = 100000, o_tickdiv = 0, o_interactive = False,
     o_deliver = False, o_uprog = None, o_uargv = [], o_uenvp = [], o_kmsgs = False, o_vmexp = False,
     o_procexp = False, o_procexec = False, o_dataphys = False, o_init = False, o_console = True, o_port = 0,
     o_debug = False, o_verbose = False\<rparr>"

text \<open>The groups of options; \<open>None\<close> where the word is none of the group.\<close>

definition opt_config :: "bytes \<Rightarrow> opts \<Rightarrow> opts option" where
  "opt_config a q =
     (if starts ''--limit='' a then Some (q\<lparr>o_limit := strtoull (rest_of ''--limit='' a)\<rparr>)
      else if starts ''--sig='' a then
        Some (q\<lparr>o_sig := (case rest_of ''--sig='' a of [] \<Rightarrow> 0 | c # _ \<Rightarrow> ucast c)\<rparr>)
      else if starts ''--nodes='' a then Some (q\<lparr>o_nodes := strtoul32 (rest_of ''--nodes='' a)\<rparr>)
      else if starts ''--root='' a then Some (q\<lparr>o_root := Some (rest_of ''--root='' a)\<rparr>)
      else if starts ''--kernel='' a then Some (q\<lparr>o_kernel := Some (rest_of ''--kernel='' a)\<rparr>)
      else if starts ''--disk='' a then Some (q\<lparr>o_disk := rest_of ''--disk='' a\<rparr>)
      else if starts ''--hostfile='' a then Some (q\<lparr>o_hostfile := Some (rest_of ''--hostfile='' a)\<rparr>)
      else if is_word ''--scsi'' a then Some (q\<lparr>o_desc_clear := 0x14\<rparr>)
      else if is_word ''--clock'' a then Some (q\<lparr>o_clock := True\<rparr>)
      else if starts ''--clock='' a then Some (q\<lparr>o_clock := True, o_period := strtoull (rest_of ''--clock='' a)\<rparr>)
      else if starts ''--tickdiv='' a then
        Some (q\<lparr>o_tickdiv := strtoul32 (rest_of ''--tickdiv='' a), o_tickdiv_set := True\<rparr>)
      else None)"

definition opt_launch :: "bytes \<Rightarrow> opts \<Rightarrow> opts option" where
  "opt_launch a q =
     (if is_word ''--shell'' a then Some (q\<lparr>o_interactive := True, o_deliver := True, o_limit := - 1\<rparr>)
      else if starts ''--uprog='' a then
        Some (q\<lparr>o_uprog := Some (rest_of ''--uprog='' a), o_deliver := True, o_debug := True\<rparr>)
      else if starts ''--uarg='' a \<and> length (o_uargv q) < MAX_UARGV then
        Some (q\<lparr>o_uargv := o_uargv q @ [rest_of ''--uarg='' a]\<rparr>)
      else if starts ''--uenv='' a \<and> length (o_uenvp q) < MAX_UENVP then
        Some (q\<lparr>o_uenvp := o_uenvp q @ [rest_of ''--uenv='' a]\<rparr>)
      else None)"

definition opt_output :: "bytes \<Rightarrow> opts \<Rightarrow> opts option" where
  "opt_output a q =
     (if is_word ''--quiet'' a then Some (q\<lparr>o_debug := False\<rparr>)
      else if is_word ''--debug'' a then Some (q\<lparr>o_debug := True\<rparr>)
      else if is_word ''--kmsg'' a then Some (q\<lparr>o_kmsgs := True\<rparr>)
      else if is_word ''--color'' a then Some (q\<lparr>o_color := 1\<rparr>)
      else if is_word ''--no-color'' a then Some (q\<lparr>o_color := - 1\<rparr>)
      else if is_word ''--scsitrace'' a \<or> is_word ''--pchist'' a \<or> is_word ''--profile'' a \<or> is_word ''--vmprobe'' a
      then Some (q\<lparr>o_debug := True\<rparr>)
      else if is_word ''--vmexp'' a then Some (q\<lparr>o_vmexp := True, o_debug := True\<rparr>)
      else if is_word ''--ctxtrace'' a then Some (q\<lparr>o_debug := True\<rparr>)
      else if starts ''--handload='' a then
        Some (q\<lparr>o_procexp := True, o_uprog := Some (rest_of ''--handload='' a), o_deliver := True, o_debug := True\<rparr>)
      else if is_word ''--dataphys'' a then Some (q\<lparr>o_dataphys := True\<rparr>)
      else if is_word ''--init'' a then Some (q\<lparr>o_init := True\<rparr>)
      else None)"

definition opt_watch :: "bytes \<Rightarrow> opts \<Rightarrow> opts option" where
  "opt_watch a q =
     (if starts ''--pwatch='' a \<or> starts ''--wmem='' a \<or> starts ''--stwatch='' a \<or> starts ''--regfind='' a \<or>
         starts ''--traceat='' a \<or> starts ''--wtrace='' a \<or> starts ''--watch='' a
      then Some (q\<lparr>o_debug := True\<rparr>)
      else if is_word ''--trace-traps'' a then Some (q\<lparr>o_deliver := True, o_debug := True\<rparr>)
      else if starts ''--tracelen='' a then Some q
      else None)"

definition opt_mode :: "bytes \<Rightarrow> opts \<Rightarrow> opts" where
  "opt_mode a q =
     (if is_word ''--no-console'' a then q\<lparr>o_console := False\<rparr>
      else if starts ''--console-port='' a then q\<lparr>o_port := strtoul32 (rest_of ''--console-port='' a)\<rparr>
      else if is_word ''-v'' a then q\<lparr>o_verbose := True, o_debug := True\<rparr>
      else if is_word ''sys'' a then q\<lparr>o_sys := True\<rparr>
      else if is_word ''user'' a then q\<lparr>o_sys := False\<rparr>
      else if length (o_words q) < MAX_WORDS - 1 then q\<lparr>o_words := o_words q @ [a]\<rparr>
      else q)"

definition opt_step :: "opts \<Rightarrow> bytes \<Rightarrow> opts" where
  "opt_step q a =
     (case opt_config a q of Some q \<Rightarrow> q | None \<Rightarrow>
     (case opt_launch a q of Some q \<Rightarrow> q | None \<Rightarrow>
     (case opt_output a q of Some q \<Rightarrow> q | None \<Rightarrow>
     (case opt_watch a q of Some q \<Rightarrow> q | None \<Rightarrow> opt_mode a q))))"

definition parse :: "bytes list \<Rightarrow> opts" where
  "parse args = foldl opt_step opts0 args"

text \<open>What follows from the options.\<close>

definition opt_process :: "opts \<Rightarrow> opts" where
  "opt_process q =
     (let q = (if (o_uprog q \<noteq> None \<or> o_interactive q) \<and> \<not> o_procexp q
               then q\<lparr>o_procexp := True, o_procexec := True\<rparr> else q)
      in if o_procexec q then q\<lparr>o_dataphys := True, o_nodes := if o_nodes q = 0 then 1 else o_nodes q\<rparr> else q)"

definition opt_clock :: "opts \<Rightarrow> opts" where
  "opt_clock q = (if o_clock q \<and> \<not> o_tickdiv_set q then q\<lparr>o_tickdiv := 1\<rparr> else q)"

definition opt_shell :: "opts \<Rightarrow> opts" where
  "opt_shell q =
     (if o_interactive q \<and> o_uprog q = None
      then q\<lparr>o_uprog := Some (c_string ''/bin/sh''),
             o_uargv := if o_uargv q = [] then [c_string ''sh''] else o_uargv q,
             o_uenvp := if o_uenvp q = []
               then map c_string [''PATH=/bin:/etc:/usr/bin'', ''HOME=/'', ''TERM=vt100'', ''SHELL=/bin/sh'']
               else o_uenvp q\<rparr>
      else q)"

section \<open>Setting up the run\<close>

text \<open>The host: whether standard output is a terminal, \<open>NO_COLOR\<close> is set, and the listener comes up.\<close>

record host_env =
  h_tty :: bool
  h_no_color :: bool
  h_listens :: bool

definition color_on :: "host_env \<Rightarrow> opts \<Rightarrow> bool" where
  "color_on h q \<longleftrightarrow> o_color q > 0 \<or> o_color q = 0 \<and> \<not> h_no_color h \<and> h_tty h"

definition set_clock :: "opts \<Rightarrow> dev_state \<Rightarrow> dev_state" where
  "set_clock q d =
     d\<lparr>clock_irq := o_clock q, clock_period := o_period q, tick_div := o_tickdiv q, sha_desc_clear := o_desc_clear q,
       softint_period := if softint_period d \<noteq> 0 then softint_period d
         else if o_tickdiv q \<noteq> 0 then 10000 * ucast (o_tickdiv q) else o_period q\<rparr>"

definition set_machine :: "opts \<Rightarrow> machine \<Rightarrow> machine" where
  "set_machine q m = upd_dev (set_clock q) (m\<lparr>cfg := (cfg m)\<lparr>procexp := o_procexp q\<rparr>\<rparr>)"

text \<open>The images: root and disk, the latter labelled.\<close>

definition set_images :: "host_fs \<Rightarrow> opts \<Rightarrow> bytes \<Rightarrow> machine \<Rightarrow> machine" where
  "set_images fs q path m =
     sd_ensure_label (upd_dev (\<lambda>d. d\<lparr>root_img := fs (case o_root q of None \<Rightarrow> path | Some r \<Rightarrow> r),
       disk_img := fs (o_disk q)\<rparr>) m)"

text \<open>The host file, shown with zeros to a full tar record and four megabytes more.\<close>

definition host_vsize :: "u32 \<Rightarrow> u32" where
  "host_vsize n = (n + 10239) div 10240 * 10240 + 0x400000"

definition set_hostfile :: "host_fs \<Rightarrow> opts \<Rightarrow> io_state \<Rightarrow> io_state" where
  "set_hostfile fs q io =
     (case (case o_hostfile q of None \<Rightarrow> None | Some p \<Rightarrow> fs p) of
        None \<Rightarrow> io
      | Some f \<Rightarrow> io\<lparr>hostfile_img := Some f, hostfile_size := of_nat (length f),
          hostfile_vsize := host_vsize (of_nat (length f))\<rparr>)"

definition console_listen :: "host_env \<Rightarrow> u32 \<Rightarrow> con_state \<Rightarrow> con_state" where
  "console_listen h port c = (if sint port \<le> 0 \<or> \<not> h_listens h then c else c\<lparr>con_use_sock := True\<rparr>)"

definition sys_setup :: "host_env \<Rightarrow> host_fs \<Rightarrow> opts \<Rightarrow> bytes \<Rightarrow> sys \<Rightarrow> sys" where
  "sys_setup h fs q path s =
     (let m = set_machine q (sy_m s);
          m = m\<lparr>mmu := (mmu m)\<lparr>translate_on := True\<rparr>, mem := (mem m)\<lparr>realmm := True\<rparr>\<rparr>;
          io = set_hostfile fs q ((sy_io s)\<lparr>console_io := o_console q\<rparr>)
      in s\<lparr>sy_m := set_images fs q path m, sy_io := io\<lparr>con := console_listen h (o_port q) (con io)\<rparr>,
           sy_km := (sy_km s)\<lparr>km_color := color_on h q\<rparr>, sy_px := (sy_px s)\<lparr>deliver_traps := o_deliver q\<rparr>\<rparr>)"

definition sys_options :: "host_fs \<Rightarrow> opts \<Rightarrow> sys_opts" where
  "sys_options fs q =
     \<lparr>so_px = \<lparr>px_procexec = o_procexec q, px_run_init = o_init q, px_interactive = o_interactive q,
        px_path = o_uprog q, px_argv = o_uargv q, px_envp = o_uenvp q\<rparr>,
      so_fs = fs, so_vmexp = o_vmexp q, so_kmsgs = o_kmsgs q, so_dataphys = o_dataphys q,
      so_synth_boot = True, so_nodes = o_nodes q\<rparr>"

section \<open>The two modes\<close>

definition boot_kernel :: "malloc_fun \<Rightarrow> bytes \<Rightarrow> opts \<Rightarrow> bytes c_result option" where
  "boot_kernel fresh file q =
     map_option (\<lambda>r. case r of Ok (buf, len) \<Rightarrow> Ok (take (unat len) buf) | Fail \<Rightarrow> Fail | Overrun \<Rightarrow> Overrun)
       (fst (ffs_read_file fresh (\<lambda>_. file) ffs_state0 1
               (case o_kernel q of None \<Rightarrow> c_string ''/vmunix'' | Some k \<Rightarrow> k)))"

definition main_sys :: "malloc_fun \<Rightarrow> host_env \<Rightarrow> host_fs \<Rightarrow> opts \<Rightarrow> bytes \<Rightarrow> sys \<Rightarrow> sys c_result option" where
  "main_sys fresh h fs q path s =
     (let q = opt_shell q in
      case fs path of
        None \<Rightarrow> Some Fail
      | Some file \<Rightarrow>
          (case boot_kernel fresh file q of
             None \<Rightarrow> None
           | Some Fail \<Rightarrow> Some Fail
           | Some Overrun \<Rightarrow> Some Overrun
           | Some (Ok img) \<Rightarrow> run_sys (sys_options fs q) img (o_sig q) (o_limit q) (sys_setup h fs q path s)))"

definition main_user :: "host \<Rightarrow> opts \<Rightarrow> bytes \<Rightarrow> machine \<Rightarrow> user \<Rightarrow> (run_end \<times> machine \<times> user) c_result option" where
  "main_user h q path m u = run_user h (set_machine q m) u path (o_words q) (o_limit q)"

datatype main_end =
    Usage
  | Sys_run "sys c_result"
  | User_run "(run_end \<times> machine \<times> user) c_result"

definition main :: "malloc_fun \<Rightarrow> host_env \<Rightarrow> host \<Rightarrow> bytes list \<Rightarrow> sys \<Rightarrow> user \<Rightarrow> main_end option" where
  "main fresh h host args s u =
     (let q = opt_clock (opt_process (parse args)) in
      case o_words q of
        [] \<Rightarrow> Some Usage
      | path # _ \<Rightarrow>
          if o_sys q then map_option Sys_run (main_sys fresh h (h_fs host) q path s)
          else map_option User_run (main_user host q path (sy_m s) u))"

section \<open>What a word of the command line may change\<close>

text \<open>The fields that grow, and the ones that say which program is run.\<close>

definition lists :: "opts \<Rightarrow> bytes list \<times> bytes list \<times> bytes list" where
  "lists q = (o_words q, o_uargv q, o_uenvp q)"

definition list_ok :: "opts \<Rightarrow> bool" where
  "list_ok q \<longleftrightarrow> length (o_words q) < MAX_WORDS \<and> length (o_uargv q) \<le> MAX_UARGV \<and> length (o_uenvp q) \<le> MAX_UENVP"

lemma list_ok_cong: "lists q' = lists q \<Longrightarrow> list_ok q' = list_ok q"
  by (simp add: lists_def list_ok_def)

lemma group_lists:
  "opt_config a q = Some q' \<Longrightarrow> lists q' = lists q" "opt_output a q = Some q' \<Longrightarrow> lists q' = lists q"
  "opt_watch a q = Some q' \<Longrightarrow> lists q' = lists q"
  by (auto simp: opt_config_def opt_output_def opt_watch_def lists_def split: if_splits)

lemma launch_list_ok: "opt_launch a q = Some q' \<Longrightarrow> list_ok q \<Longrightarrow> list_ok q'"
  by (auto simp: opt_launch_def list_ok_def split: if_splits)

lemma mode_list_ok: "list_ok q \<Longrightarrow> list_ok (opt_mode a q)"
  by (auto simp: opt_mode_def list_ok_def)

lemma step_list_ok: "list_ok q \<Longrightarrow> list_ok (opt_step q a)"
  by (auto simp: opt_step_def launch_list_ok mode_list_ok dest!: group_lists dest: list_ok_cong split: option.split)

lemma group_shell:
  "opt_config a q = Some q' \<Longrightarrow> o_interactive q' = o_interactive q \<and> o_deliver q' = o_deliver q"
  "opt_launch a q = Some q' \<Longrightarrow> (o_interactive q \<longrightarrow> o_interactive q') \<and> (o_deliver q \<longrightarrow> o_deliver q')"
  "opt_output a q = Some q' \<Longrightarrow> o_interactive q' = o_interactive q \<and> (o_deliver q \<longrightarrow> o_deliver q')"
  "opt_watch a q = Some q' \<Longrightarrow> o_interactive q' = o_interactive q \<and> (o_deliver q \<longrightarrow> o_deliver q')"
  "o_interactive (opt_mode a q) = o_interactive q \<and> o_deliver (opt_mode a q) = o_deliver q"
  by (auto simp: opt_config_def opt_launch_def opt_output_def opt_watch_def opt_mode_def split: if_splits)

lemma step_shell: "o_interactive q \<and> o_deliver q \<Longrightarrow> o_interactive (opt_step q a) \<and> o_deliver (opt_step q a)"
  using group_shell by (fastforce simp: opt_step_def split: option.split)

lemma step_is_shell: "o_interactive (opt_step q (c_string ''--shell'')) \<and> o_deliver (opt_step q (c_string ''--shell''))"
proof -
  have "opt_config (c_string ''--shell'') q = None"
    by (simp add: opt_config_def starts_def is_word_def c_string_def)
  moreover have "opt_launch (c_string ''--shell'') q = Some (q\<lparr>o_interactive := True, o_deliver := True, o_limit := - 1\<rparr>)"
    by (simp add: opt_launch_def is_word_def)
  ultimately show ?thesis by (simp add: opt_step_def)
qed

text \<open>A property of the options that every word keeps holds after the command line.\<close>

lemma parse_keeps:
  assumes "\<And>q a. I q \<Longrightarrow> I (opt_step q a)" "I q"
  shows "I (foldl opt_step q args)"
  using assms(2) by (induction args arbitrary: q) (simp_all add: assms(1))

lemma shell_parsed:
  assumes "c_string ''--shell'' \<in> set args"
  shows "o_interactive (parse args) \<and> o_deliver (parse args)"
proof -
  obtain as bs where a: "args = as @ c_string ''--shell'' # bs" using assms by (meson split_list)
  show ?thesis
    unfolding parse_def a foldl_append foldl_Cons
    by (rule parse_keeps[of "\<lambda>q. o_interactive q \<and> o_deliver q"]) (rule step_shell, assumption, rule step_is_shell)
qed

lemma parse_list_ok: "list_ok (parse args)"
  unfolding parse_def by (rule parse_keeps[of list_ok, OF step_list_ok]) (simp_all add: list_ok_def opts0_def)

lemma follow_lists [simp]: "lists (opt_process q) = lists q" "lists (opt_clock q) = lists q"
  by (simp_all add: opt_process_def opt_clock_def lists_def Let_def)

lemma shell_list_ok: "list_ok q \<Longrightarrow> list_ok (opt_shell q)"
  by (simp add: opt_shell_def list_ok_def)

text \<open>One more argument than there is room for is taken for a word, the image's name if it is the first.\<close>

lemma late_argument_is_word:
  assumes "length (o_uargv q) = 32" "o_words q = []"
  shows "o_words (opt_step q (c_string ''--uarg=x'')) = [c_string ''--uarg=x'']"
  using assms
  by (simp add: opt_step_def opt_config_def opt_launch_def opt_output_def opt_watch_def opt_mode_def starts_def
      is_word_def c_string_def)

section \<open>Properties\<close>

text \<open>C29. No command line, however long, overruns an array: the collected words, the arguments and the environment
  of the guest's program stay within theirs, the defaults of \<open>--shell\<close> included, and the pointers of a
  user-mode program's arguments fit the array they are collected in.\<close>

theorem command_line_bounds:
  "let q = opt_shell (opt_clock (opt_process (parse args))) in
   length (o_words q) < 64 \<and> length (o_uargv q) \<le> 32 \<and> length (o_uenvp q) \<le> 32 \<and>
   build_stack m (o_words (opt_clock (opt_process (parse args)))) \<noteq> Overrun"
proof -
  have "list_ok (opt_clock (opt_process (parse args)))" using parse_list_ok by (simp add: list_ok_cong[OF follow_lists(2)] list_ok_cong[OF follow_lists(1)])
  moreover from shell_list_ok[OF this] have "list_ok (opt_shell (opt_clock (opt_process (parse args))))" .
  ultimately show ?thesis by (simp add: Let_def list_ok_def build_stack_def split_beta)
qed

text \<open>Wherever \<open>--shell\<close> stands, the run hands the terminal to a program of the guest as a real process: traps
  go to the kernel, there is a program, an argument and an environment, and unless \<open>--handload\<close> asks for
  another way the kernel's own \<open>execve\<close> loads it, with kernel data where the kernel expects it and a
  number of nodes set.\<close>

theorem shell_runs_process:
  assumes "c_string ''--shell'' \<in> set args" "q = opt_shell (opt_clock (opt_process (parse args)))"
  shows "o_interactive q \<and> o_deliver q \<and> o_procexp q \<and> o_uprog q \<noteq> None \<and>
    (o_uprog (parse args) = None \<longrightarrow> o_uargv q \<noteq> [] \<and> o_uenvp q \<noteq> []) \<and>
    (\<not> o_procexp (parse args) \<longrightarrow> o_procexec q \<and> o_dataphys q \<and> o_nodes q \<noteq> 0)"
  using shell_parsed[OF assms(1)]
  by (auto simp: assms(2) opt_shell_def opt_clock_def opt_process_def Let_def)

theorem shell_runs_process_witness:
  "let q = opt_shell (opt_clock (opt_process (parse [c_string ''sys'', c_string ''tape.img'', c_string ''--shell'']))) in
   o_procexec q \<and> o_nodes q = 1 \<and> o_uprog q = Some (c_string ''/bin/sh'') \<and> o_words q = [c_string ''tape.img'']"
proof -
  let ?a = "[c_string ''sys'', c_string ''tape.img'', c_string ''--shell'']"
  let ?q = "opt_shell (opt_clock (opt_process (parse ?a)))"
  have "\<not> o_procexp (parse ?a)" "o_nodes ?q = 1" "o_uprog ?q = Some (c_string ''/bin/sh'')" "o_words ?q = [c_string ''tape.img'']"
    by code_simp+
  with shell_runs_process[of ?a ?q] show ?thesis by (simp add: Let_def)
qed

text \<open>The host file as it is presented: real bytes first, then at least four megabytes of zeros, enough for a
  truncated last member and the two empty blocks that end an archive.  The length is a full tar record
  and four megabytes, so it is never a full record itself.\<close>

theorem hostfile_presented:
  assumes "o_hostfile q = Some p" "fs p = Some f" "length f + 4204543 < 2 ^ 32" "io' = set_hostfile fs q io"
  shows "hostfile_img io' = Some f \<and> unat (hostfile_size io') = length f \<and> hostfile_size io' \<le> hostfile_vsize io' \<and>
    length f + 4194304 \<le> unat (hostfile_vsize io') \<and> unat (hostfile_vsize io') mod 512 = 0 \<and>
    unat (hostfile_vsize io') mod 10240 = 6144"
proof -
  let ?n = "of_nat (length f) :: u32"
  have n: "unat ?n = length f" using assms(3) by (intro unat_of_nat_small) simp
  have a: "unat (?n + 10239) = length f + 10239" using assms(3) n by (subst unat_add_small) simp_all
  let ?k = "(length f + 10239) div 10240"
  have k: "?k * 10240 \<le> length f + 10239" "length f \<le> ?k * 10240" by simp_all
  have m: "unat ((?n + 10239) div 10240 * 10240) = ?k * 10240"
    using assms(3) k(1) by (subst unat_mult_lem[THEN iffD1]) (simp_all add: unat_div a)
  have v: "unat (host_vsize ?n) = ?k * 10240 + 4194304"
    unfolding host_vsize_def using assms(3) k(1) m by (subst unat_add_small) simp_all
  have e: "?k * 10240 + 4194304 = (?k * 20 + 8192) * 512" "?k * 10240 + 4194304 = 6144 + (?k + 409) * 10240" by simp_all
  have "(?k * 10240 + 4194304) mod 512 = 0" unfolding e(1) by simp
  moreover have "(?k * 10240 + 4194304) mod 10240 = 6144" unfolding e(2) by (simp only: mod_mult_self1) simp
  ultimately show ?thesis
    using assms(1,2,4) n v k(2) by (simp add: set_hostfile_def word_le_nat_alt)
qed

theorem hostfile_presented_witness:
  "unat (hostfile_vsize (set_hostfile (\<lambda>_. Some [65, 66, 67]) (opts0\<lparr>o_hostfile := Some [47]\<rparr>) io0)) mod 10240 = 6144"
  using hostfile_presented[of "opts0\<lparr>o_hostfile := Some [47]\<rparr>" "[47]" "\<lambda>_. Some [65, 66, 67]" "[65, 66, 67]" _ io0] by simp

text \<open>From the command line to the end of the run: a machine that was booted never changes the file it has
  as its root, the booted image unless \<open>--root\<close> names another.\<close>

theorem main_keeps_root:
  assumes "main fresh h host args s u = Some (Sys_run (Ok t))"
  shows "\<exists>path words. o_words (parse args) = path # words \<and>
    root_img (dev (sy_m t)) = h_fs host (case o_root (parse args) of None \<Rightarrow> path | Some r \<Rightarrow> r)"
proof -
  let ?q = "opt_clock (opt_process (parse args))" let ?s = "opt_shell ?q"
  have w: "o_words ?q = o_words (parse args)" using follow_lists by (simp add: lists_def)
  have r: "o_root ?s = o_root (parse args)"
    by (simp add: opt_shell_def opt_clock_def opt_process_def Let_def)
  obtain path words where p: "o_words ?q = path # words" "main_sys fresh h (h_fs host) ?q path s = Some (Ok t)"
    using assms by (auto simp: main_def Let_def split: list.splits if_splits)
  obtain img where "run_sys (sys_options (h_fs host) ?s) img (o_sig ?s) (o_limit ?s) (sys_setup h (h_fs host) ?s path s) = Some (Ok t)"
    using p(2) by (auto simp: main_sys_def Let_def split: option.splits c_result.splits)
  from run_sys_keeps[OF this] have "root_img (dev (sy_m t)) = root_img (dev (sy_m (sys_setup h (h_fs host) ?s path s)))" by blast
  also have "\<dots> = h_fs host (case o_root (parse args) of None \<Rightarrow> path | Some r \<Rightarrow> r)"
    by (simp add: sys_setup_def Let_def set_images_def sd_ensure_label_def r split: option.split)
  finally show ?thesis using p(1) w by auto
qed

end
