(* ===== verification/Web.thy ===== *)
theory Web
  imports Console
begin

text \<open>
  The transport of the browser build (the \<^verbatim>\<open>__EMSCRIPTEN__\<close> branches of \<^verbatim>\<open>console.c\<close>): keystrokes arrive in a ring
  of 8192 bytes with two counters that run freely, a read blocks by giving the page a turn.

  What the page does during a turn is one \<open>page_event\<close>; when the list of them is used up the read waits for
  ever, which is \<open>None\<close>.  The bytes sent to the page are the output list.

  The ring is a first-in-first-out queue that drops what does not fit (\<open>fifo\<close>), also when its counters wrap
  at \<open>2 ^ 32\<close>.
\<close>

section \<open>Bounded queues\<close>

text \<open>The contract of a bounded queue: \<open>ok\<close> its invariant, \<open>items\<close> what it holds, oldest first.\<close>

locale fifo =
  fixes put :: "'s \<Rightarrow> 'a \<Rightarrow> 's"
    and get :: "'s \<Rightarrow> ('a \<times> 's) option"
    and items :: "'s \<Rightarrow> 'a list"
    and ok :: "'s \<Rightarrow> bool"
    and cap :: nat
  assumes put_ok: "ok s \<Longrightarrow> ok (put s a)"
    and put_items: "ok s \<Longrightarrow> items (put s a) = (if length (items s) < cap then items s @ [a] else items s)"
    and get_none: "ok s \<Longrightarrow> items s = [] \<Longrightarrow> get s = None"
    and get_some: "ok s \<Longrightarrow> items s = a # as \<Longrightarrow> \<exists>s'. get s = Some (a, s') \<and> ok s' \<and> items s' = as"
    and items_cap: "ok s \<Longrightarrow> length (items s) \<le> cap"
begin

lemma puts_ok: "ok s \<Longrightarrow> ok (foldl put s as)"
  by (induction as arbitrary: s) (simp_all add: put_ok)

lemma puts_items: "ok s \<Longrightarrow> items (foldl put s as) = take cap (items s @ as)"
proof (induction as arbitrary: s)
  case Nil
  then show ?case using items_cap by simp
next
  case (Cons a as)
  have "length (items s) \<le> cap" using Cons.prems by (rule items_cap)
  then show ?case using Cons.IH[OF put_ok[OF Cons.prems]] put_items[OF Cons.prems, of a] by (auto simp: take_Cons')
qed

fun gets :: "nat \<Rightarrow> 's \<Rightarrow> 'a list \<times> 's" where
  "gets 0 s = ([], s)"
| "gets (Suc n) s = (case get s of None \<Rightarrow> ([], s) | Some (a, s) \<Rightarrow> (let (as, s) = gets n s in (a # as, s)))"

lemma gets_items: "ok s \<Longrightarrow> fst (gets n s) = take n (items s) \<and> ok (snd (gets n s)) \<and> items (snd (gets n s)) = drop n (items s)"
proof (induction n arbitrary: s)
  case (Suc n)
  show ?case
  proof (cases "items s")
    case Nil
    then show ?thesis using get_none[OF Suc.prems] Suc.prems by simp
  next
    case (Cons a as)
    then obtain s' where "get s = Some (a, s')" "ok s'" "items s' = as" using get_some[OF Suc.prems] by blast
    then show ?thesis using Suc.IH[of s'] Cons by (simp add: Let_def split_beta)
  qed
qed simp

end

section \<open>The ring\<close>

abbreviation (input) WEBIN_CAP :: u32 where "WEBIN_CAP \<equiv> 8192"

record ring =
  webin :: bytes
  webin_r :: u32
  webin_w :: u32

definition ring0 :: ring where
  "ring0 = \<lparr>webin = replicate 8192 0, webin_r = 0, webin_w = 0\<rparr>"

definition web_put :: "ring \<Rightarrow> u8 \<Rightarrow> ring" where
  "web_put k b =
     (if webin_w k - webin_r k < WEBIN_CAP
      then k\<lparr>webin := (webin k)[unat (webin_w k AND (WEBIN_CAP - 1)) := b], webin_w := webin_w k + 1\<rparr>
      else k)"

definition nx_web_push :: "ring \<Rightarrow> bytes \<Rightarrow> ring" where
  "nx_web_push k bs = foldl web_put k bs"

definition web_avail :: "ring \<Rightarrow> u32" where
  "web_avail k = webin_w k - webin_r k"

definition web_take :: "ring \<Rightarrow> (u8 \<times> ring) option" where
  "web_take k =
     (if webin_r k = webin_w k then None
      else Some (webin k ! unat (webin_r k AND (WEBIN_CAP - 1)), k\<lparr>webin_r := webin_r k + 1\<rparr>))"

text \<open>What the ring holds.\<close>

definition ring_items :: "ring \<Rightarrow> bytes" where
  "ring_items k = map (\<lambda>i. webin k ! ((unat (webin_r k) + i) mod 8192)) [0..<unat (web_avail k)]"

definition ring_ok :: "ring \<Rightarrow> bool" where
  "ring_ok k \<longleftrightarrow> length (webin k) = 8192 \<and> web_avail k \<le> WEBIN_CAP"

lemma and_cap: "unat (x AND 8191 :: u32) = unat x mod 8192"
  using unat_and_mask[of x 13] by (simp add: mask_eq_exp_minus_1)

text \<open>The counters wrap at a multiple of the capacity, so the indices do not notice.\<close>

lemma write_index: "unat (webin_w k) mod 8192 = (unat (webin_r k) + unat (web_avail k)) mod 8192"
proof -
  have "webin_w k = webin_r k + web_avail k" by (simp add: web_avail_def)
  then have "unat (webin_w k) = (unat (webin_r k) + unat (web_avail k)) mod 4294967296"
    by (simp add: unat_word_ariths)
  then show ?thesis by (simp add: mod_mod_cancel)
qed

lemma next_index: "unat (x + 1 :: u32) mod 8192 = Suc (unat x) mod 8192"
  by (simp add: unat_word_ariths mod_mod_cancel)

lemma index_apart:
  assumes "i < n" "n < 8192"
  shows "(r + n) mod 8192 \<noteq> (r + i) mod (8192 :: nat)"
proof
  assume "(r + n) mod 8192 = (r + i) mod 8192"
  then have "8192 dvd (r + n) - (r + i)" using assms(1) by (metis mod_eq_dvd_iff_nat add_le_cancel_left less_imp_le)
  then have "8192 dvd n - i" by simp
  then show False using assms by (meson dvd_imp_le less_imp_diff_less not_le zero_less_diff)
qed

lemma put_items:
  assumes "ring_ok k"
  shows "ring_items (web_put k b) = (if length (ring_items k) < 8192 then ring_items k @ [b] else ring_items k)"
    and "ring_ok (web_put k b)"
proof -
  let ?n = "unat (web_avail k)" let ?r = "unat (webin_r k)"
  have len: "length (webin k) = 8192" using assms by (simp add: ring_ok_def)
  show "ring_items (web_put k b) = (if length (ring_items k) < 8192 then ring_items k @ [b] else ring_items k)"
  proof (cases "web_avail k < WEBIN_CAP")
    case True
    then have n: "?n < 8192" by (simp add: word_less_nat_alt)
    have a: "web_avail (web_put k b) = web_avail k + 1" using True by (simp add: web_put_def web_avail_def)
    have n1: "unat (web_avail k + 1) = Suc ?n" using n by (subst unat_add_small) auto
    have w: "webin (web_put k b) = (webin k)[(?r + ?n) mod 8192 := b]" "webin_r (web_put k b) = webin_r k"
      using True by (simp_all add: web_put_def web_avail_def and_cap write_index[of k, unfolded web_avail_def])
    have "webin (web_put k b) ! ((?r + i) mod 8192) = webin k ! ((?r + i) mod 8192)" if "i < ?n" for i
      using index_apart[OF that n] by (simp add: w)
    then show ?thesis using n by (simp add: ring_items_def a n1 w(2)) (simp add: w(1) len)
  next
    case False
    then have "\<not> ?n < 8192" by (simp add: word_less_nat_alt)
    moreover have "web_put k b = k" using False by (simp add: web_put_def web_avail_def)
    ultimately show ?thesis by (simp add: ring_items_def)
  qed
  show "ring_ok (web_put k b)"
  proof (cases "web_avail k < WEBIN_CAP")
    case True
    then have "web_avail (web_put k b) = web_avail k + 1" by (simp add: web_put_def web_avail_def)
    then show ?thesis using True len by (simp add: ring_ok_def inc_le web_put_def)
  qed (use assms in \<open>simp add: web_put_def web_avail_def\<close>)
qed

lemma take_items:
  assumes "ring_ok k"
  shows "ring_items k = [] \<Longrightarrow> web_take k = None"
    and "ring_items k = b # bs \<Longrightarrow> \<exists>k'. web_take k = Some (b, k') \<and> ring_ok k' \<and> ring_items k' = bs"
proof -
  let ?n = "unat (web_avail k)" let ?r = "unat (webin_r k)"
  show "ring_items k = [] \<Longrightarrow> web_take k = None"
  proof -
    assume "ring_items k = []"
    then have "unat (web_avail k) = 0" by (simp add: ring_items_def)
    then have "webin_w k - webin_r k = 0" by (simp only: unat_eq_0 web_avail_def)
    then show "web_take k = None" by (simp add: web_take_def)
  qed
  assume i: "ring_items k = b # bs"
  let ?k = "k\<lparr>webin_r := webin_r k + 1\<rparr>"
  have "length (ring_items k) = ?n" by (simp add: ring_items_def)
  then have n0: "?n \<noteq> 0" using i by auto
  then have ne: "webin_r k \<noteq> webin_w k" by (auto simp: web_avail_def)
  have a: "web_avail ?k = web_avail k - 1" by (simp add: web_avail_def)
  have n1: "unat (web_avail k - 1) = ?n - 1" using n0 by (subst unat_sub) (auto simp: word_le_nat_alt)
  have up: "[0..<?n] = 0 # map Suc [0..<?n - 1]" using n0 by (cases ?n) (simp_all add: map_Suc_upt upt_conv_Cons del: upt_Suc)
  have ix: "(unat (webin_r k + 1) + i) mod 8192 = (?r + Suc i) mod 8192" for i
    using next_index[of "webin_r k"] by (metis add_Suc_right add_Suc mod_add_left_eq)
  have "ring_items k = webin k ! (?r mod 8192) # ring_items ?k"
    unfolding ring_items_def a n1 up by (simp add: ix)
  then have "b = webin k ! (?r mod 8192)" "ring_items ?k = bs" using i by simp_all
  moreover have "ring_ok ?k" using assms n0 by (auto simp: ring_ok_def a n1 word_le_nat_alt)
  ultimately show "\<exists>k'. web_take k = Some (b, k') \<and> ring_ok k' \<and> ring_items k' = bs"
    using ne by (simp add: web_take_def and_cap)
qed

interpretation ringq: fifo web_put web_take ring_items ring_ok 8192
  by unfold_locales (use put_items take_items in \<open>auto simp: ring_ok_def ring_items_def word_le_nat_alt\<close>)

section \<open>The console of the page\<close>

text \<open>The fields of the console the transport uses, the ring, whether the page has closed the session, and
  what the page has been sent.\<close>

record web_con =
  wc_pushback :: "u8 option"
  wc_eof :: bool
  wc_line_left :: nat           \<comment> \<open>\<open>con_line_len - con_line_pos\<close>\<close>
  wc_ring :: ring
  webin_eof :: bool
  wc_out :: bytes

definition web_con0 :: web_con where
  "web_con0 = \<lparr>wc_pushback = None, wc_eof = False, wc_line_left = 0, wc_ring = ring0, webin_eof = False, wc_out = []\<rparr>"

datatype page_event = Push bytes | Close

fun page_turn :: "page_event \<Rightarrow> web_con \<Rightarrow> web_con" where
  "page_turn (Push bs) s = s\<lparr>wc_ring := nx_web_push (wc_ring s) bs\<rparr>"
| "page_turn Close s = s\<lparr>webin_eof := True\<rparr>"

definition web_send_raw :: "bytes \<Rightarrow> web_con \<Rightarrow> web_con" where
  "web_send_raw p s = s\<lparr>wc_out := wc_out s @ p\<rparr>"

fun web_getc :: "page_event list \<Rightarrow> web_con \<Rightarrow> (u8 option \<times> page_event list \<times> web_con) option" where
  "web_getc [] s =
     (case web_take (wc_ring s) of
        Some (b, k) \<Rightarrow> Some (Some b, [], s\<lparr>wc_ring := k\<rparr>)
      | None \<Rightarrow> if webin_eof s then Some (None, [], s) else None)"
| "web_getc (e # es) s =
     (case web_take (wc_ring s) of
        Some (b, k) \<Rightarrow> Some (Some b, e # es, s\<lparr>wc_ring := k\<rparr>)
      | None \<Rightarrow> if webin_eof s then Some (None, e # es, s) else web_getc es (page_turn e s))"

definition web_recv_raw :: "page_event list \<Rightarrow> web_con \<Rightarrow> (u8 option \<times> page_event list \<times> web_con) option" where
  "web_recv_raw es s =
     (case wc_pushback s of
        Some b \<Rightarrow> Some (Some b, es, s\<lparr>wc_pushback := None\<rparr>)
      | None \<Rightarrow>
          (case web_getc es s of
             None \<Rightarrow> None
           | Some (None, es, s) \<Rightarrow> Some (None, es, s\<lparr>wc_eof := True\<rparr>)
           | Some (Some b, es, s) \<Rightarrow> Some (Some b, es, s)))"

text \<open>Nothing negotiates telnet on the page's wire.\<close>

definition web_in_byte :: "page_event list \<Rightarrow> web_con \<Rightarrow> (u8 option \<times> page_event list \<times> web_con) option" where
  "web_in_byte es s = web_recv_raw es s"

definition web_input_avail :: "web_con \<Rightarrow> u32" where
  "web_input_avail s =
     (let n = (if wc_pushback s \<noteq> None then 1 else 0) + of_nat (wc_line_left s)
      in if wc_eof s then (if n \<noteq> 0 then n else 1)
         else (let n = n + web_avail (wc_ring s) in if n \<noteq> 0 \<or> \<not> webin_eof s then n else 1))"

definition web_input_ready :: "web_con \<Rightarrow> bool" where
  "web_input_ready s \<longleftrightarrow> web_input_avail s \<noteq> 0"

section \<open>What the guest reads\<close>

fun pushed :: "page_event \<Rightarrow> bytes" where
  "pushed (Push bs) = bs"
| "pushed Close = []"

text \<open>Everything typed that has not been read, and that it fits the ring even if nothing is read meanwhile.\<close>

definition typed :: "page_event list \<Rightarrow> web_con \<Rightarrow> bytes" where
  "typed es s = (case wc_pushback s of None \<Rightarrow> [] | Some b \<Rightarrow> [b]) @ ring_items (wc_ring s) @ concat (map pushed es)"

definition fits :: "page_event list \<Rightarrow> web_con \<Rightarrow> bool" where
  "fits es s \<longleftrightarrow> ring_ok (wc_ring s) \<and> length (ring_items (wc_ring s)) + length (concat (map pushed es)) \<le> 8192"

lemma turn_typed:
  assumes "fits (e # es) s"
  shows "fits es (page_turn e s)" "ring_items (wc_ring (page_turn e s)) = ring_items (wc_ring s) @ pushed e"
proof -
  have "ring_items (wc_ring (page_turn e s)) = ring_items (wc_ring s) @ pushed e \<and> ring_ok (wc_ring (page_turn e s))"
    using assms ringq.puts_items[of "wc_ring s"] ringq.puts_ok[of "wc_ring s"]
    by (cases e) (auto simp: nx_web_push_def fits_def)
  then show "fits es (page_turn e s)" "ring_items (wc_ring (page_turn e s)) = ring_items (wc_ring s) @ pushed e"
    using assms by (auto simp: fits_def)
qed

lemma turn_keeps [simp]: "wc_pushback (page_turn e s) = wc_pushback s" "wc_eof (page_turn e s) = wc_eof s"
  "wc_out (page_turn e s) = wc_out s" "webin_eof (page_turn e s) = (webin_eof s \<or> e = Close)"
  by (cases e; simp)+

lemma getc_spec:
  "fits es s \<Longrightarrow>
   (case web_getc es s of
      None \<Rightarrow> ring_items (wc_ring s) @ concat (map pushed es) = [] \<and> \<not> webin_eof s \<and> Close \<notin> set es
    | Some (None, es', s') \<Rightarrow> \<exists>gone. es = gone @ es' \<and> ring_items (wc_ring s) @ concat (map pushed gone) = [] \<and>
        (webin_eof s \<or> Close \<in> set gone) \<and> fits es' s' \<and> ring_items (wc_ring s') = [] \<and> wc_pushback s' = wc_pushback s
    | Some (Some b, es', s') \<Rightarrow> fits es' s' \<and> wc_pushback s' = wc_pushback s \<and> wc_out s' = wc_out s \<and>
        ring_items (wc_ring s) @ concat (map pushed es) = b # ring_items (wc_ring s') @ concat (map pushed es'))"
proof (induction es s rule: web_getc.induct)
  case (1 s)
  have k: "ring_ok (wc_ring s)" using 1 by (simp add: fits_def)
  show ?case
  proof (cases "ring_items (wc_ring s)")
    case Nil
    then show ?thesis using take_items(1)[OF k] 1 by simp
  next
    case (Cons b bs)
    then show ?thesis using take_items(2)[OF k Cons] 1 by (auto simp: fits_def)
  qed
next
  case (2 e es s)
  have k: "ring_ok (wc_ring s)" using 2 by (simp add: fits_def)
  show ?case
  proof (cases "ring_items (wc_ring s)")
    case (Cons b bs)
    then show ?thesis using take_items(2)[OF k Cons] 2(2) by (auto simp: fits_def)
  next
    case Nil
    note t = turn_typed[OF 2(2)] take_items(1)[OF k Nil]
    show ?thesis
    proof (cases "webin_eof s")
      case True
      then show ?thesis using t 2(2) Nil by simp
    next
      case False
      then have g: "web_getc (e # es) s = web_getc es (page_turn e s)" using t(3) by simp
      note ih = 2(1)[OF t(3) False t(1), unfolded t(2) turn_keeps Nil append_Nil]
      show ?thesis
      proof (cases "web_getc es (page_turn e s)")
        case None
        then show ?thesis using ih g Nil False by auto
      next
        case (Some x)
        obtain r es' s' where x: "x = (r, es', s')" by (cases x)
        show ?thesis
        proof (cases r)
          case None
          then obtain gone where "es = gone @ es'" "pushed e @ concat (map pushed gone) = []" "(webin_eof s \<or> e = Close) \<or> Close \<in> set gone"
            "fits es' s'" "ring_items (wc_ring s') = []" "wc_pushback s' = wc_pushback s"
            using ih Some x by auto
          then show ?thesis using Some x g None Nil by (auto intro!: exI[of _ "e # gone"])
        qed (use ih Some x g Nil in auto)
      qed
    qed
  qed
qed

text \<open>C28. A read of the browser's console.  As long as what is typed fits the ring, it gets the oldest byte that
  was typed, whatever its value, and the others stay as they were; it reports the end only when the page
  closed the session before it typed anything more; and it waits for ever only when nothing more is
  ever typed and the session is never closed.\<close>

theorem web_read:
  assumes "fits es s"
  shows "case web_in_byte es s of
      None \<Rightarrow> typed es s = [] \<and> \<not> webin_eof s \<and> Close \<notin> set es
    | Some (None, es', s') \<Rightarrow> wc_eof s' \<and> (\<exists>gone. es = gone @ es' \<and> typed gone s = [] \<and> (webin_eof s \<or> Close \<in> set gone))
    | Some (Some b, es', s') \<Rightarrow> typed es s = b # typed es' s' \<and> fits es' s' \<and> wc_out s' = wc_out s"
proof (cases "wc_pushback s")
  case (Some b)
  then show ?thesis using assms by (simp add: web_in_byte_def web_recv_raw_def typed_def fits_def)
next
  case None
  note g = getc_spec[OF assms]
  show ?thesis
  proof (cases "web_getc es s")
    case n: None
    then show ?thesis using g None by (simp add: web_in_byte_def web_recv_raw_def typed_def)
  next
    case (Some x)
    obtain r es' s' where x: "x = (r, es', s')" by (cases x)
    then show ?thesis using g None Some by (cases r) (auto simp: web_in_byte_def web_recv_raw_def typed_def)
  qed
qed

text \<open>Two keystrokes arrive while the read waits, at the point where the counters wrap.\<close>

theorem web_read_witness:
  "let s = web_con0\<lparr>wc_ring := ring0\<lparr>webin_r := 0xFFFFFFFF, webin_w := 0xFFFFFFFF\<rparr>\<rparr>
   in typed [Push [255, 7], Close] s = [255, 7] \<and>
     (\<exists>es' s'. web_in_byte [Push [255, 7], Close] s = Some (Some 255, es', s') \<and> typed es' s' = [7])"
proof -
  let ?s = "web_con0\<lparr>wc_ring := ring0\<lparr>webin_r := 0xFFFFFFFF, webin_w := 0xFFFFFFFF\<rparr>\<rparr>"
  have f: "fits [Push [255, 7], Close] ?s" and t: "typed [Push [255, 7], Close] ?s = [255, 7]"
    by (simp_all add: fits_def typed_def ring_ok_def ring_items_def web_avail_def web_con0_def ring0_def)
  have e: "\<not> webin_eof ?s" by (simp add: web_con0_def)
  have nt: "False" if "[Push [255, 7], Close] = gone @ es'" "typed gone ?s = []" "Close \<in> set gone" for gone es'
    using that by (cases gone) (auto simp: typed_def)
  from web_read[OF f] t e nt show ?thesis
    by (auto simp: Let_def split: option.splits)
qed

end
