(* ===== verification/Webmain.thy ===== *)
theory Webmain
  imports Command Web
begin

text \<open>
  The entry point of the browser build (\<^verbatim>\<open>web.c\<close>): the page hands over a command line as one string, which
  is cut up in place.  A word is an index into the buffer and ends at the next zero byte, so what a word
  is depends on the zeros written after it was found.

  \<open>blank_words\<close> is what the cutting should come to; a read or write outside the buffer would be \<open>None\<close>.
\<close>

section \<open>Cutting the command line\<close>

definition blank :: "u8 \<Rightarrow> bool" where
  "blank c \<longleftrightarrow> c = 32 \<or> c = 9 \<or> c = 10"

abbreviation (input) WEB_MAXARGS :: nat where "WEB_MAXARGS \<equiv> 64"
abbreviation (input) WEB_CMD :: nat where "WEB_CMD \<equiv> 1024"

text \<open>\<open>snprintf\<close> into the static buffer.\<close>

definition web_cmd :: "bytes \<Rightarrow> bytes option \<Rightarrow> bytes" where
  "web_cmd old cmdline =
     (let s = take (WEB_CMD - 1) (case cmdline of None \<Rightarrow> [] | Some s \<Rightarrow> s)
      in s @ [0] @ drop (length s + 1) old)"

text \<open>A loop over the buffer: the first place from \<open>p\<close> on where the condition fails.\<close>

definition scan :: "(u8 \<Rightarrow> bool) \<Rightarrow> bytes \<Rightarrow> nat \<Rightarrow> nat option" where
  "scan P b p = find (\<lambda>i. \<not> P (b ! i)) [p..<length b]"

text \<open>The body of the loop: where the next word starts and how the buffer goes on; \<open>None\<close> when there is none.\<close>

fun web_words :: "nat \<Rightarrow> bytes \<Rightarrow> nat \<Rightarrow> (nat list \<times> bytes) option" where
  "web_words 0 b p = Some ([], b)"
| "web_words (Suc room) b p =
     (if p \<ge> length b then None
      else if b ! p = 0 then Some ([], b)
      else
        (case scan blank b p of
           None \<Rightarrow> None
         | Some p \<Rightarrow>
             if b ! p = 0 then Some ([], b)
             else
               (case scan (\<lambda>c. c \<noteq> 0 \<and> \<not> blank c) b p of
                  None \<Rightarrow> None
                | Some q \<Rightarrow>
                    map_option (\<lambda>(ps, b). (p # ps, b))
                      (if b ! q \<noteq> 0 then web_words room (b[q := 0]) (q + 1) else web_words room b q))))"

definition arg_at :: "bytes \<Rightarrow> nat \<Rightarrow> bytes" where
  "arg_at b p = takeWhile (\<lambda>c. c \<noteq> 0) (drop p b)"

text \<open>The words behind \<open>argv[0]\<close>, read from the buffer as the whole cutting leaves it.\<close>

definition web_argv :: "bytes \<Rightarrow> bytes option \<Rightarrow> bytes list option" where
  "web_argv old cmdline =
     map_option (\<lambda>(ps, b). map (arg_at b) ps) (web_words (WEB_MAXARGS - 1) (web_cmd old cmdline) 0)"

definition nx_web_run :: "malloc_fun \<Rightarrow> host_env \<Rightarrow> host \<Rightarrow> bytes \<Rightarrow> bytes option \<Rightarrow> sys \<Rightarrow> user \<Rightarrow> main_end option" where
  "nx_web_run fresh h host old cmdline s u =
     (case web_argv old cmdline of None \<Rightarrow> None | Some args \<Rightarrow> main fresh h host args s u)"

section \<open>Words between blanks\<close>

function blank_words :: "bytes \<Rightarrow> bytes list" where
  "blank_words s =
     (let t = dropWhile blank s
      in if t = [] then [] else takeWhile (\<lambda>c. \<not> blank c) t # blank_words (dropWhile (\<lambda>c. \<not> blank c) t))"
  by pat_completeness auto
termination
proof (relation "measure length", goal_cases)
  case (2 s t)
  then have t: "t \<noteq> []" "\<not> blank (hd t)" "length t \<le> length s"
    using hd_dropWhile[of blank s] length_dropWhile_le[of blank s] by simp_all
  then obtain a l where al: "t = a # l" by (cases t) auto
  then have "length (dropWhile (\<lambda>c. \<not> blank c) t) \<le> length l"
    using t(2) length_dropWhile_le[of "\<lambda>c. \<not> blank c" l] by simp
  then show ?case using t(3) al by simp
qed simp

declare blank_words.simps [simp del]

lemma blank0 [simp]: "\<not> blank 0"
  by (simp add: blank_def)

lemma words_blank: "blank_words [] = []" "blank c \<Longrightarrow> blank_words (c # s) = blank_words s"
  by (simp_all add: blank_words.simps[of "[]"] blank_words.simps[of "c # s"] blank_words.simps[of s])

text \<open>A word that is followed by a blank, or by nothing.\<close>

lemma words_word:
  assumes "w \<noteq> []" "\<forall>c\<in>set w. \<not> blank c" "s = [] \<or> blank (hd s)"
  shows "blank_words (w @ s) = w # blank_words s"
proof -
  obtain c w' where w: "w = c # w'" using assms(1) by (cases w) auto
  have d: "dropWhile blank (w @ s) = w @ s" using assms(2) by (simp add: w)
  have s: "takeWhile (\<lambda>c. \<not> blank c) s = []" "dropWhile (\<lambda>c. \<not> blank c) s = s" using assms(3) by (cases s; auto)+
  show ?thesis
    using assms(1,2) d s by (subst blank_words.simps) (simp add: Let_def takeWhile_append2 dropWhile_append2)
qed

section \<open>The cutting is correct\<close>

text \<open>The buffer from \<open>p\<close> on: the rest of the command line, a zero, and what was there before.\<close>

lemma scan_run:
  assumes "drop p b = u @ c # v" "\<forall>x\<in>set u. P x" "\<not> P c"
  shows "scan P b p = Some (p + length u)" "b ! (p + length u) = c" "p + length u < length b"
    "drop (Suc (p + length u)) b = v" "drop (p + length u) b = c # v"
proof -
  have le: "p \<le> length b" using assms(1) by (cases "p \<le> length b") simp_all
  have "length (drop p b) = length u + 1 + length v" using assms(1) by simp
  then show l: "p + length u < length b" using le by simp
  have n: "b ! (p + i) = (u @ c # v) ! i" for i using le by (simp add: assms(1)[symmetric])
  show c: "b ! (p + length u) = c" using n[of "length u"] by simp
  have "drop (p + length u) b = drop (length u) (drop p b)" by (simp add: add.commute)
  then show d: "drop (p + length u) b = c # v" by (simp add: assms(1))
  have "drop (Suc (p + length u)) b = drop 1 (drop (p + length u) b)" by simp
  then show "drop (Suc (p + length u)) b = v" by (simp only: d drop_Suc_Cons drop_0 One_nat_def)
  have "P (b ! i)" if "p \<le> i" "i < p + length u" for i
    using n[of "i - p"] that assms(2) by (simp add: nth_append)
  then show "scan P b p = Some (p + length u)"
    unfolding scan_def find_Some_iff using l c assms(3)
    by (intro exI[of _ "length u"]) simp
qed

lemma web_words_end:
  assumes "p < length b" "b ! p = 0"
  shows "web_words n b p = Some ([], b)"
  using assms by (cases n) simp_all

lemma arg_at_word:
  assumes "drop p b = w @ 0 # v" "0 \<notin> set w"
  shows "arg_at b p = w"
proof -
  have "takeWhile (\<lambda>c. c \<noteq> 0) (w @ 0 # v) = w" using assms(2) by (induction w) auto
  then show ?thesis by (simp add: arg_at_def assms(1))
qed

lemma drop_prefix:
  assumes "take k xs = take k ys" "p \<le> k" "k \<le> length xs"
  shows "drop p xs = drop p (take k ys) @ drop k xs"
proof -
  have "drop p xs = drop p (take k xs @ drop k xs)" by simp
  also have "\<dots> = drop p (take k xs) @ drop k xs" using assms(2,3) by (simp del: append_take_drop_id)
  finally show ?thesis by (simp only: assms(1))
qed

text \<open>The first word, with what is before and behind it.\<close>

lemma split_word:
  obtains l w r where "s = l @ w @ r" "\<forall>c\<in>set l. blank c" "\<forall>c\<in>set w. \<not> blank c" "r = [] \<or> blank (hd r)"
    "w = [] \<longrightarrow> r = []"
proof -
  define t where "t = dropWhile blank s"
  define w where "w = takeWhile (\<lambda>c. \<not> blank c) t" define r where "r = dropWhile (\<lambda>c. \<not> blank c) t"
  have "s = takeWhile blank s @ w @ r" by (simp add: w_def r_def t_def)
  moreover have "\<forall>c\<in>set (takeWhile blank s). blank c" "\<forall>c\<in>set w. \<not> blank c"
    by (auto simp: w_def dest: set_takeWhileD)
  moreover have "r = [] \<or> blank (hd r)" using hd_dropWhile[of "\<lambda>c. \<not> blank c" t] by (auto simp: r_def)
  moreover have "w = [] \<longrightarrow> r = []"
    using hd_dropWhile[of blank s] by (cases t) (auto simp: w_def r_def t_def[symmetric] split: if_splits)
  ultimately show thesis by (rule that)
qed

lemma words_skip: "\<forall>c\<in>set l. blank c \<Longrightarrow> blank_words (l @ s) = blank_words s"
  by (induction l) (simp_all add: words_blank)

lemma web_words_spec:
  "\<lbrakk>0 \<notin> set s; drop p b = s @ 0 # v\<rbrakk> \<Longrightarrow>
   \<exists>ps b'. web_words n b p = Some (ps, b') \<and> map (arg_at b') ps = take n (blank_words s) \<and>
     take p b' = take p b \<and> length b' = length b \<and> (\<forall>q\<in>set ps. p \<le> q \<and> q < length b)"
proof (induction n arbitrary: s p b)
  case (Suc n)
  obtain l w r where s: "s = l @ w @ r" and l: "\<forall>c\<in>set l. blank c" and w: "\<forall>c\<in>set w. \<not> blank c"
    and r: "r = [] \<or> blank (hd r)" and e: "w = [] \<longrightarrow> r = []"
    by (rule split_word[of s])
  have p: "p < length b" using Suc.prems(2) by (cases "p < length b") auto
  have bp: "b ! p = (s @ 0 # v) ! 0" using Suc.prems(2) p by (metis hd_drop_conv_nth hd_conv_nth append_is_Nil_conv list.distinct(1))
  show ?case
  proof (cases "w = []")
    case True
    then have sl: "s = l" using e s by simp
    note c = scan_run[of p b s 0 v blank, OF Suc.prems(2)]
    have "blank_words s = []" using words_skip[OF l, of "[]"] by (simp add: sl words_blank)
    then show ?thesis using c l p by (cases "b ! p = 0") (simp_all add: sl)
  next
    case False
    let ?p = "p + length l" let ?q = "?p + length w"
    obtain x w' where x: "w = x # w'" using False by (cases w) auto
    have x0: "x \<noteq> 0" "\<not> blank x" using Suc.prems(1) w by (auto simp: s x)
    have nz: "b ! p \<noteq> 0" using bp x0 l Suc.prems(1) by (cases l) (auto simp: s x)
    have d: "drop p b = l @ x # (w' @ r @ 0 # v)" using Suc.prems(2) by (simp add: s x)
    note a = scan_run[of p b l x _ blank, OF d l x0(2)]
    obtain c z where cz: "r @ 0 # v = c # z" by (cases r) auto
    have c0: "c = 0 \<or> blank c" using r cz by (cases r) auto
    have dw: "drop ?p b = w @ c # z" using a(5) cz by (simp add: x)
    have wz: "\<forall>y\<in>set w. y \<noteq> 0 \<and> \<not> blank y" using Suc.prems(1) w by (auto simp: s)
    have "\<not> (c \<noteq> 0 \<and> \<not> blank c)" using c0 by blast
    note q = scan_run[of ?p b w c z "\<lambda>y. y \<noteq> 0 \<and> \<not> blank y", OF dw wz this]
    have ws: "blank_words s = w # blank_words r"
      unfolding s words_skip[OF l] using words_word[OF False w r] .
    have step: "web_words (Suc n) b p = map_option (\<lambda>(ps, b'). (?p # ps, b'))
        (if c \<noteq> 0 then web_words n (b[?q := 0]) (?q + 1) else web_words n b ?q)"
      using p nz a(1,2) x0(1) q(1,2) by simp
    show ?thesis
    proof (cases "r = []")
      case True
      then have "c = 0" "z = v" using cz by simp_all
      then have "web_words (Suc n) b p = Some ([?p], b)" using step web_words_end[OF q(3)] q(2) by simp
      moreover have "arg_at b ?p = w" using arg_at_word[of ?p b w v] dw wz \<open>c = 0\<close> \<open>z = v\<close> by auto
      ultimately show ?thesis using ws True a(3) by (simp add: words_blank)
    next
      case False
      then obtain r' where r': "r = c # r'" using cz by (cases r) auto
      then have c: "c \<noteq> 0" "blank c" "z = r' @ 0 # v" using r cz Suc.prems(1) by (auto simp: s)
      let ?b = "b[?q := 0]"
      have dq: "drop (?q + 1) ?b = r' @ 0 # v" using q(4) c(3) by simp
      have "0 \<notin> set r'" using Suc.prems(1) by (simp add: s r')
      from Suc.IH[OF this dq] obtain ps b' where ih: "web_words n ?b (?q + 1) = Some (ps, b')"
        "map (arg_at b') ps = take n (blank_words r')" "take (?q + 1) b' = take (?q + 1) ?b" "length b' = length b"
        "\<forall>k\<in>set ps. ?q + 1 \<le> k \<and> k < length b"
        by auto
      have "take p b' = take p (take (?q + 1) b')" by (simp add: min_def)
      also have "\<dots> = take p (take (?q + 1) ?b)" by (simp only: ih(3))
      also have "\<dots> = take p b" by (simp add: min_def)
      finally have tp: "take p b' = take p b" .
      have "drop ?p (take (?q + 1) ?b) = w @ [0]"
      proof -
        have "drop ?p ?b = w @ 0 # z" using q(3) by (simp add: drop_update_swap dw list_update_append)
        then show ?thesis by (simp add: drop_take)
      qed
      moreover have "drop ?p b' = drop ?p (take (?q + 1) ?b) @ drop (?q + 1) b'"
        by (rule drop_prefix[OF ih(3)]) (use ih(4) q(3) in simp_all)
      ultimately have "drop ?p b' = w @ 0 # drop (?q + 1) b'" by simp
      then have "arg_at b' ?p = w" using arg_at_word wz by blast
      then show ?thesis
        using tp step ih c ws words_blank(2)[OF c(2), of r'] a(3) by (auto simp: r')
    qed
  qed
qed simp

text \<open>Whatever the command line, the words are those between its blanks, at most 63 of them, of its first 1023
  bytes; the buffer is never left, and what it held before does not matter.\<close>

lemma web_argv_words:
  assumes "0 \<notin> set s"
  shows "web_argv old (Some s) = Some (take 63 (blank_words (take 1023 s)))"
proof -
  have "0 \<notin> set (take 1023 s)" using assms by (meson in_set_takeD)
  then show ?thesis
    using web_words_spec[of "take 1023 s" 0 "web_cmd old (Some s)" _ 63]
    by (fastforce simp: web_argv_def web_cmd_def Let_def)
qed

fun join_words :: "bytes list \<Rightarrow> bytes" where
  "join_words [] = []"
| "join_words [w] = w"
| "join_words (w # ws) = w @ 32 # join_words ws"

definition plain_word :: "bytes \<Rightarrow> bool" where
  "plain_word w \<longleftrightarrow> w \<noteq> [] \<and> (\<forall>c\<in>set w. c \<noteq> 0 \<and> \<not> blank c)"

lemma words_join: "\<forall>w\<in>set ws. plain_word w \<Longrightarrow> blank_words (join_words ws) = ws"
proof (induction ws rule: join_words.induct)
  case (2 w)
  then show ?case using words_word[of w "[]"] by (simp add: plain_word_def words_blank)
next
  case (3 w v ws)
  have "blank (32 :: u8)" by (simp add: blank_def)
  then show ?case using 3 words_word[of w "32 # join_words (v # ws)"] by (simp add: plain_word_def words_blank)
qed (simp add: words_blank)

lemma join_no_zero: "\<forall>w\<in>set ws. plain_word w \<Longrightarrow> 0 \<notin> set (join_words ws)"
  by (induction ws rule: join_words.induct) (auto simp: plain_word_def)

section \<open>The run\<close>

text \<open>C30. A run of the page is the native run with the same words: cutting the string the page joined them into
  gives the words back, as long as they are at most 63 and fit the buffer.\<close>

theorem web_run_is_main:
  assumes "\<forall>w\<in>set ws. plain_word w" "length ws \<le> 63" "length (join_words ws) \<le> 1023"
  shows "nx_web_run fresh h host old (Some (join_words ws)) s u = main fresh h host ws s u"
  using assms web_argv_words[OF join_no_zero[OF assms(1)], of old]
  by (simp add: nx_web_run_def words_join)

text \<open>\<open>user -v hello\<close>, cut up in a buffer of ones.\<close>

theorem web_run_is_main_witness:
  "\<forall>fresh h host s u. nx_web_run fresh h host (replicate 1024 1) (Some (c_string ''user -v hello'')) s u =
     main fresh h host [c_string ''user'', c_string ''-v'', c_string ''hello''] s u"
proof -
  have "\<forall>w\<in>set [c_string ''user'', c_string ''-v'', c_string ''hello'']. plain_word w"
    by (simp add: plain_word_def c_string_def blank_def)
  moreover have "join_words [c_string ''user'', c_string ''-v'', c_string ''hello''] = c_string ''user -v hello''"
    by (simp add: c_string_def)
  moreover have "length (c_string ''user -v hello'') \<le> 1023" by (simp add: c_string_def)
  ultimately show ?thesis
    using web_run_is_main[of "[c_string ''user'', c_string ''-v'', c_string ''hello'']"] by simp
qed

end
