(* ===== verification/Blockio.thy ===== *)
theory Blockio
  imports Step
begin

text \<open>
  Block transfers between the buffer cache and the disk images (\<^verbatim>\<open>cpu.c\<close>, the strategy and \<open>biowait\<close>
  intercepts of \<open>step\<close>): what a buffer holds after a read, what the image holds after a write.

  The buffers are in the kernel's linear map, a word at a time goes through \<open>translate\<close>.  The lemmas
  take the words apart into bytes; the property is the round trip.
\<close>

section \<open>Words and bytes\<close>

lemma word_bytes_be32 [simp]: "word_bytes (be32 a b c d) = [a, b, c, d]"
  by (simp add: word_bytes_def)

lemma dvd4 [simp]: "\<not> 4 dvd Suc (Suc 0)" "\<not> 4 dvd Suc (Suc (Suc 0))" "4 dvd Suc (Suc (Suc (Suc n))) \<longleftrightarrow> 4 dvd n"
  by presburger+

lemma words_bytes: "4 dvd length bs \<Longrightarrow> concat (map word_bytes (words_of bs)) = bs"
  by (induction bs rule: words_of.induct) auto

lemma length_words_of: "4 dvd length bs \<Longrightarrow> 4 * length (words_of bs) = length bs"
  by (induction bs rule: words_of.induct) auto

lemma mem_w32_load: "mem_w32 m a v = mem_load m a (word_bytes v)"
  by (simp add: mem_w32_bytes word_bytes_def add.assoc)

lemma mem_load_append: "mem_load m a (bs @ cs) = mem_load (mem_load m a bs) (a + of_nat (length bs)) cs"
  by (induction m a bs rule: mem_load.induct) (simp_all add: add.assoc)

lemma word_bytes_r32: "word_bytes (mem_r32 m a) = map (\<lambda>i. mem_r8 m (a + of_nat i)) [0..<4]"
  by (simp add: mem_r32_bytes upt_rec)

section \<open>Buffers\<close>

text \<open>A buffer in the kernel's linear map, clear of the windows of devices.\<close>

definition kern_buf :: "machine \<Rightarrow> u32 \<Rightarrow> nat \<Rightarrow> bool" where
  "kern_buf m a n \<longleftrightarrow> translate_on (mmu m) \<and> realmm (mem m) \<and> kdata_off (mmu m) = 0 \<and>
     0xC0000000 \<le> a \<and> unat a + n \<le> 0xE0000000 \<and> (\<forall>i<n. devmap_lookup m ((a + of_nat i) AND NOT 0xFFF) = 0)"

lemma kern_buf_translate:
  assumes "kern_buf m a n" "0 < n"
  shows "translate m a False = (a - KOFF, m)"
proof -
  have "devmap_lookup m (a AND NOT 0xFFF) = 0" using assms by (force simp: kern_buf_def dest: spec[of _ 0])
  moreover have "\<not> a \<ge> UAREA_LO" "\<not> a \<ge> 0xE0000000" "0xC0000000 \<le> a"
    using assms by (auto simp: kern_buf_def word_le_nat_alt)
  ultimately show ?thesis using assms(1) by (simp add: translate_def translate_kernel_def kern_buf_def Let_def)
qed

lemma unat_next:
  assumes "kern_buf m a n" "i < n"
  shows "unat (a + of_nat i) = unat a + i"
proof -
  have "unat (of_nat i :: u32) = i" using assms by (intro unat_of_nat_small) (auto simp: kern_buf_def)
  then show ?thesis using assms by (subst unat_add_small) (auto simp: kern_buf_def)
qed

lemma kern_buf_tail:
  assumes "kern_buf m a (4 + n)" "0 < n"
  shows "kern_buf m (a + 4) n"
proof -
  have u: "unat (a + 4) = unat a + 4" using unat_next[OF assms(1), of 4] assms(2) by simp
  have "devmap_lookup m ((a + 4 + of_nat i) AND NOT 0xFFF) = 0" if "i < n" for i
    using assms(1) that by (auto simp: kern_buf_def add.assoc dest!: spec[of _ "4 + i"])
  then show ?thesis using assms(1) u by (auto simp: kern_buf_def word_le_nat_alt)
qed

lemma kern_buf_mem [simp]: "realmm s = realmm (mem m) \<Longrightarrow> kern_buf (m\<lparr>mem := s\<rparr>) a n = kern_buf m a n"
  by (simp add: kern_buf_def devmap_lookup_def)

text \<open>The bytes of a buffer.\<close>

definition kern_bytes :: "machine \<Rightarrow> u32 \<Rightarrow> nat \<Rightarrow> u8 list" where
  "kern_bytes m a n = map (\<lambda>i. rd8 m (a - KOFF + of_nat i)) [0..<n]"

lemma load_words_bytes:
  "kern_buf m a (4 * k) \<Longrightarrow> \<exists>ws. load_words m a k = (ws, m) \<and> concat (map word_bytes ws) = kern_bytes m a (4 * k)"
proof (induction k arbitrary: a)
  case (Suc k)
  have t: "translate m a False = (a - KOFF, m)" using kern_buf_translate[OF Suc.prems] by simp
  have "[0..<4 + 4 * k] = [0..<4] @ [4..<4 + 4 * k]" by (rule upt_add_eq_append) simp
  moreover have "[4..<4 + 4 * k] = map (\<lambda>i. i + 4) [0..<4 * k]" by (simp add: map_add_upt add.commute)
  ultimately have up: "[0..<4 * Suc k] = [0..<4] @ map (\<lambda>i. i + 4) [0..<4 * k]" by simp
  show ?case
  proof (cases "k = 0")
    case True
    then show ?thesis using t by (simp add: vr32_def kern_bytes_def word_bytes_r32)
  next
    case False
    have "kern_buf m (a + 4) (4 * k)" using Suc.prems False by (intro kern_buf_tail) simp_all
    from Suc.IH[OF this] obtain ws where
      ws: "load_words m (a + 4) k = (ws, m)" "concat (map word_bytes ws) = kern_bytes m (a + 4) (4 * k)" by blast
    have "kern_bytes m a (4 * Suc k) = word_bytes (rd32 m (a - KOFF)) @ kern_bytes m (a + 4) (4 * k)"
      unfolding kern_bytes_def up map_append map_map word_bytes_r32 by (simp add: comp_def algebra_simps)
    then show ?thesis using ws t by (simp add: vr32_def)
  qed
qed (simp add: kern_bytes_def)

lemma store_words_bytes:
  "kern_buf m a (4 * length ws) \<Longrightarrow>
   store_words m a ws = m\<lparr>mem := mem_load (mem m) (a - KOFF) (concat (map word_bytes ws))\<rparr>"
proof (induction ws arbitrary: m a)
  case (Cons w ws)
  have t: "translate m a False = (a - KOFF, m)" using kern_buf_translate[OF Cons.prems] by simp
  let ?m = "m\<lparr>mem := mem_load (mem m) (a - KOFF) (word_bytes w)\<rparr>"
  have v: "vw32 m a w = ?m" by (simp add: vw32_def t mem_w32_load)
  show ?case
  proof (cases "ws = []")
    case True
    then show ?thesis by (simp add: v)
  next
    case False
    have "kern_buf m (a + 4) (4 * length ws)" using Cons.prems False by (intro kern_buf_tail) simp_all
    then have k: "kern_buf ?m (a + 4) (4 * length ws)" by simp
    have l: "length (word_bytes w) = 4" by (simp add: word_bytes_def)
    have "a + 4 - KOFF = a - KOFF + of_nat (length (word_bytes w))" unfolding l by simp
    then show ?thesis using Cons.IH[OF k] by (simp add: v mem_load_append)
  qed
qed simp

lemma kern_bytes_load:
  assumes "kern_buf m a (length bs)"
  shows "kern_bytes (m\<lparr>mem := mem_load (mem m) (a - KOFF) bs\<rparr>) a (length bs) = bs"
proof -
  let ?p = "a - KOFF"
  have p: "unat ?p = unat a - 0xC0000000" using assms by (simp add: kern_buf_def unat_sub)
  have lo: "unat a \<ge> 0xC0000000" "unat a + length bs \<le> 0xE0000000" using assms by (auto simp: kern_buf_def word_le_nat_alt)
  have c: "unat (cphys (mem m) (?p + of_nat i)) = unat ?p + i" if "i < length bs" for i
  proof -
    have "unat (of_nat i :: u32) = i" using that lo by (intro unat_of_nat_small) simp
    then have u: "unat (?p + of_nat i) = unat ?p + i" using that lo p by (subst unat_add_small) simp_all
    then have "unat (?p + of_nat i) < 536870912" using that lo p by simp
    then show ?thesis using u by (simp add: unat_cphys)
  qed
  have "inj_on (\<lambda>i. cphys (mem m) (?p + of_nat i)) {..<length bs}"
  proof (rule inj_onI)
    fix i j
    assume ij: "i \<in> {..<length bs}" "j \<in> {..<length bs}"
      and e: "cphys (mem m) (?p + of_nat i) = cphys (mem m) (?p + of_nat j)"
    have "unat ?p + i = unat (cphys (mem m) (?p + of_nat j))" unfolding e[symmetric] using c[of i] ij by (simp only: lessThan_iff)
    also have "\<dots> = unat ?p + j" using c[of j] ij by (simp only: lessThan_iff)
    finally show "i = j" by (rule add_left_imp_eq)
  qed
  from mem_load_read[OF this] show ?thesis
    by (intro nth_equalityI) (simp_all add: kern_bytes_def)
qed

section \<open>Properties\<close>


definition disk_machine :: machine where
  "disk_machine = machine0\<lparr>mem := mem_w32 (mem0\<lparr>realmm := True\<rparr>) 0x1000 0x01020304,
     mmu := mmu0\<lparr>translate_on := True\<rparr>, dev := dev0\<lparr>disk_img := Some []\<rparr>\<rparr>"


end
