(* ===== verification/Diag.thy ===== *)
theory Diag
  imports Umem "HOL-Library.Multiset"
begin

text \<open>
  The instruments of \<^verbatim>\<open>cpu.c\<close> and the history of \<^verbatim>\<open>sysmode.c\<close>: probes of kernel routines, the profile, the table of
  contexts, the watches on stores, physical memory, registers and program counters, and the ring of the
  last 65536 program counters.

  What an instrument prints is a list of \<open>msg\<close>, one constructor for each format, with the values that are
  printed; percentages and the columns of a dump are left to the reader of the list.  The statics are the
  fields of \<open>diag\<close>, the options those of \<open>diag_opts\<close>; an option that is off is 0, as in the code.  The
  arguments of one message are read from left to right, an order C leaves open.

  The lemmas say that instruments only watch (what the machine computes is the same with them), and that
  what they report is what happened: the profile is an exact count, the report its 20 largest bins, the
  history the last program counters in order.
\<close>

section \<open>State\<close>

datatype msg =
    Vm_fault u32 u32 u32 bool u32 u64        \<comment> \<open>\<^verbatim>\<open>[vmflt]\<close>: r2, r3, r4, supervisor, r1, count\<close>
  | Vm_row string u64 u64
  | Prof_total u64 u64
  | Prof_row u32 u64 u64                     \<comment> \<open>address, count, of how many\<close>
  | Ctx_new nat u32 u32 u32 u32 u32 u32 u64  \<comment> \<open>\<^verbatim>\<open>[ctx]\<close>: number, context, its pc, sp, stack and u-area, r1, count\<close>
  | Ctx_total nat
  | Ctx_row nat u32 u64 u64
  | Phys_write u32 u8 u32 u32 u32 bool u64   \<comment> \<open>\<^verbatim>\<open>[pwatch]\<close>\<close>
  | Stw_enter u32 "u32 list" u32
  | Stw_leave u32
  | Store u32 u32 u32 u32 u32 u32 u64        \<comment> \<open>\<^verbatim>\<open>[wmem]\<close>: address, offset, value, pc, r1, r31, count\<close>
  | Reg_found u32 u32 u32 u32 u64            \<comment> \<open>\<^verbatim>\<open>[rfind]\<close>\<close>
  | Words u32 "u32 list"
  | Mount_root u32 u32 u32 u64
  | Ldctx "u32 list" u32 u32 u32 u32          \<comment> \<open>\<^verbatim>\<open>[ldctx-rte]\<close>: PSR, EPSR, SXIP, SNIP, SFIP; area pointers, page, word\<close>
  | Trace u32                                \<comment> \<open>\<^verbatim>\<open>[wt]\<close>\<close>
  | Watch u32 "u32 list" u64

record kctx_ent =
  kc_ctx :: u32
  kc_first :: u64
  kc_n :: u64
  kc_from :: u32

record diag_opts =
  vmprobe :: bool
  ctxtrace :: bool
  stwatch_pc :: u32
  regfind_val :: u32
  wmem_lo :: u32
  wmem_hi :: u32
  wmem_max :: u64
  pwatch_lo :: u32
  pwatch_hi :: u32
  scsi_trace :: bool
  wtrace_n :: u64
  watch_pc :: u32
  trace_traps :: bool
  quiet_uproc :: bool

record diag =
  dbg_pc :: u32
  dbg_count :: u64
  vmprobes :: "(u64 \<times> u64) list"      \<comment> \<open>count and first of each probe\<close>
  vmfault_logged :: u64
  prof_hist :: "u32 \<Rightarrow> u64"
  prof_other :: u64
  kctx :: "kctx_ent list"
  wmem_n :: u64
  pwatch_n :: u32
  stwatch_active :: bool
  stwatch_ret :: u32
  stwatch_done :: bool
  regfind_n :: u64
  wtrace_left :: u64
  wtrace_at :: u64
  pchist :: "u32 list"
  pchpos :: u32
  log :: "msg list"

definition say :: "msg \<Rightarrow> diag \<Rightarrow> diag" where
  "say l d = d\<lparr>log := log d @ [l]\<rparr>"

definition diag0 :: diag where
  "diag0 = \<lparr>dbg_pc = 0, dbg_count = 0, vmprobes = replicate 23 (0, 0), vmfault_logged = 0, prof_hist = (\<lambda>_. 0),
     prof_other = 0, kctx = [], wmem_n = 0, pwatch_n = 0, stwatch_active = False, stwatch_ret = 0,
     stwatch_done = False, regfind_n = 0, wtrace_left = 0, wtrace_at = 0, pchist = replicate 65536 0,
     pchpos = 0, log = []\<rparr>"

section \<open>Probes of kernel routines\<close>

definition vm_names :: "(u32 \<times> string) list" where
  "vm_names =
     [(0xC0016000, ''Xinterrupt''), (0xC0016180, ''Xcodaccess''), (0xC0016190, ''Xdataccess''),
      (0xC0017788, ''trap''), (0xC008B35C, ''vm_map_fault''), (0xC0090B2C, ''vm_map_fault_foreign''),
      (0xC0091224, ''pmap_enter''), (0xC008B5E8, ''pmap_expand''), (0xC004F9BC, ''vm_map_create''),
      (0xC0094984, ''vm_allocate''), (0xC00A6AB0, ''vm_page_alloc''), (0xC0094058, ''pmap_create''),
      (0xC0096610, ''vm_object_create''), (0xC00978FC, ''vnode_pager_init''), (0xC0017138, ''copyin''),
      (0xC00170F0, ''copyout''), (0xC004D188, ''fork''), (0xC0057474, ''fork1''), (0xC0057520, ''procdup''),
      (0xC005E5E4, ''vm_map_fork''), (0xC0078460, ''execve''), (0xC005E9B8, ''getxfile''),
      (0xC0016E30, ''icode(read)'')]"

definition vm_probe_tick :: "machine \<Rightarrow> u32 \<Rightarrow> diag \<Rightarrow> diag" where
  "vm_probe_tick m p d =
     (case find (\<lambda>i. fst (vm_names ! i) = p) [0..<length vm_names] of
        None \<Rightarrow> d
      | Some i \<Rightarrow>
          (let (n, at) = vmprobes d ! i;
               d = d\<lparr>vmprobes := (vmprobes d)[i := (n + 1, if n = 0 then cpu_count (cpu m) else at)]\<rparr>
           in if p = 0xC008B35C \<and> vmfault_logged d < 12
              then say (Vm_fault (RD m 2) (RD m 3) (RD m 4) (CR m 1 AND 0x80000000 \<noteq> 0) (RD m 1) (cpu_count (cpu m)))
                     (d\<lparr>vmfault_logged := vmfault_logged d + 1\<rparr>)
              else d))"

definition vm_probe_report :: "diag \<Rightarrow> msg list" where
  "vm_probe_report d = map (\<lambda>((a, name), (n, at)). Vm_row name n at) (zip vm_names (vmprobes d))"

section \<open>The profile\<close>

abbreviation (input) PROF_LO :: u32 where "PROF_LO \<equiv> 0xC0010000"
abbreviation (input) PROF_BINS :: nat where "PROF_BINS \<equiv> 32768"

definition prof_bucket :: "u32 \<Rightarrow> diag \<Rightarrow> diag" where
  "prof_bucket p d =
     (let i = (p - PROF_LO) div 32
      in if p \<ge> PROF_LO \<and> i < of_nat PROF_BINS then d\<lparr>prof_hist := (prof_hist d)(i := prof_hist d i + 1)\<rparr>
         else d\<lparr>prof_other := prof_other d + 1\<rparr>)"

text \<open>The loop that looks for the largest bin, and the loop over the ranks, which clears what it has printed.\<close>

definition prof_best :: "(u32 \<Rightarrow> u64) \<Rightarrow> nat \<Rightarrow> u32 \<times> u64" where
  "prof_best h n = foldl (\<lambda>(best, bv) i. if h (of_nat i) > bv then (of_nat i, h (of_nat i)) else (best, bv)) (0, 0) [0..<n]"

fun prof_ranks :: "nat \<Rightarrow> (u32 \<Rightarrow> u64) \<Rightarrow> u64 \<Rightarrow> msg list" where
  "prof_ranks 0 h tot = []"
| "prof_ranks (Suc n) h tot =
     (let (best, bv) = prof_best h PROF_BINS
      in if bv = 0 then [] else Prof_row (PROF_LO + best * 32) bv tot # prof_ranks n (h(best := 0)) tot)"

definition prof_total :: "diag \<Rightarrow> u64" where
  "prof_total d = foldl (\<lambda>t i. t + prof_hist d (of_nat i)) (prof_other d) [0..<PROF_BINS]"

definition prof_report :: "diag \<Rightarrow> msg list" where
  "prof_report d = Prof_total (prof_total d) (prof_other d) # prof_ranks 20 (prof_hist d) (prof_total d)"

section \<open>Contexts\<close>

abbreviation (input) KCTX_MAX :: nat where "KCTX_MAX \<equiv> 512"

definition ctx_tick :: "machine \<Rightarrow> diag \<Rightarrow> machine \<times> diag" where
  "ctx_tick m d =
     (let c = RD m 2 in
      case find (\<lambda>i. kc_ctx (kctx d ! i) = c) [0..<length (kctx d)] of
        Some i \<Rightarrow> (m, d\<lparr>kctx := (kctx d)[i := (kctx d ! i)\<lparr>kc_n := kc_n (kctx d ! i) + 1\<rparr>]\<rparr>)
      | None \<Rightarrow>
          if length (kctx d) \<ge> KCTX_MAX then (m, d)
          else
            (let (p, m) = vr32 m (c + 0x80); (sp, m) = vr32 m (c + 0x7C); (ks, m) = vr32 m (c + 0x98);
                 (ua, m) = vr32 m (c + 0xA0)
             in (m, say (Ctx_new (length (kctx d)) c p sp ks ua (RD m 1) (cpu_count (cpu m)))
                      (d\<lparr>kctx := kctx d @ [\<lparr>kc_ctx = c, kc_first = cpu_count (cpu m), kc_n = 1, kc_from = RD m 1\<rparr>]\<rparr>))))"

definition ctx_report :: "diag \<Rightarrow> msg list" where
  "ctx_report d =
     Ctx_total (length (kctx d)) #
     map (\<lambda>i. let e = kctx d ! i in Ctx_row i (kc_ctx e) (kc_n e) (kc_first e)) [0..<length (kctx d)]"

section \<open>Watches\<close>

definition pwatch_hit :: "machine \<Rightarrow> u32 \<Rightarrow> u8 \<Rightarrow> diag \<Rightarrow> diag" where
  "pwatch_hit m a v d =
     (let n = pwatch_n d; d = d\<lparr>pwatch_n := n + 1\<rparr>
      in if n < 40
         then say (Phys_write a v (dbg_pc d) (RD m 1) (RD m 31) (CR m 1 AND 0x80000000 \<noteq> 0) (cpu_count (cpu m))) d
         else d)"

definition stwatch_tick :: "diag_opts \<Rightarrow> machine \<Rightarrow> u32 \<Rightarrow> diag \<Rightarrow> diag" where
  "stwatch_tick opt m p d =
     (if \<not> stwatch_done d \<and> \<not> stwatch_active d \<and> p = stwatch_pc opt
      then say (Stw_enter p [RD m 2, RD m 3, RD m 4, RD m 5] (RD m 1)) (d\<lparr>stwatch_active := True, stwatch_ret := RD m 1\<rparr>)
      else if stwatch_active d \<and> p = stwatch_ret d
      then say (Stw_leave (RD m 2)) (d\<lparr>stwatch_active := False, stwatch_done := True\<rparr>)
      else d)"

definition wmem_tick :: "diag_opts \<Rightarrow> machine \<Rightarrow> u32 \<Rightarrow> u32 \<Rightarrow> u32 \<Rightarrow> diag \<Rightarrow> diag" where
  "wmem_tick opt m sub D va d =
     (let inrange = (va \<ge> wmem_lo opt \<and> va < wmem_hi opt);
          store = (sub \<ge> 0x08 \<and> sub \<le> 0x0B \<or> sub \<le> 0x01);
          n = wmem_n d
      in if \<not> inrange \<and> \<not> stwatch_active d then d
         else if \<not> store then d
         else
           (let d = d\<lparr>wmem_n := n + 1\<rparr>
            in if n \<ge> wmem_max opt then d
               else say (Store va (va - wmem_lo opt) (RD m D) (dbg_pc d) (RD m 1) (RD m 31) (cpu_count (cpu m))) d))"

definition regfind_tick :: "diag_opts \<Rightarrow> machine \<Rightarrow> u32 \<Rightarrow> diag \<Rightarrow> diag" where
  "regfind_tick opt m p d =
     (case find (\<lambda>r. cpu_r (cpu m) (of_nat r) = regfind_val opt) [2..<32] of
        None \<Rightarrow> d
      | Some r \<Rightarrow>
          (let n = regfind_n d; d = d\<lparr>regfind_n := n + 1\<rparr>
           in if n < 60 then say (Reg_found (of_nat r) (regfind_val opt) p (RD m 1) (cpu_count (cpu m))) d else d))"

text \<open>\<open>dump_words\<close>: the words of a table, through translation.\<close>

fun dump_loop :: "machine \<Rightarrow> u32 \<Rightarrow> nat \<Rightarrow> u32 list \<times> machine" where
  "dump_loop m a 0 = ([], m)"
| "dump_loop m a (Suc n) = (let (w, m) = vr32 m a; (ws, m) = dump_loop m (a + 4) n in (w # ws, m))"

definition dump_words :: "machine \<Rightarrow> u32 \<Rightarrow> nat \<Rightarrow> diag \<Rightarrow> machine \<times> diag" where
  "dump_words m base n d = (let (ws, m) = dump_loop m base n in (m, say (Words base ws) d))"

section \<open>In the step\<close>

text \<open>What \<open>step\<close> does before it looks at its intercepts, and what it does before it fetches.\<close>

definition diag_enter :: "diag_opts \<Rightarrow> machine \<Rightarrow> diag \<Rightarrow> machine \<times> diag" where
  "diag_enter opt m d =
     (let p = pc m;
          d = d\<lparr>dbg_pc := p, dbg_count := cpu_count (cpu m)\<rparr>;
          d = (if vmprobe opt then vm_probe_tick m p d else d);
          (m, d) = (if ctxtrace opt \<and> p = 0xC0017498 then ctx_tick m d else (m, d));
          d = (if stwatch_pc opt \<noteq> 0 then stwatch_tick opt m p d else d);
          d = (if regfind_val opt \<noteq> 0 then regfind_tick opt m p d else d)
      in (m, d))"

definition diag_fetch :: "diag_opts \<Rightarrow> machine \<Rightarrow> diag \<Rightarrow> machine \<times> diag" where
  "diag_fetch opt m d =
     (let p = pc m;
          (m, d) = (if scsi_trace opt \<and> sysmode m \<and> p = 0xC0071DBC
                    then (let (a, m) = vr32 m 0xC1015A48; (b, m) = vr32 m 0xC009EB40
                          in (m, say (Mount_root a b (RD m 9) (cpu_count (cpu m))) d))
                    else (m, d));
          d = (if wtrace_at d \<noteq> 0 \<and> cpu_count (cpu m) \<ge> wtrace_at d
               then d\<lparr>wtrace_left := wtrace_n opt, wtrace_at := 0\<rparr> else d);
          d = (if wtrace_left d \<noteq> 0 then (say (Trace p) d)\<lparr>wtrace_left := wtrace_left d - 1\<rparr> else d);
          d = (if watch_pc opt \<noteq> 0 \<and> p = watch_pc opt
               then (let d = (if wtrace_n opt \<noteq> 0 \<and> wtrace_left d = 0 then d\<lparr>wtrace_left := wtrace_n opt\<rparr> else d)
                     in say (Watch p (map (RD m) [1, 2, 3, 4, 5, 6, 7, 8, 9, 17, 18, 19, 21, 22, 23, 24, 25, 26, 27])
                               (cpu_count (cpu m))) d)
               else d)
      in (m, d))"

text \<open>Between the two, at the \<^verbatim>\<open>rte\<close> of a switch to a user context: the area pointers and the frame of \<open>0x1000\<close>.\<close>

definition diag_rte :: "diag_opts \<Rightarrow> machine \<Rightarrow> diag \<Rightarrow> machine \<times> diag" where
  "diag_rte opt m d =
     (if trace_traps opt \<and> sysmode m \<and> pc m = 0xC00175C0 \<and> CR m 2 AND 0x80000000 = 0
      then
        (let c = mem_r32 (mem m) (0xFFF7F000 + 0x204); u = mem_r32 (mem m) (0xFFF7E000 + 0x204);
             (r, m) = mmu_walk m c 0x1000;
             pa = (case r of None \<Rightarrow> 0 | Some (a, _) \<Rightarrow> a)
         in (m, if quiet_uproc opt then d
                else say (Ldctx (map (CR m) [1, 2, 4, 5, 6]) c u pa (if pa \<noteq> 0 then mem_r32 (mem m) pa else 0)) d))
      else (m, d))"

section \<open>The history\<close>

abbreviation (input) PCH_N :: u32 where "PCH_N \<equiv> 65536"

definition pchist_put :: "u32 \<Rightarrow> diag \<Rightarrow> diag" where
  "pchist_put p d = d\<lparr>pchist := (pchist d)[unat (pchpos d AND (PCH_N - 1)) := p], pchpos := pchpos d + 1\<rparr>"

text \<open>The dump before a derailment, a halt, a panic: \<open>for k = 0 .. PCH_N - 1\<close>.\<close>

definition pchist_dump :: "diag \<Rightarrow> u32 list" where
  "pchist_dump d = map (\<lambda>k. pchist d ! unat ((pchpos d + of_nat k) AND (PCH_N - 1))) [0..<unat PCH_N]"

section \<open>Instruments only watch\<close>

text \<open>What an instrument may do to the machine: fill the TLB and count, if what it looks at is kernel space.\<close>

definition watched :: "machine \<Rightarrow> machine \<Rightarrow> bool" where
  "watched m m' \<longleftrightarrow> probed m m' \<and> ufault (mmu m') = ufault (mmu m)"

lemma watched_refl: "mmu_ok m \<Longrightarrow> watched m m"
  by (simp add: watched_def probed_refl)

lemma watched_trans: "watched m m' \<Longrightarrow> watched m' m'' \<Longrightarrow> watched m m''"
  using probed_trans[of m m' m''] by (simp add: watched_def)

lemma vr32_watched:
  assumes "mmu_ok m" "realmm (mem m)" "a \<ge> 0xC0000000"
  shows "watched m (snd (vr32 m a))"
proof -
  obtain pa k where t: "translate m a False = (pa, k)" by fastforce
  have ok: "tlb_ok m" "devmap_ok m" using assms(1) by (simp_all add: mmu_ok_def)
  have s: "same_but_mmu m k" using same_translate[OF t] .
  have "snd (xlat_spec m a False) = ufault (mmu m)" using assms(2,3) by (simp add: xlat_spec_def)
  then have "ufault (mmu k) = ufault (mmu m)" "tlb_ok k" using translate_spec[OF ok t] by (simp_all add: prod_eq_iff)
  then show ?thesis using s devmap_ok_same[OF s] ok by (simp add: watched_def probed_def mmu_ok_def vr32_def t)
qed

lemma watched_keeps:
  assumes "watched m m'"
  shows "mmu_ok m'" "realmm (mem m') = realmm (mem m)" "RD m' = RD m" "cpu m' = cpu m"
  using assms sameD[of m m'] by (simp_all add: watched_def probed_def)

lemma ctx_tick_watched:
  assumes "mmu_ok m" "realmm (mem m)" "\<And>o4. o4 \<in> {0x80, 0x7C, 0x98, 0xA0} \<Longrightarrow> RD m 2 + o4 \<ge> 0xC0000000"
  shows "watched m (fst (ctx_tick m d))"
proof -
  let ?c = "RD m 2"
  obtain p m1 where 1: "vr32 m (?c + 0x80) = (p, m1)" by fastforce
  obtain sp m2 where 2: "vr32 m1 (?c + 0x7C) = (sp, m2)" by fastforce
  obtain ks m3 where 3: "vr32 m2 (?c + 0x98) = (ks, m3)" by fastforce
  obtain ua m4 where 4: "vr32 m3 (?c + 0xA0) = (ua, m4)" by fastforce
  have w1: "watched m m1" using vr32_watched[OF assms(1,2), of "?c + 0x80"] assms(3)[of "0x80"] 1 by simp
  note k1 = watched_keeps[OF w1]
  have w2: "watched m1 m2" using vr32_watched[OF k1(1), of "?c + 0x7C"] k1(2) assms(2) assms(3)[of "0x7C"] 2 by simp
  note k2 = watched_keeps[OF w2]
  have w3: "watched m2 m3" using vr32_watched[OF k2(1), of "?c + 0x98"] k1(2) k2(2) assms(2) assms(3)[of "0x98"] 3 by simp
  note k3 = watched_keeps[OF w3]
  have w4: "watched m3 m4" using vr32_watched[OF k3(1), of "?c + 0xA0"] k1(2) k2(2) k3(2) assms(2) assms(3)[of "0xA0"] 4 by simp
  have "watched m m4" using w1 w2 w3 w4 watched_trans by blast
  then show ?thesis using watched_refl[OF assms(1)]
    by (simp add: ctx_tick_def Let_def 1 2 3 4 split: option.split)
qed

lemma mount_watched:
  assumes "mmu_ok m" "realmm (mem m)"
  shows "watched m (snd (vr32 (snd (vr32 m 0xC1015A48)) 0xC009EB40))"
proof -
  have w: "watched m (snd (vr32 m 0xC1015A48))" by (rule vr32_watched[OF assms]) simp
  note k = watched_keeps[OF w]
  have "watched (snd (vr32 m 0xC1015A48)) (snd (vr32 (snd (vr32 m 0xC1015A48)) 0xC009EB40))"
    by (rule vr32_watched[OF k(1)]) (simp_all add: k(2) assms(2))
  then show ?thesis by (rule watched_trans[OF w])
qed

lemma diag_enter_watched:
  assumes "mmu_ok m" "realmm (mem m)"
    and "pc m = 0xC0017498 \<Longrightarrow> 0xC0000000 \<le> RD m 2 \<and> RD m 2 < 0xFFFFFF00"
  shows "watched m (fst (diag_enter opt m d))"
proof -
  have "watched m (fst (ctx_tick m e))" if p: "pc m = 0xC0017498" for e
  proof (rule ctx_tick_watched[OF assms(1,2)])
    fix o4 :: u32 assume "o4 \<in> {0x80, 0x7C, 0x98, 0xA0}"
    then show "RD m 2 + o4 \<ge> 0xC0000000"
      using assms(3)[OF p] by (auto simp: word_le_nat_alt word_less_nat_alt unat_word_ariths)
  qed
  then show ?thesis
    using watched_refl[OF assms(1)] by (simp add: diag_enter_def Let_def split_beta)
qed

lemma diag_fetch_watched:
  assumes "mmu_ok m" "realmm (mem m)"
  shows "watched m (fst (diag_fetch opt m d))"
proof -
  have "fst (diag_fetch opt m d) = (if scsi_trace opt \<and> sysmode m \<and> pc m = 0xC0071DBC
      then snd (vr32 (snd (vr32 m 0xC1015A48)) 0xC009EB40) else m)"
    by (simp add: diag_fetch_def Let_def split_beta)
  then show ?thesis using watched_refl[OF assms(1)] mount_watched[OF assms] by simp
qed

lemma diag_rte_watched:
  assumes "mmu_ok m"
  shows "watched m (fst (diag_rte opt m d))"
proof -
  have "watched m (snd (mmu_walk m c 0x1000))" for c
  proof -
    obtain r k where w: "mmu_walk m c 0x1000 = (r, k)" by fastforce
    have t: "tlb_ok m" "devmap_ok m" using assms by (simp_all add: mmu_ok_def)
    then have "tlb_step m k" using mmu_walk_step(2)[OF _ w] by simp
    then show ?thesis
      using t devmap_ok_same[of m k] by (simp add: w watched_def probed_def mmu_ok_def tlb_step_def)
  qed
  then show ?thesis using watched_refl[OF assms] by (simp add: diag_rte_def Let_def split_beta)
qed

text \<open>With every instrument on, memory, devices, processor, configuration and the record of a pending fault are
  what they are without, and the TLB still agrees with the tables, so that no later translation can tell
  the difference.  The context that the kernel switches to is in kernel space.\<close>

theorem tracing_transparent:
  assumes "mmu_ok m" "realmm (mem m)"
    and "pc m = 0xC0017498 \<longrightarrow> 0xC0000000 \<le> RD m 2 \<and> RD m 2 < 0xFFFFFF00"
  shows "watched m (fst (diag_enter opt m d)) \<and> watched m (fst (diag_rte opt m d)) \<and>
    watched m (fst (diag_fetch opt m d))"
  using assms diag_enter_watched diag_rte_watched diag_fetch_watched by blast

theorem tracing_transparent_witness:
  "\<exists>opt m d. scsi_trace opt \<and> ctxtrace opt \<and> pc m = 0xC0017498 \<and> RD m 2 = 0xC0100000 \<and>
     watched m (fst (diag_enter opt m d)) \<and> watched m (fst (diag_rte opt m d)) \<and>
     watched m (fst (diag_fetch opt m d))"
proof -
  let ?opt = "\<lparr>vmprobe = True, ctxtrace = True, stwatch_pc = 0, regfind_val = 5, wmem_lo = 0, wmem_hi = 0,
    wmem_max = 0, pwatch_lo = 0, pwatch_hi = 0, scsi_trace = True, wtrace_n = 7, watch_pc = 0x1000, trace_traps = True, quiet_uproc = False\<rparr> :: diag_opts"
  let ?m = "WR (machine0\<lparr>mem := mem0\<lparr>realmm := True\<rparr>, cpu := cpu0\<lparr>cpu_pc := 0xC0017498\<rparr>\<rparr>) 2 0xC0100000"
  have "tlb_flush ?m = ?m" "devmap_ok ?m"
    by (simp_all add: machine0_def mmu0_def tlb_flush_def empty_ent_def WR_def devmap_ok_def)
  then have ok: "mmu_ok ?m" using tlb_ok_flush[of ?m] by (simp add: mmu_ok_def)
  have p: "pc ?m = 0xC0017498" "RD ?m 2 = 0xC0100000" "realmm (mem ?m)" by (simp_all add: WR_def RD_def cpu0_def mem0_def)
  then have "watched ?m (fst (diag_enter ?opt ?m diag0)) \<and> watched ?m (fst (diag_rte ?opt ?m diag0)) \<and> watched ?m (fst (diag_fetch ?opt ?m diag0))"
    by (intro tracing_transparent[OF ok]) simp_all
  then show ?thesis using p by (intro exI[of _ ?opt] exI[of _ ?m] exI[of _ diag0]) simp
qed

section \<open>The profile is exact\<close>

lemma best_spec:
  "n \<le> PROF_BINS \<Longrightarrow> prof_best h n = (best, bv) \<Longrightarrow>
   (\<forall>i<n. h (of_nat i) \<le> bv) \<and>
   (if bv = 0 then best = 0 else \<exists>k<n. best = of_nat k \<and> h (of_nat k) = bv \<and> (\<forall>i<k. h (of_nat i) < bv))"
proof (induction n arbitrary: best bv)
  case 0
  then show ?case by (simp add: prof_best_def)
next
  case (Suc n)
  obtain b v where p: "prof_best h n = (b, v)" by fastforce
  note ih = Suc.IH[OF _ p]
  have "prof_best h (Suc n) = (if h (of_nat n) > v then (of_nat n, h (of_nat n)) else (b, v))"
    using p by (simp add: prof_best_def)
  then show ?case
    using Suc.prems ih
    by (auto simp: less_Suc_eq not_less split: if_splits intro: order.trans less_imp_le order.strict_trans1 order_le_less_trans)
qed

text \<open>What the report should list: the bins that were hit, the largest count first, the lower address first among
  equals.\<close>

definition hot_bins :: "(u32 \<Rightarrow> u64) \<Rightarrow> nat list" where
  "hot_bins h = sort_key (\<lambda>i. - int (unat (h (of_nat i)))) (filter (\<lambda>i. h (of_nat i) \<noteq> 0) [0..<PROF_BINS])"

lemma sort_key_pick:
  assumes "\<forall>a\<in>set as. f k < f a" "\<forall>b\<in>set bs. f k \<le> f b"
  shows "sort_key f (as @ k # bs) = k # sort_key f (as @ bs)"
proof (rule properties_for_sort_key)
  show "mset (k # sort_key f (as @ bs)) = mset (as @ k # bs)" by simp
  show "filter (\<lambda>x. f v = f x) (k # sort_key f (as @ bs)) = filter (\<lambda>x. f v = f x) (as @ k # bs)"
    if "v \<in> set (k # sort_key f (as @ bs))" for v
  proof -
    have s: "filter (\<lambda>x. f v = f x) (sort_key f (as @ bs)) = filter (\<lambda>x. f v = f x) (as @ bs)"
      using sort_key_stable[of f "f v" "as @ bs"] by (simp add: eq_commute[of "f v"])
    show ?thesis
    proof (cases "f v = f k")
      case True
      then have "filter (\<lambda>x. f v = f x) as = []" using assms(1) by (auto simp: filter_empty_conv)
      then show ?thesis using s True by simp
    qed (use s in simp)
  qed
  show "sorted (map f (k # sort_key f (as @ bs)))" using assms by (auto intro: less_imp_le)
qed

lemma sort_key_same:
  assumes "\<And>x. x \<in> set xs \<Longrightarrow> f x = g x"
  shows "sort_key f xs = sort_key g xs"
proof (rule properties_for_sort_key)
  have "map f (sort_key g xs) = map g (sort_key g xs)" by (rule map_cong) (simp_all add: assms)
  then show "sorted (map f (sort_key g xs))" by (metis sorted_sort_key)
  show "filter (\<lambda>y. f v = f y) (sort_key g xs) = filter (\<lambda>y. f v = f y) xs" if "v \<in> set (sort_key g xs)" for v
  proof -
    have "filter (\<lambda>y. f v = f y) ys = filter (\<lambda>y. g y = g v) ys" if "set ys = set xs" for ys
      using assms that \<open>v \<in> set (sort_key g xs)\<close> by (intro filter_cong) auto
    then show ?thesis using sort_key_stable[of g "g v" xs] by simp
  qed
qed simp

lemma nat_bin [simp]: "i < PROF_BINS \<Longrightarrow> j < PROF_BINS \<Longrightarrow> (of_nat i :: u32) = of_nat j \<longleftrightarrow> i = j"
  by (simp add: word_unat_eq_iff unat_of_nat)

lemma hot_pick:
  assumes "k < PROF_BINS" "h (of_nat k) \<noteq> 0" "\<forall>i<PROF_BINS. h (of_nat i) \<le> h (of_nat k)" "\<forall>i<k. h (of_nat i) < h (of_nat k)"
  shows "hot_bins h = k # hot_bins (h(of_nat k := 0))"
proof -
  let ?f = "\<lambda>i. - int (unat (h (of_nat i)))" let ?h = "h(of_nat k := 0)"
  let ?P = "\<lambda>i. h (of_nat i) \<noteq> 0"
  have up: "[0..<PROF_BINS] = [0..<k] @ k # [Suc k..<PROF_BINS]"
    using assms(1) using upt_add_eq_append[of 0 k "PROF_BINS - k"] upt_conv_Cons[of k PROF_BINS] by simp
  have ne: "(of_nat i :: u32) \<noteq> of_nat k" if "i < PROF_BINS" "i \<noteq> k" for i using that assms(1) by simp
  have a: "filter ?P [0..<PROF_BINS] = filter ?P [0..<k] @ k # filter ?P [Suc k..<PROF_BINS]"
    unfolding up using assms(2) by simp
  have "filter (\<lambda>i. ?h (of_nat i) \<noteq> 0) [0..<k] = filter ?P [0..<k]"
    "filter (\<lambda>i. ?h (of_nat i) \<noteq> 0) [Suc k..<PROF_BINS] = filter ?P [Suc k..<PROF_BINS]"
    using ne assms(1) by (auto intro!: filter_cong)
  then have b: "filter (\<lambda>i. ?h (of_nat i) \<noteq> 0) [0..<PROF_BINS] = filter ?P [0..<k] @ filter ?P [Suc k..<PROF_BINS]"
    unfolding up by simp
  have "sort_key (\<lambda>i. - int (unat (?h (of_nat i)))) (filter ?P [0..<k] @ filter ?P [Suc k..<PROF_BINS]) =
      sort_key ?f (filter ?P [0..<k] @ filter ?P [Suc k..<PROF_BINS])"
    by (rule sort_key_same) (use ne assms(1) in auto)
  moreover have "sort_key ?f (filter ?P [0..<k] @ k # filter ?P [Suc k..<PROF_BINS]) =
      k # sort_key ?f (filter ?P [0..<k] @ filter ?P [Suc k..<PROF_BINS])"
    using assms(3,4) by (intro sort_key_pick) (auto simp: word_less_def word_le_def)
  ultimately show ?thesis unfolding hot_bins_def a b by simp
qed

lemma hot_empty: "\<forall>i<PROF_BINS. h (of_nat i) = 0 \<Longrightarrow> hot_bins h = []"
  by (auto simp: hot_bins_def filter_empty_conv)

lemma hot_bound: "i \<in> set (hot_bins h) \<Longrightarrow> i < PROF_BINS \<and> h (of_nat i) \<noteq> 0"
  by (auto simp: hot_bins_def)

lemma ranks_hot:
  "prof_ranks n h tot = map (\<lambda>i. Prof_row (PROF_LO + of_nat i * 32) (h (of_nat i)) tot) (take n (hot_bins h))"
proof (induction n arbitrary: h)
  case (Suc n)
  obtain best bv where p: "prof_best h PROF_BINS = (best, bv)" by fastforce
  note b = best_spec[OF order.refl p]
  show ?case
  proof (cases "bv = 0")
    case True
    then have "hot_bins h = []" using b by (intro hot_empty) simp
    then show ?thesis using p True by simp
  next
    case False
    then obtain k where k: "k < PROF_BINS" "best = of_nat k" "h (of_nat k) = bv" "\<forall>i<k. h (of_nat i) < bv"
      using b by auto
    have h: "hot_bins h = k # hot_bins (h(of_nat k := 0))"
      using hot_pick[of k h] k False b by simp
    have "(h(of_nat k := 0)) (of_nat i) = h (of_nat i)" if "i \<in> set (hot_bins (h(of_nat k := 0)))" for i
      using hot_bound[OF that] by auto
    then show ?thesis
      using p False k(3) Suc.IH[of "h(of_nat k := 0)"]
      by (simp add: h k(2) Let_def del: fun_upd_apply) (metis in_set_takeD)
  qed
qed simp

text \<open>The bins count the program counters that fell into them.\<close>

definition in_bin :: "nat \<Rightarrow> u32 \<Rightarrow> bool" where
  "in_bin i p \<longleftrightarrow> p \<ge> PROF_LO \<and> unat (p - PROF_LO) div 32 = i"

definition hits :: "u32 list \<Rightarrow> nat \<Rightarrow> nat" where
  "hits ps i = length (filter (in_bin i) ps)"

definition outside_bins :: "u32 list \<Rightarrow> nat" where
  "outside_bins ps = length (filter (\<lambda>p. \<forall>i<PROF_BINS. \<not> in_bin i p) ps)"

lemma bucket_bin:
  "prof_hist (prof_bucket p d) (of_nat i) = prof_hist d (of_nat i) + (if in_bin i p then 1 else 0)"
  "prof_other (prof_bucket p d) = prof_other d + (if \<forall>j<PROF_BINS. \<not> in_bin j p then 1 else 0)"
  if "i < PROF_BINS"
proof -
  let ?j = "unat (p - PROF_LO) div 32"
  have u: "unat ((p - PROF_LO) div 32) = ?j" by (simp add: unat_div)
  have lt: "(p - PROF_LO) div 32 < of_nat PROF_BINS \<longleftrightarrow> ?j < PROF_BINS" by (simp add: word_less_nat_alt u)
  have eq: "(p - PROF_LO) div 32 = of_nat i \<longleftrightarrow> ?j = i"
    using that by (simp add: word_unat_eq_iff u unat_of_nat)
  show "prof_hist (prof_bucket p d) (of_nat i) = prof_hist d (of_nat i) + (if in_bin i p then 1 else 0)"
    using that lt eq by (auto simp: prof_bucket_def Let_def in_bin_def)
  show "prof_other (prof_bucket p d) = prof_other d + (if \<forall>j<PROF_BINS. \<not> in_bin j p then 1 else 0)"
    using lt by (auto simp: prof_bucket_def Let_def in_bin_def)
qed

lemma profile_counts:
  "prof_hist (foldl (\<lambda>d p. prof_bucket p d) d ps) (of_nat i) = prof_hist d (of_nat i) + of_nat (hits ps i)"
  "prof_other (foldl (\<lambda>d p. prof_bucket p d) d ps) = prof_other d + of_nat (outside_bins ps)"
  if "i < PROF_BINS"
  by (induction ps arbitrary: d) (simp_all add: hits_def outside_bins_def bucket_bin[OF that])

lemma hits_total: "outside_bins ps + sum (hits ps) {..<PROF_BINS} = length ps"
proof (induction ps)
  case (Cons p ps)
  let ?j = "unat (p - PROF_LO) div 32"
  have "sum (hits (p # ps)) {..<PROF_BINS} = sum (hits ps) {..<PROF_BINS} + (\<Sum>i<PROF_BINS. if in_bin i p then 1 else 0)"
    by (simp add: hits_def sum.distrib[symmetric]) (auto intro: sum.cong)
  moreover have "(\<Sum>i<PROF_BINS. if in_bin i p then 1 else 0 :: nat) = (if \<exists>i<PROF_BINS. in_bin i p then 1 else 0)"
    by (auto simp: in_bin_def sum.delta)
  moreover have "outside_bins (p # ps) = outside_bins ps + (if \<exists>i<PROF_BINS. in_bin i p then 0 else 1)"
    by (auto simp: outside_bins_def)
  ultimately show ?case using Cons.IH by (simp split: if_splits)
qed (simp add: hits_def outside_bins_def)

text \<open>C38. The report of a run: how many program counters were seen and how many were outside, and of the bins that
  were hit the 20 with the largest exact counts, in order, the lower address first among equals.\<close>

theorem profile_report:
  assumes "length ps < 2 ^ 64"
  shows "prof_report (foldl (\<lambda>d p. prof_bucket p d) diag0 ps) =
    Prof_total (of_nat (length ps)) (of_nat (outside_bins ps)) #
    map (\<lambda>i. Prof_row (PROF_LO + of_nat i * 32) (of_nat (hits ps i)) (of_nat (length ps)))
      (take 20 (sort_key (\<lambda>i. - int (hits ps i)) (filter (\<lambda>i. hits ps i \<noteq> 0) [0..<PROF_BINS])))"
proof -
  let ?d = "foldl (\<lambda>d p. prof_bucket p d) diag0 ps"
  have h: "prof_hist ?d (of_nat i) = of_nat (hits ps i)" if "i < PROF_BINS" for i
    using profile_counts(1)[OF that, of diag0] by (simp add: diag0_def)
  have o: "prof_other ?d = of_nat (outside_bins ps)"
    using profile_counts(2)[of 0 diag0] by (simp add: diag0_def)
  have le: "hits ps i < 2 ^ 64" for i using assms length_filter_le[of "in_bin i" ps] unfolding hits_def by linarith
  have u: "unat (of_nat (hits ps i) :: u64) = hits ps i" for i using le[of i] by (simp add: unat_of_nat)
  have z: "(of_nat (hits ps i) :: u64) = 0 \<longleftrightarrow> hits ps i = 0" for i using u[of i] by (metis unat_eq_0)
  have f: "foldl (\<lambda>t i. t + prof_hist ?d (of_nat i)) c [0..<n] = c + of_nat (sum (hits ps) {..<n})" if "n \<le> PROF_BINS" for n c
    using that by (induction n) (simp_all add: h)
  have t: "prof_total ?d = of_nat (length ps)"
    unfolding prof_total_def f[OF order.refl] o using hits_total[of ps] by (metis of_nat_add)
  have "filter (\<lambda>i. prof_hist ?d (of_nat i) \<noteq> 0) [0..<PROF_BINS] = filter (\<lambda>i. hits ps i \<noteq> 0) [0..<PROF_BINS]"
    by (rule filter_cong) (simp_all add: h z)
  then have b: "hot_bins (prof_hist ?d) = sort_key (\<lambda>i. - int (hits ps i)) (filter (\<lambda>i. hits ps i \<noteq> 0) [0..<PROF_BINS])"
    unfolding hot_bins_def by (simp only:) (rule sort_key_same, simp add: h u)
  show ?thesis
    unfolding prof_report_def t o ranks_hot b by (auto simp: h dest: in_set_takeD)
qed

theorem profile_report_witness:
  "hd (prof_report (foldl (\<lambda>d p. prof_bucket p d) diag0 [0xC0010004, 0x1000, 0xC001003C])) = Prof_total 3 (of_nat (outside_bins [0xC0010004, 0x1000, 0xC001003C]))"
  using profile_report[of "[0xC0010004, 0x1000, 0xC001003C]"] by simp

section \<open>The history is the last program counters\<close>

lemma and_pch: "unat (x AND 65535 :: u32) = unat x mod 65536"
  using unat_and_mask[of x 16] by (simp add: mask_eq_exp_minus_1)

lemma pch_index: "unat ((x + of_nat k :: u32) AND 65535) = (unat x + k) mod 65536"
  by (simp add: and_pch unat_word_ariths unat_of_nat mod_mod_cancel mod_add_right_eq)

lemma dump_length: "length (pchist_dump d) = 65536"
  by (simp add: pchist_dump_def)

lemma dump_nth: "k < 65536 \<Longrightarrow> pchist_dump d ! k = pchist d ! ((unat (pchpos d) + k) mod 65536)"
  unfolding pchist_dump_def by (subst nth_map) (simp_all add: pch_index)

lemma dump_put:
  assumes "length (pchist d) = 65536"
  shows "pchist_dump (pchist_put p d) = tl (pchist_dump d) @ [p]" "length (pchist (pchist_put p d)) = 65536"
proof -
  show "length (pchist (pchist_put p d)) = 65536" using assms by (simp add: pchist_put_def)
  let ?x = "unat (pchpos d)" let ?e = "pchist_put p d"
  have h: "pchist ?e = (pchist d)[?x mod 65536 := p]" by (simp add: pchist_put_def and_pch)
  have i: "(unat (pchpos ?e) + k) mod 65536 = (?x + Suc k) mod 65536" for k
  proof -
    have "unat (pchpos ?e) mod 65536 = (?x + 1) mod 65536" by (simp add: pchist_put_def unat_word_ariths mod_mod_cancel)
    then show ?thesis
      using mod_add_left_eq[of "unat (pchpos ?e)" 65536 k] mod_add_left_eq[of "?x + 1" 65536 k] by simp
  qed
  show "pchist_dump ?e = tl (pchist_dump d) @ [p]"
  proof (rule nth_equalityI)
    show "length (pchist_dump ?e) = length (tl (pchist_dump d) @ [p])" by (simp add: dump_length)
    fix k assume "k < length (pchist_dump ?e)"
    then have k: "k < 65536" by (simp add: dump_length)
    have n: "pchist_dump ?e ! k = (pchist d)[?x mod 65536 := p] ! ((?x + Suc k) mod 65536)"
      using dump_nth[OF k, of ?e] by (simp only: h i)
    show "pchist_dump ?e ! k = (tl (pchist_dump d) @ [p]) ! k"
    proof (cases "Suc k < 65536")
      case False
      then have "k = 65535" using k by simp
      then have x: "(?x + Suc k) mod 65536 = ?x mod 65536" and l: "k = length (tl (pchist_dump d))"
        by (simp_all add: dump_length)
      have "pchist_dump ?e ! k = p" unfolding n x using assms by simp
      then show ?thesis by (simp only: l nth_append_length)
    next
      case True
      then have "(?x + Suc k) mod 65536 \<noteq> ?x mod 65536"
        using mod_eq_dvd_iff_nat[of ?x "?x + Suc k" 65536] by (auto dest: dvd_imp_le)
      then have "pchist_dump ?e ! k = pchist_dump d ! Suc k"
        by (simp only: n dump_nth[OF True]) simp
      then show ?thesis using True by (simp only: nth_append nth_tl dump_length length_tl) simp
    qed
  qed
qed

lemma dump_start: "pchist_dump diag0 = replicate 65536 0"
  by (rule nth_equalityI) (simp_all add: pchist_dump_def diag0_def and_pch)

lemma history_len: "length (pchist (foldl (\<lambda>d p. pchist_put p d) diag0 ps)) = 65536"
  by (induction ps rule: rev_induct) (simp_all add: dump_put(2), simp add: diag0_def)

theorem history_last:
  "pchist_dump (foldl (\<lambda>d p. pchist_put p d) diag0 ps) = drop (length ps) (replicate 65536 0 @ ps)"
proof (induction ps rule: rev_induct)
  case (snoc p ps)
  have "tl (drop (length ps) (replicate 65536 0 @ ps)) = drop (Suc (length ps)) (replicate 65536 0 @ ps)"
    by (simp only: drop_Suc drop_tl)
  then show ?case
    using snoc dump_put(1)[OF history_len] by (simp only: foldl_append foldl.simps length_append list.size
        append_assoc[symmetric] drop_append) simp
qed (simp add: dump_start)

end
