(* ===== verification/Report.thy ===== *)
theory Report
  imports Driver Diag
begin

text \<open>
  What the driver says about a run (the commentary of \<open>run_sys\<close> and \<open>proc_table_dump\<close> in \<^verbatim>\<open>sysmode.c\<close>): a kernel
  that jumped away, a halt, a panic, a lock that spins, the trace of traps and calls, the table of
  processes, and the state at the end.

  As in \<open>Diag\<close>, what is printed is a list of values.  \<open>pass_head\<close>, \<open>pass_halt\<close> and \<open>pass_watch\<close> are the parts
  of one pass in the order of the code, with the work of the driver between them and behind them; what
  they keep from pass to pass are the fields of \<open>post\<close>.

  The lemmas show that a report is about what happened: the last words on a derailed kernel are the
  program counters it came by, and the table of processes is the one in the kernel's memory.
\<close>

section \<open>State\<close>

datatype report =
    Derailed u32 u32 u64        \<comment> \<open>\<^verbatim>\<open>[derail]\<close>: where, from which kernel pc, count\<close>
  | Slept u32 u32               \<comment> \<open>the last sleep: channel, caller\<close>
  | History "u32 list"
  | Spinning bool u32 u64       \<comment> \<open>\<^verbatim>\<open>[halt]\<close>: in \<open>tcs_shutdown\<close> (else \<open>doadump\<close>), pc, count\<close>
  | Panic bytes u32 u64
  | Lock_spin "u32 list" u64
  | Pc_trace u32
  | Trapped_at int u32 u32 "u32 list" u64
  | Opening int bytes u64
  | Executing int bytes u64
  | Process u32 u32 u32 "u32 list"   \<comment> \<open>slot, pid, state; channel, links, queue, parent, cluster\<close>
  | Registers "u32 list"
  | Instruments "msg list"

record post_opts =
  dump_pchist :: bool
  profile :: bool
  vm_probes :: bool
  ctx_trace :: bool
  traps_traced :: bool
  trace_len :: u64
  verbose_sys :: bool
  quiet_run :: bool

record post =
  last_kpc :: u32
  last_sleep_chan :: u32
  last_sleep_from :: u32
  spin_seen :: bool
  trace_pc_until :: u64
  reports :: "report list"

definition tell :: "report \<Rightarrow> post \<Rightarrow> post" where
  "tell r po = po\<lparr>reports := reports po @ [r]\<rparr>"

definition tell_history :: "post_opts \<Rightarrow> diag \<Rightarrow> post \<Rightarrow> post" where
  "tell_history opt d po = (if dump_pchist opt then tell (History (pchist_dump d)) po else po)"

definition tell_sleep :: "post \<Rightarrow> post" where
  "tell_sleep po = tell (Slept (last_sleep_chan po) (last_sleep_from po)) po"

section \<open>One pass\<close>

text \<open>The head of the loop; the flag says that the kernel jumped out of kernel space, which ends the run.\<close>

definition pass_head :: "post_opts \<Rightarrow> machine \<Rightarrow> diag \<Rightarrow> post \<Rightarrow> bool \<times> diag \<times> post" where
  "pass_head opt m d po =
     (let p = pc m;
          d = pchist_put p d;
          d = (if profile opt then prof_bucket p d else d)
      in if realmm (mem m) \<and> p < 0xC0000000 \<and> CR m 1 AND 0x80000000 \<noteq> 0
         then (True, d, tell_history opt d (tell_sleep (tell (Derailed p (last_kpc po) (cpu_count (cpu m))) po)))
         else (False, d, po))"

definition pass_halt :: "post_opts \<Rightarrow> machine \<Rightarrow> diag \<Rightarrow> post \<Rightarrow> bool \<times> post" where
  "pass_halt opt m d po =
     (let p = pc m
      in if p = 0xC00A24F4 \<or> p = 0xC00A24B8
         then (True, tell_history opt d (tell (Spinning (p = 0xC00A24F4) p (cpu_count (cpu m))) po))
         else (False, po))"

text \<open>The panic message is read through translation.  A spinning lock is reported once.\<close>

definition pass_watch :: "post_opts \<Rightarrow> machine \<Rightarrow> diag \<Rightarrow> post \<Rightarrow> machine \<times> post" where
  "pass_watch opt m d po =
     (let p = pc m;
          po = (if p = 0xC0054A64 then po\<lparr>last_sleep_chan := RD m 2, last_sleep_from := RD m 1\<rparr> else po);
          (m, po) = (if p = 0xC005AFE0
                     then (let (s, m) = uread_str m (RD m 2) 160
                           in (m, tell_history opt d (tell_sleep (tell (Panic s (RD m 1) (cpu_count (cpu m))) po))))
                     else (m, po));
          po = (if (p = 0xC0018170 \<or> p = 0xC00A7C78) \<and> \<not> spin_seen po
                then (tell (Lock_spin (map (RD m) [2, 1, 26, 25, 27]) (cpu_count (cpu m)))
                       (tell_history opt d po))\<lparr>spin_seen := True\<rparr>
                else po);
          po = (if trace_pc_until po \<noteq> 0 \<and> cpu_count (cpu m) < trace_pc_until po then tell (Pc_trace p) po else po)
      in (m, po\<lparr>last_kpc := p\<rparr>))"

section \<open>Traps\<close>

definition trap_note :: "post_opts \<Rightarrow> machine \<Rightarrow> post \<Rightarrow> machine \<times> post" where
  "trap_note opt m po =
     (if traps_traced opt
      then (let (pid, m) = real_pid m
            in (m, tell (Trapped_at pid (trap_vector m) (trap_pc m) (map (RD m) [9, 2, 3, 4]) (cpu_count (cpu m))) po))
      else (m, po))"

text \<open>The names of files opened, read once more for the message, and of programs executed.\<close>

definition open_note :: "post_opts \<Rightarrow> machine \<Rightarrow> bytes \<Rightarrow> post \<Rightarrow> machine \<times> post" where
  "open_note opt m name po =
     (if verbose_sys opt
      then (let (pid, m) = real_pid m in (m, tell (Opening pid name (cpu_count (cpu m))) po))
      else (m, po))"

definition exec_note :: "post_opts \<Rightarrow> machine \<Rightarrow> post \<Rightarrow> machine \<times> post" where
  "exec_note opt m po =
     (if verbose_sys opt \<and> trap_vector m = 128 \<and> \<not> supervisor m \<and> RD m 9 = 59
      then (let (name, m) = uread_str m (RD m 2) 128; (pid, m) = real_pid m
            in (m, tell (Executing pid name (cpu_count (cpu m))) po))
      else (m, po))"

definition trap_delivered :: "post_opts \<Rightarrow> machine \<Rightarrow> post \<Rightarrow> post" where
  "trap_delivered opt m po =
     (if traps_traced opt then po\<lparr>trace_pc_until := cpu_count (cpu m) + trace_len opt\<rparr> else po)"

section \<open>The table of processes\<close>

definition proc_row :: "machine \<Rightarrow> u32 \<Rightarrow> u32 \<Rightarrow> report \<times> machine" where
  "proc_row m q st =
     (let (pid, m) = vr32 m (q + 0x4C); (wchan, m) = vr32 m (q + 0x44); (link, m) = vr32 m q;
          (rlink, m) = vr32 m (q + 4); (runq, m) = vr32 m (q + 0x80); (parent, m) = vr32 m (q + 0x18);
          (clu, m) = vr32 m (q + 0x90)
      in (Process q (drop_bit 16 pid) st [wchan, link, rlink, runq, parent, clu], m))"

text \<open>The loop over the slots; the number is how many rows there is still room for.\<close>

fun proc_rows :: "machine \<Rightarrow> nat \<Rightarrow> u32 list \<Rightarrow> report list \<times> machine" where
  "proc_rows m left [] = ([], m)"
| "proc_rows m left (q # qs) =
     (if left = 0 then ([], m)
      else
        (let (st, m) = vr32 m (q + 0x40) in
         if st = 0 then proc_rows m left qs
         else (let (r, m) = proc_row m q st; (rs, m) = proc_rows m (left - 1) qs in (r # rs, m))))"

definition proc_table_dump :: "machine \<Rightarrow> report list \<times> machine" where
  "proc_table_dump m =
     (let (pb, m) = vr32 m 0xC1015758; (np, m) = vr32 m 0xC1014B80
      in proc_rows m 16 (if pb = 0 then [] else map (\<lambda>i. pb + of_nat i * 512) [0..<unat np]))"

section \<open>The end of the run\<close>

definition end_report :: "post_opts \<Rightarrow> u64 \<Rightarrow> machine \<Rightarrow> diag \<Rightarrow> post \<Rightarrow> machine \<times> post" where
  "end_report opt limit m d po =
     (let spent = (cpu_count (cpu m) \<ge> limit);
          (rs, m) = (if verbose_sys opt \<and> spent then proc_table_dump m else ([], m));
          po = po\<lparr>reports := reports po @ rs\<rparr>;
          po = (if spent then tell_history opt d po else po);
          po = (if \<not> quiet_run opt then tell (Registers (map (\<lambda>i. RD m (of_nat i)) [0..<32])) po else po);
          po = (if profile opt then tell (Instruments (prof_report d)) po else po);
          po = (if vm_probes opt then tell (Instruments (vm_probe_report d)) po else po);
          po = (if ctx_trace opt then tell (Instruments (ctx_report d)) po else po)
      in (m, po))"

section \<open>Commentary only watches\<close>

lemma uread_bytes_probed: "mmu_ok m \<Longrightarrow> uread_bytes m va n = (s, k) \<Longrightarrow> probed m k"
proof (induction n arbitrary: m va s)
  case 0
  then show ?case by (simp add: probed_refl)
next
  case (Suc n)
  obtain x l where p: "probe m va = (x, l)" by fastforce
  have l: "probed m l" "mmu_ok l" using probe_spec(1)[OF Suc.prems(1) p] by (simp_all add: probed_def)
  then show ?case
    using Suc.prems(2) Suc.IH[OF l(2), of "va + 1"] probed_trans[OF l(1)]
    by (auto simp: p Let_def split: option.splits if_splits prod.splits)
qed

lemma uread_str_watched:
  assumes "mmu_ok m"
  shows "watched m (snd (uread_str m va n))"
proof -
  obtain s k where u: "uread_bytes m va (n - Suc 0) = (s, k)" by fastforce
  have "ufault (mmu (set_ufault k f)) = f" for f by (simp add: set_ufault_def)
  then show ?thesis using uread_bytes_probed[OF assms u] by (simp add: uread_str_def u watched_def)
qed

theorem commentary_watches:
  assumes "mmu_ok m"
  shows "watched m (fst (pass_watch opt m d po))"
  using uread_str_watched[OF assms, of "RD m 2" 160] watched_refl[OF assms]
  by (simp add: pass_watch_def Let_def split_beta)

section \<open>The last words on a derailed kernel\<close>

text \<open>Passes that run through, and then one that derails.\<close>

definition pass_on :: "post_opts \<Rightarrow> machine \<Rightarrow> diag \<times> post \<Rightarrow> diag \<times> post" where
  "pass_on opt m dp = (case pass_head opt m (fst dp) (snd dp) of (_, d, po) \<Rightarrow> (d, snd (pass_watch opt m d po)))"

definition on_course :: "machine \<Rightarrow> bool" where
  "on_course m \<longleftrightarrow> \<not> (realmm (mem m) \<and> pc m < 0xC0000000 \<and> CR m 1 AND 0x80000000 \<noteq> 0)"

lemma bucket_history [simp]: "pchist (prof_bucket p d) = pchist d" "pchpos (prof_bucket p d) = pchpos d"
  by (simp_all add: prof_bucket_def Let_def)

lemma bucket_dump [simp]: "pchist_dump (prof_bucket p d) = pchist_dump d"
  by (simp add: pchist_dump_def)

lemma head_dump:
  "pass_head opt m d po = (b, d', po') \<Longrightarrow> pchist_dump d' = pchist_dump (pchist_put (pc m) d) \<and> pchist d' = pchist (pchist_put (pc m) d)"
  by (auto simp: pass_head_def Let_def split: if_splits)

lemma watch_kpc: "last_kpc (snd (pass_watch opt m d po)) = pc m"
  by (simp add: pass_watch_def Let_def split_beta)

lemma course_history:
  assumes "foldl (\<lambda>dp m. pass_on opt m dp) (diag0, po) ms = (d, po')"
  shows "pchist_dump d = drop (length ms) (replicate 65536 0 @ map pc ms) \<and> length (pchist d) = 65536 \<and>
    last_kpc po' = (if ms = [] then last_kpc po else pc (last ms))"
  using assms
proof (induction ms arbitrary: d po' rule: rev_induct)
  case Nil
  then have "d = diag0" "po' = po" by simp_all
  moreover have "length (pchist diag0) = 65536" by (simp add: diag0_def)
  ultimately show ?case by (simp add: dump_start)
next
  case (snoc m ms)
  obtain e pe where e: "foldl (\<lambda>dp m. pass_on opt m dp) (diag0, po) ms = (e, pe)" by fastforce
  obtain b d1 p1 where h: "pass_head opt m e pe = (b, d1, p1)" by (metis prod_cases3)
  have d: "d = d1" "po' = snd (pass_watch opt m d1 p1)" using snoc.prems e h by (auto simp: pass_on_def)
  note ih = snoc.IH[OF e]
  have "tl (drop (length ms) (replicate 65536 0 @ map pc ms)) = drop (Suc (length ms)) (replicate 65536 0 @ map pc ms)"
    by (simp only: drop_Suc drop_tl)
  moreover have "pchist_dump d = tl (pchist_dump e) @ [pc m]" "length (pchist d) = 65536"
    using head_dump[OF h] dump_put[of e "pc m"] ih d(1) by simp_all
  ultimately show ?case using ih by (simp add: d(2) watch_kpc)
qed

text \<open>The report on a kernel that jumped to a user address: the address, the last address before it, and, if
  histories are on, exactly the program counters of the passes up to and with the jump.\<close>

theorem derail_report:
  assumes "foldl (\<lambda>dp m. pass_on opt m dp) (diag0, po) ms = (d, po')" "ms \<noteq> []" "\<not> on_course m"
    and "pass_head opt m d po' = (ended, d', q)"
  shows "ended \<and>
    (\<exists>chan from. reports q = reports po' @ [Derailed (pc m) (pc (last ms)) (cpu_count (cpu m)), Slept chan from] @
       (if dump_pchist opt then [History (drop (Suc (length ms)) (replicate 65536 0 @ map pc (ms @ [m])))] else []))"
proof -
  note c = course_history[OF assms(1)]
  have "tl (drop (length ms) (replicate 65536 0 @ map pc ms)) = drop (Suc (length ms)) (replicate 65536 0 @ map pc ms)"
    by (simp only: drop_Suc drop_tl)
  then have "pchist_dump d' = drop (Suc (length ms)) (replicate 65536 0 @ map pc (ms @ [m]))"
    using head_dump[OF assms(4)] dump_put(1)[of d "pc m"] c by simp
  then show ?thesis
    using assms(2-4) c
    by (auto simp: pass_head_def Let_def on_course_def tell_history_def tell_sleep_def tell_def split: if_splits)
qed

theorem derail_report_witness:
  "let m = set_cr (machine0\<lparr>mem := mem0\<lparr>realmm := True\<rparr>\<rparr>) 1 0x80000000;
       opt = \<lparr>dump_pchist = True, profile = True, vm_probes = False, ctx_trace = False, traps_traced = False,
         trace_len = 400, verbose_sys = False, quiet_run = False\<rparr>;
       po = \<lparr>last_kpc = 0, last_sleep_chan = 0, last_sleep_from = 0, spin_seen = False, trace_pc_until = 0, reports = []\<rparr>;
       dp = pass_on opt (set_pc m 0xC0010000) (diag0, po)
   in fst (pass_head opt (set_pc m 0x1234) (fst dp) (snd dp)) \<and>
     hd (reports (snd (snd (pass_head opt (set_pc m 0x1234) (fst dp) (snd dp))))) = Derailed 0x1234 0xC0010000 0"
proof -
  let ?m = "set_cr (machine0\<lparr>mem := mem0\<lparr>realmm := True\<rparr>\<rparr>) 1 0x80000000"
  let ?opt = "\<lparr>dump_pchist = True, profile = True, vm_probes = False, ctx_trace = False, traps_traced = False,
    trace_len = 400, verbose_sys = False, quiet_run = False\<rparr> :: post_opts"
  let ?po = "\<lparr>last_kpc = 0, last_sleep_chan = 0, last_sleep_from = 0, spin_seen = False, trace_pc_until = 0, reports = []\<rparr>"
  let ?dp = "pass_on ?opt (set_pc ?m 0xC0010000) (diag0, ?po)"
  obtain e d q where h: "pass_head ?opt (set_pc ?m 0x1234) (fst ?dp) (snd ?dp) = (e, d, q)" by (metis prod_cases3)
  have f: "foldl (\<lambda>dp m. pass_on ?opt m dp) (diag0, ?po) [set_pc ?m 0xC0010000] = (fst ?dp, snd ?dp)" by simp
  have n: "\<not> on_course (set_pc ?m 0x1234)" by (simp add: on_course_def mem0_def)
  have c: "cpu_count (cpu (set_pc ?m 0x1234)) = 0" by (simp add: set_pc_def set_cr_def machine0_def cpu0_def)
  have r: "reports (snd ?dp) = []"
    by (simp add: pass_on_def pass_head_def pass_watch_def Let_def split_beta)
  from derail_report[OF f _ n h] show ?thesis using h c by (auto simp: Let_def r)
qed

section \<open>The table that is printed\<close>

text \<open>A row of the table as the kernel's memory has it.\<close>

definition row_of :: "machine \<Rightarrow> u32 \<Rightarrow> report" where
  "row_of m q =
     Process q (drop_bit 16 (kern_word m (q + 0x4C))) (proc_stat m q)
       [kern_word m (q + 0x44), kern_word m q, kern_word m (q + 4), kern_word m (q + 0x80), proc_parent m q,
        kern_word m (q + 0x90)]"

definition row_there :: "machine \<Rightarrow> u32 \<Rightarrow> bool" where
  "row_there m q \<longleftrightarrow> (\<forall>i\<in>{0, 4, 0x18, 0x40, 0x44, 0x4C, 0x80, 0x90}. kern_va m (q + i))"

lemma row_step:
  assumes "tlb_step m m'"
  shows "row_of m' = row_of m" "row_there m' = row_there m"
  by (simp_all add: fun_eq_iff row_of_def row_there_def kern_step[OF assms])

lemma proc_row_spec:
  assumes "tlb_ok m" "row_there m q" "proc_row m q (proc_stat m q) = (r, m')"
  shows "r = row_of m q \<and> tlb_step m m'"
proof -
  have va: "kern_va m (q + i)" if "i \<in> {0, 4, 0x18, 0x40, 0x44, 0x4C, 0x80, 0x90}" for i
    using assms(2) that unfolding row_there_def by blast
  have rd: "v = kern_word m a \<and> tlb_step m k'" if "tlb_step m k" "kern_va m a" "vr32 k a = (v, k')" for k k' a v
    using vr32_kernel[OF tlb_step_ok[OF that(1)] _ that(3)] kern_step[OF that(1)] that(2) tlb_step_trans[OF that(1)]
    by simp
  obtain pid m1 where 1: "vr32 m (q + 0x4C) = (pid, m1)" by fastforce
  note r1 = rd[OF tlb_step_refl[OF assms(1)] va 1, simplified]
  obtain wchan m2 where 2: "vr32 m1 (q + 0x44) = (wchan, m2)" by fastforce
  note r2 = rd[OF conjunct2[OF r1] va 2, simplified]
  obtain link m3 where 3: "vr32 m2 q = (link, m3)" by fastforce
  note r3 = rd[OF conjunct2[OF r2] va[of 0, simplified] 3]
  obtain rlink m4 where 4: "vr32 m3 (q + 4) = (rlink, m4)" by fastforce
  note r4 = rd[OF conjunct2[OF r3] va 4, simplified]
  obtain runq m5 where 5: "vr32 m4 (q + 0x80) = (runq, m5)" by fastforce
  note r5 = rd[OF conjunct2[OF r4] va 5, simplified]
  obtain parent m6 where 6: "vr32 m5 (q + 0x18) = (parent, m6)" by fastforce
  note r6 = rd[OF conjunct2[OF r5] va 6, simplified]
  obtain clu m7 where 7: "vr32 m6 (q + 0x90) = (clu, m7)" by fastforce
  note r7 = rd[OF conjunct2[OF r6] va 7, simplified]
  have "(r, m') = (row_of m q, m7)"
    using assms(3) r1 r2 r3 r4 r5 r6 r7 by (simp add: proc_row_def 1 2 3 4 5 6 7 row_of_def)
  then show ?thesis using r7 by simp
qed

lemma proc_rows_spec:
  assumes "tlb_ok m" "\<forall>q\<in>set qs. row_there m q" "proc_rows m left qs = (rs, m')"
  shows "rs = map (row_of m) (take left (filter (\<lambda>q. proc_stat m q \<noteq> 0) qs)) \<and> tlb_step m m'"
  using assms
proof (induction qs arbitrary: m left rs m')
  case Nil
  then show ?case by (simp add: tlb_step_refl)
next
  case (Cons q qs)
  show ?case
  proof (cases "left = 0")
    case True
    then show ?thesis using Cons.prems by (simp add: tlb_step_refl)
  next
    case False
    have va: "kern_va m (q + 0x40)" using Cons.prems(2) by (simp add: row_there_def)
    obtain st k where v: "vr32 m (q + 0x40) = (st, k)" by fastforce
    have s: "st = proc_stat m q" "tlb_step m k" using vr32_kernel[OF Cons.prems(1) va v] by simp_all
    note e = kern_step(1)[OF s(2)] row_step[OF s(2)]
    have k: "tlb_ok k" "\<forall>q\<in>set (q # qs). row_there k q" using tlb_step_ok[OF s(2)] Cons.prems(2) e by simp_all
    show ?thesis
    proof (cases "st = 0")
      case True
      then have "proc_rows k left qs = (rs, m')" using Cons.prems(3) False v by simp
      from Cons.IH[OF k(1) _ this] k(2) show ?thesis using True s e tlb_step_trans[OF s(2)] by simp
    next
      case n: False
      obtain r l where r: "proc_row k q st = (r, l)" by fastforce
      have p: "r = row_of m q" "tlb_step k l"
        using proc_row_spec[OF k(1), of q r l] k(2) r s(1) e by simp_all
      obtain rs' m2 where t: "proc_rows l (left - 1) qs = (rs', m2)" by fastforce
      have ml: "tlb_step m l" using tlb_step_trans[OF s(2) p(2)] .
      note el = kern_step(1)[OF ml] row_step[OF ml]
      have "rs = r # rs'" "m' = m2" using Cons.prems(3) False v n r t by simp_all
      moreover have "rs' = map (row_of m) (take (left - 1) (filter (\<lambda>q. proc_stat m q \<noteq> 0) qs)) \<and> tlb_step l m2"
        using Cons.IH[OF tlb_step_ok[OF ml] _ t] Cons.prems(2) el by simp
      ultimately show ?thesis using False n s(1) p(1) tlb_step_trans[OF ml] by (simp add: take_Cons')
    qed
  qed
qed

text \<open>The dump shows the first 16 slots in use, in the order of the table, as they are in the kernel's memory, and
  leaves the machine as it was but for the TLB.\<close>

theorem proc_table_shown:
  assumes "tlb_ok m" "kern_va m 0xC1015758" "\<forall>q\<in>set (proc_slots m). row_there m q" "proc_table_dump m = (rs, m')"
  shows "rs = map (row_of m) (take 16 (filter (\<lambda>q. proc_stat m q \<noteq> 0) (proc_slots m))) \<and> tlb_step m m'"
proof -
  obtain pb k where 1: "vr32 m 0xC1015758 = (pb, k)" by fastforce
  obtain np l where 2: "vr32 k 0xC1014B80 = (np, l)" by fastforce
  have s: "pb = kern_word m 0xC1015758" "tlb_step m k" using vr32_kernel[OF assms(1,2) 1] by simp_all
  have va: "kern_va k 0xC1014B80" using assms(2) kern_step(2)[OF s(2)] by (simp add: kern_va_def)
  have t: "np = kern_word m 0xC1014B80" "tlb_step m l"
    using vr32_kernel[OF tlb_step_ok[OF s(2)] va 2] kern_step(1)[OF s(2)] tlb_step_trans[OF s(2)] by simp_all
  have "proc_rows l 16 (proc_slots m) = (rs, m')"
    using assms(4) s t by (simp add: proc_table_dump_def 1 2 proc_slots_def Let_def)
  from proc_rows_spec[OF tlb_step_ok[OF t(2)] _ this] show ?thesis
    using assms(3) kern_step(1)[OF t(2)] row_step[OF t(2)] tlb_step_trans[OF t(2)] by simp
qed

text \<open>The table of \<open>idle_ends_run_witness\<close>: one slot, in use.\<close>

theorem proc_table_shown_witness:
  "\<exists>m'. proc_table_dump (sy_m idle_sys) = ([Process 0xC0100000 0 1 [0, 0, 0, 0, 0, 0]], m')"
proof -
  let ?m = "sy_m idle_sys" let ?p = "0xC0100000"
  have f: "tlb_flush ?m = ?m"
    by (simp add: idle_sys_def sys0_def machine0_def mmu0_def tlb_flush_def empty_ent_def set_pc_def)
  have ok: "tlb_ok ?m" using tlb_ok_flush[of ?m] f by simp
  have w: "kern_word ?m 0xC1015758 = ?p" "kern_word ?m 0xC1014B80 = 1" by code_simp+
  have s: "proc_slots ?m = [?p]" unfolding proc_slots_def w by simp
  have r: "realmm (mem ?m)" by code_simp
  have v: "kern_va ?m 0xC1015758" "\<forall>q\<in>set (proc_slots ?m). row_there ?m q"
    using r by (simp_all add: kern_va_def row_there_def s)
  have row: "row_of ?m ?p = Process ?p 0 1 [0, 0, 0, 0, 0, 0]" "proc_stat ?m ?p = 1" by code_simp+
  obtain rs m' where "proc_table_dump ?m = (rs, m')" by fastforce
  from proc_table_shown[OF ok v this] this row show ?thesis by (simp add: s)
qed

end
