(* ===== verification/Hostty.thy ===== *)
theory Hostty
  imports Console
begin

text \<open>
  The host's terminal (\<open>host_tty_mode\<close> and \<open>host_tty_restore\<close> of \<^verbatim>\<open>console.c\<close>) with the bits of its \<^verbatim>\<open>termios\<close>.
  \<open>Console\<close> keeps of it only whether it is in raw mode.

  A flag word is the set of the flags that are set, so \<open>&= ~(A | B)\<close> takes \<open>A\<close> and \<open>B\<close> out of it; the flags and
  control characters the code does not name are numbered.  \<open>tcgetattr\<close> and \<open>tcsetattr\<close> answer from a list,
  \<open>False\<close> for a failure; once it is used up they succeed.  The statics of the code and what \<open>atexit\<close> has
  been given are fields beside the terminal.

  The lemmas show that the terminal is always in its original mode or in the raw one made of it, and that a
  run gives it back as it was.
\<close>

section \<open>The terminal\<close>

datatype tty_flag = ICRNL | INLCR | IGNCR | IXON | IXANY | ISTRIP | BRKINT | ICANON | ECHO | IEXTEN | ISIG | Flag nat

datatype tty_char = VMIN | VTIME | Char nat

record termios =
  c_iflag :: "tty_flag set"
  c_oflag :: "tty_flag set"
  c_cflag :: "tty_flag set"
  c_lflag :: "tty_flag set"
  c_cc :: "tty_char \<Rightarrow> u8"

record host_term =
  term_tio :: termios           \<comment> \<open>what the terminal is set to\<close>
  term_isatty :: bool
  term_gets :: "bool list"
  term_sets :: "bool list"
  tio_save :: termios
  tio_valid :: bool
  tio_raw :: bool
  at_exit :: nat                \<comment> \<open>how often \<open>host_tty_restore\<close> was registered\<close>

definition tcgetattr :: "host_term \<Rightarrow> termios option \<times> host_term" where
  "tcgetattr t =
     (case term_gets t of
        False # bs \<Rightarrow> (None, t\<lparr>term_gets := bs\<rparr>)
      | bs \<Rightarrow> (Some (term_tio t), t\<lparr>term_gets := tl bs\<rparr>))"

definition tcsetattr :: "termios \<Rightarrow> host_term \<Rightarrow> bool \<times> host_term" where
  "tcsetattr k t =
     (case term_sets t of
        False # bs \<Rightarrow> (False, t\<lparr>term_sets := bs\<rparr>)
      | bs \<Rightarrow> (True, t\<lparr>term_sets := tl bs, term_tio := k\<rparr>))"

section \<open>Modes\<close>

definition raw_tio :: "termios \<Rightarrow> termios" where
  "raw_tio k =
     k\<lparr>c_iflag := c_iflag k - {ICRNL, INLCR, IGNCR, IXON, IXANY, ISTRIP, BRKINT},
       c_lflag := c_lflag k - {ICANON, ECHO, IEXTEN},
       c_cc := (c_cc k)(VMIN := 1, VTIME := 0)\<rparr>"

definition host_tty_restore :: "host_term \<Rightarrow> host_term" where
  "host_tty_restore t =
     (if tio_valid t \<and> tio_raw t then (snd (tcsetattr (tio_save t) t))\<lparr>tio_raw := False\<rparr> else t)"

text \<open>\<open>host_tty_mode\<close>, with \<open>con_use_sock\<close> as an argument.\<close>

definition term_save :: "host_term \<Rightarrow> host_term option" where
  "term_save t =
     (if tio_valid t then Some t
      else
        (case tcgetattr t of
           (None, t) \<Rightarrow> None
         | (Some k, t) \<Rightarrow> Some (t\<lparr>tio_save := k, tio_valid := True, at_exit := at_exit t + 1\<rparr>)))"

definition term_mode :: "bool \<Rightarrow> bool \<Rightarrow> host_term \<Rightarrow> host_term" where
  "term_mode sock raw t =
     (if sock \<or> \<not> term_isatty t then t
      else if raw = tio_raw t then t
      else
        (case term_save t of
           None \<Rightarrow> snd (tcgetattr t)
         | Some t \<Rightarrow>
             if raw then
               (case tcsetattr (raw_tio (tio_save t)) t of (ok, t) \<Rightarrow> if ok then t\<lparr>tio_raw := True\<rparr> else t)
             else (snd (tcsetattr (tio_save t) t))\<lparr>tio_raw := False\<rparr>))"

text \<open>The end of the process calls what was registered.\<close>

definition term_exit :: "host_term \<Rightarrow> host_term" where
  "term_exit t = (host_tty_restore ^^ at_exit t) t"

section \<open>The guest's mode is the terminal's\<close>

text \<open>\<open>Console\<close>'s terminal is the same one, seen through its mode, as long as the host's calls succeed.\<close>

definition willing :: "host_term \<Rightarrow> bool" where
  "willing t \<longleftrightarrow> False \<notin> set (term_gets t) \<and> False \<notin> set (term_sets t)"

lemma willing_get: "willing t \<Longrightarrow> tcgetattr t = (Some (term_tio t), t\<lparr>term_gets := tl (term_gets t)\<rparr>)"
  by (auto simp: willing_def tcgetattr_def split: list.split bool.split)

lemma willing_set: "willing t \<Longrightarrow> tcsetattr k t = (True, t\<lparr>term_sets := tl (term_sets t), term_tio := k\<rparr>)"
  by (auto simp: willing_def tcsetattr_def split: list.split bool.split)

lemma willing_tl: "False \<notin> set l \<Longrightarrow> False \<notin> set (tl l)"
  by (cases l) simp_all

lemma willing_mode: "willing t \<Longrightarrow> willing (term_mode sock raw t)"
  by (auto simp: term_mode_def term_save_def willing_get willing_set willing_tl willing_def tcgetattr_def tcsetattr_def
      split: list.splits bool.splits if_splits)

theorem mode_refines:
  assumes "willing t" "tio_raw t = host_raw s" "term_isatty t = host_tty s"
  shows "tio_raw (term_mode (con_use_sock s) raw t) = host_raw (host_tty_mode raw s) \<and>
    term_isatty (term_mode (con_use_sock s) raw t) = host_tty (host_tty_mode raw s)"
  using assms
  by (auto simp: term_mode_def term_save_def host_tty_mode_def willing_get tcsetattr_def willing_def
      split: list.splits bool.splits)

section \<open>The terminal is given back\<close>

text \<open>What every call keeps, the original setting being \<open>k\<close>: what was saved is \<open>k\<close>, and was registered to be
  put back once; the terminal is in one of two modes.\<close>

definition kept :: "termios \<Rightarrow> host_term \<Rightarrow> bool" where
  "kept k t \<longleftrightarrow> term_tio t \<in> {k, raw_tio k} \<and>
     (if tio_valid t then tio_save t = k \<and> at_exit t = 1 else term_tio t = k \<and> \<not> tio_raw t \<and> at_exit t = 0)"

definition tracked :: "termios \<Rightarrow> host_term \<Rightarrow> bool" where
  "tracked k t \<longleftrightarrow> kept k t \<and> willing t \<and> term_tio t = (if tio_raw t then raw_tio k else k)"

lemma kept_get: "tcgetattr t = (r, t') \<Longrightarrow> kept k t' = kept k t \<and> (r = None \<or> r = Some (term_tio t))"
  by (auto simp: tcgetattr_def kept_def split: list.splits bool.splits)

lemma kept_save:
  assumes "term_save t = Some t'" "kept k t"
  shows "kept k t'" "tio_save t' = k" "tio_valid t'" "term_tio t' = term_tio t" "tio_raw t' = tio_raw t"
  using assms by (auto simp: term_save_def tcgetattr_def kept_def split: if_splits list.splits bool.splits)

lemma kept_set:
  assumes "tcsetattr x t = (b, t')" "kept k t" "tio_valid t" "x \<in> {k, raw_tio k}"
  shows "kept k (t'\<lparr>tio_raw := r\<rparr>)" "kept k t'"
  using assms by (auto simp: tcsetattr_def kept_def split: list.splits bool.splits)

lemma kept_mode:
  assumes "kept k t"
  shows "kept k (term_mode sock raw t)"
proof (cases "term_save t")
  case None
  have "kept k (snd (tcgetattr t))" using kept_get[of t] assms by (cases "tcgetattr t") auto
  then show ?thesis using assms None by (simp add: term_mode_def)
next
  case (Some u)
  note v = kept_save[OF Some assms]
  obtain b w where r: "tcsetattr (raw_tio (tio_save u)) u = (b, w)" by fastforce
  obtain c x where q: "tcsetattr (tio_save u) u = (c, x)" by fastforce
  show ?thesis
    using assms Some r q kept_set[OF r v(1,3)] kept_set[OF q v(1,3)] v(2) by (simp add: term_mode_def)
qed

lemma tracked_mode:
  assumes "tracked k t"
  shows "tracked k (term_mode sock raw t)"
proof -
  have w: "willing t" and k: "kept k t" and m: "term_tio t = (if tio_raw t then raw_tio k else k)"
    using assms by (simp_all add: tracked_def)
  have "term_tio (term_mode sock raw t) = (if tio_raw (term_mode sock raw t) then raw_tio k else k)"
    using w k m
    by (auto simp: term_mode_def term_save_def willing_get tcsetattr_def willing_def kept_def split: list.splits bool.splits)
  then show ?thesis using willing_mode[OF w] kept_mode[OF k] by (simp add: tracked_def)
qed

text \<open>However often the guest changes its mode, and whether or not the host's calls succeed, the terminal is as
  it was found or in the raw mode made of that.  If they succeed, its mode is the one that was asked for
  last, and it is as it was found when the process has ended.\<close>

theorem terminal_given_back:
  assumes "\<not> tio_valid t" "\<not> tio_raw t" "at_exit t = 0" "u = foldl (\<lambda>t (sock, raw). term_mode sock raw t) t ms"
  shows "term_tio u \<in> {term_tio t, raw_tio (term_tio t)} \<and>
    (willing t \<longrightarrow> term_tio u = (if tio_raw u then raw_tio (term_tio t) else term_tio t) \<and>
       term_tio (term_exit u) = term_tio t)"
proof -
  let ?k = "term_tio t"
  have "kept ?k t" using assms(1-3) by (simp add: kept_def)
  moreover have "kept ?k (foldl (\<lambda>t (sock, raw). term_mode sock raw t) s ms)" if "kept ?k s" for s
    using that by (induction ms arbitrary: s) (auto simp: kept_mode)
  ultimately have k: "kept ?k u" using assms(4) by simp
  have "tracked ?k (foldl (\<lambda>t (sock, raw). term_mode sock raw t) s ms)" if "tracked ?k s" for s
    using that by (induction ms arbitrary: s) (auto simp: tracked_mode)
  then have w: "tracked ?k u" if "willing t" using that assms by (simp add: tracked_def kept_def)
  have "term_tio (term_exit u) = ?k" if "willing t"
    using w[OF that] by (auto simp: tracked_def kept_def term_exit_def host_tty_restore_def willing_set split: if_splits)
  then show ?thesis using k w by (simp add: kept_def tracked_def)
qed

definition plain_term :: host_term where
  "plain_term = \<lparr>term_tio = \<lparr>c_iflag = {ICRNL, IXON}, c_oflag = {}, c_cflag = {}, c_lflag = {ICANON, ECHO, ISIG}, c_cc = (\<lambda>_. 0)\<rparr>,
     term_isatty = True, term_gets = [], term_sets = [],
     tio_save = \<lparr>c_iflag = {}, c_oflag = {}, c_cflag = {}, c_lflag = {}, c_cc = (\<lambda>_. 0)\<rparr>,
     tio_valid = False, tio_raw = False, at_exit = 0\<rparr>"

theorem terminal_given_back_witness:
  "c_lflag (term_tio (term_mode False True plain_term)) = {ISIG} \<and>
   term_tio (term_exit (term_mode False True plain_term)) = term_tio plain_term"
proof -
  let ?u = "term_mode False True plain_term"
  have w: "willing plain_term" "\<not> tio_valid plain_term" "\<not> tio_raw plain_term" "at_exit plain_term = 0"
    by (simp_all add: plain_term_def willing_def)
  have r: "tio_raw ?u" by (simp add: term_mode_def term_save_def tcgetattr_def tcsetattr_def plain_term_def)
  have "c_lflag (raw_tio (term_tio plain_term)) = {ISIG}" by (auto simp: raw_tio_def plain_term_def)
  then show ?thesis using terminal_given_back[OF w(2-4), of ?u "[(False, True)]"] w(1) r by simp
qed

text \<open>The way back to the cooked mode does not look at the answer of \<open>tcsetattr\<close>: when that fails once, the
  terminal stays raw, and since it is taken for cooked nothing puts it back at the end.\<close>

theorem terminal_left_raw:
  "term_tio (term_exit (term_mode False False (term_mode False True (plain_term\<lparr>term_sets := [True, False]\<rparr>)))) =
     raw_tio (term_tio plain_term)"
  by (simp add: term_mode_def term_save_def tcgetattr_def tcsetattr_def plain_term_def term_exit_def host_tty_restore_def)

end
