(* ===== verification/Spec2Isabelle.thy ===== *)
theory Spec2Isabelle
  imports Delivery Webmain Blockio Report Hostty
begin

text \<open>
  A verification development for \<^verbatim>\<open>tc2000\<close>, the emulator of the BBN TC2000 (an MC88100 machine)
  under \<^verbatim>\<open>src/emu/\<close>.

  \<^bold>\<open>The program.\<close>  One processor with MC88200 memory management runs a real kernel from a disk
  image.  \<^verbatim>\<open>cpu.c\<close> executes instructions; every access goes through \<open>memop\<close> in \<^verbatim>\<open>devices.c\<close>, which
  translates the address (\<^verbatim>\<open>mmu.c\<close>) and then reaches memory (\<^verbatim>\<open>memory.c\<close>, the inline accessors of
  \<^verbatim>\<open>nx88.h\<close>) or a device register.  Before an instruction is fetched, \<open>step\<close> looks at the program
  counter and stands in for kernel routines whose hardware does not exist (the disk strategy
  routine, the shared-bus adapter, the console output).  Some system calls are answered by the
  emulator (\<^verbatim>\<open>console.c\<close>): console reads and writes, raw disk access, the host file.  They move
  their data through \<^verbatim>\<open>proc.c\<close>.  \<^verbatim>\<open>usermode.c\<close> is a second way to run: a single a.out
  (\<^verbatim>\<open>aout.c\<close>) without a kernel, its system calls answered by the host.  \<^verbatim>\<open>ffs.c\<close> reads the boot
  image to find the kernel.  \<^verbatim>\<open>kmsg.c\<close> prints what the kernel says.  \<^verbatim>\<open>sysmode.c\<close> is the loop of a run
  under the kernel: it delivers faults and traps and hands system calls to those services first.  Once
  the kernel idles it has a program started as a real process, by calls of its own into the kernel
  (\<open>kcall\<close> and \<open>proc_experiment\<close> of \<^verbatim>\<open>cpu.c\<close>).  \<^verbatim>\<open>main.c\<close> reads the command line, opens the images and
  starts one of the two runs.

  \<^bold>\<open>The theories.\<close>  Each models one part, in the order of the calls:

  \<^item> \<^verbatim>\<open>Prelude\<close>: words, bytes and pages; host files; the locale \<open>keyed_store\<close>.
  \<^item> \<^verbatim>\<open>Memory\<close> (\<^verbatim>\<open>memory.c\<close>, \<^verbatim>\<open>nx88.h\<close>): the paged store, the folding of the physical address, the
    interleaver's RAM.  \<open>mem_refines_flat\<close> is the refinement of a flat byte array.
  \<^item> \<^verbatim>\<open>Machine\<close> (\<^verbatim>\<open>globals.c\<close>): the state record.  Each global is a field of the record of the part
    that owns it.
  \<^item> \<^verbatim>\<open>Mmu\<close>, \<^verbatim>\<open>Tlb\<close>, \<^verbatim>\<open>Boot\<close> (\<^verbatim>\<open>mmu.c\<close>): walk, TLB, faults and the probe command; the TLB as a
    cache of the walk; the tables built for the boot.
  \<^item> \<^verbatim>\<open>Devices\<close> (\<^verbatim>\<open>devices.c\<close>): dispatch, device registers, the SCSI target, the disk label.
  \<^item> \<^verbatim>\<open>Alu\<close>, \<^verbatim>\<open>Fpu\<close>, \<^verbatim>\<open>Exec\<close>, \<^verbatim>\<open>Step\<close> (\<^verbatim>\<open>cpu.c\<close>): integer and floating-point unit, decoding and
    execution with delay slots and the entries into the kernel, the whole of \<open>step\<close>; \<^verbatim>\<open>Blockio\<close>: the
    block transfers among its intercepts.
  \<^item> \<^verbatim>\<open>Kcall\<close>, \<^verbatim>\<open>Newproc\<close> (\<^verbatim>\<open>cpu.c\<close>): calls into the kernel, the run queue; how a program becomes a
    process, phase by phase, and the instruction words planted for it.
  \<^item> \<^verbatim>\<open>Ffs\<close> (\<^verbatim>\<open>ffs.c\<close>): superblock, inodes, block map, directories.
  \<^item> \<^verbatim>\<open>Umem\<close> (\<^verbatim>\<open>proc.c\<close>): string read, buffer check and copy between process and host; \<^verbatim>\<open>Frame\<close>: which
    bytes of memory a translation depends on, and that a copy into a buffer apart from them keeps it.
  \<^item> \<^verbatim>\<open>Usermode\<close> (\<^verbatim>\<open>usermode.c\<close>, \<^verbatim>\<open>aout.c\<close>): loader, argument stack, system calls, run loop.
  \<^item> \<^verbatim>\<open>Kmsg\<close> (\<^verbatim>\<open>kmsg.c\<close>): lines, prefixes, colours, dropped duplicates.
  \<^item> \<^verbatim>\<open>Console\<close>, \<^verbatim>\<open>Consys\<close> (\<^verbatim>\<open>console.c\<close>): the console itself (socket or terminal, telnet, line
    discipline); the system calls and the descriptor tables of each process; \<^verbatim>\<open>Hostty\<close>: the host's terminal.
  \<^item> \<^verbatim>\<open>Sysmode\<close>, \<^verbatim>\<open>Driver\<close> (\<^verbatim>\<open>sysmode.c\<close>): the driver, whose state brings all parts together; what it
    does at its decisive points; \<^verbatim>\<open>Delivery\<close>: the memory of a process after a read of the console, the
    raw disk or the host file.
  \<^item> \<^verbatim>\<open>Command\<close> (\<^verbatim>\<open>main.c\<close>): options, what follows from them, the set-up of a run.
  \<^item> \<^verbatim>\<open>Web\<close>, \<^verbatim>\<open>Webmain\<close> (the browser's branches of \<^verbatim>\<open>console.c\<close>; \<^verbatim>\<open>web.c\<close>): the queue of typed bytes and the
    transport over it; the entry point that cuts a command line into words.
  \<^item> \<^verbatim>\<open>Diag\<close>, \<^verbatim>\<open>Report\<close> (\<^verbatim>\<open>cpu.c\<close>, \<^verbatim>\<open>sysmode.c\<close>): probes, profile, table of contexts, watches, history of
    program counters; the commentary of the driver on a run.  What they print is a list of messages.

  \<^bold>\<open>Conventions.\<close>  C's \<open>u8\<close> to \<open>u64\<close> and \<open>int\<close> are words of their width, arithmetic wraps as it does in
  C, and shifts are by the masked amount the code writes.  State is passed explicitly; an
  operation returns the new state beside its result.  Error returns are constructors or options.
  A result C does not give (signed overflow of a division, a loop that does not end, an access
  outside an array) is \<open>None\<close>, \<open>NoResult\<close>, \<open>Overrun\<close> or the like, never an arbitrary value.  An image
  file is the list of its bytes, \<open>None\<close> if it was not opened; a write past its end pads with
  zeros, a read past it is short.  \<open>long\<close> has 64 bits.  The bytes of a transfer buffer that the code
  leaves uninitialised read as zero.  The payload of a NaN result is the default one.

  \<^bold>\<open>The lemmas.\<close>  Memory and devices: reads return what was written, aliases included, an access that
  faults changes nothing.  Translation: a TLB in agreement with the tables is invisible, and each
  operation keeps the agreement or restores it; a fault is recorded once and is precise.
  Execution: an instruction that faults can be restarted, delayed branches run their slot and
  then jump, the return from exception undoes the entry, the program counter stays aligned.
  Readers and loaders: no store outside a buffer, termination on every image.  Console: what is
  typed, echoed, read and written agree, however the bytes were cut up on the way.  Driver: invariants of
  whole runs by induction over their passes; which system calls the emulator answers, that these happen
  once or are made again after a page fault, and that all others reach the kernel as they were.  Browser:
  the ring is a queue, and a run of the page is the native run with the same words.  Diagnostics: the
  instruments only watch, and what the profile and the history report is what happened.

  The interfaces are four locales: \<open>keyed_store\<close> (interpreted as \<open>mem8\<close> and \<open>cmram\<close> in \<^verbatim>\<open>Memory\<close>),
  \<open>lookaside\<close>, a cache over a lookup function (interpreted as \<open>tlbc\<close> in \<^verbatim>\<open>Tlb\<close>), 
  \<open>driver_invariant\<close>, what every pass of the driver keeps (interpreted in \<^verbatim>\<open>Sysmode\<close> as \<open>buffers\<close>,
  the host's arrays, and \<open>settings\<close>, the boot medium and the configuration), and \<open>fifo\<close>, a
  queue of bounded size (interpreted as \<open>ringq\<close> in \<^verbatim>\<open>Web\<close>).

  \<^bold>\<open>Bounds and fuel.\<close>  Recursion is structural or has a termination proof.  Loops that
  may run forever (the drain of the diagnostic ring, the directory scan, the mapping loop of a
  range that ends with the address space, the run loop, a loop of indirect system calls) are
  decided by a proved criterion or stated with \<open>option\<close>; the lemmas say exactly when they end.  A call
  into the kernel has the code's own bound of 30 million steps.  The loop of a run under the kernel is
  an \<open>option\<close>, since a pass need not count an instruction; its invariants are stated over every
  reachable state, whether or not the run ends.

  The naps of the browser's read are the elements of a list of events: a read that is still waiting
  at its end has the result \<open>None\<close>.

  \<^bold>\<open>Not modelled.\<close>  Texts without values, the counters that are only printed at the end, and the commentary
  inside the process experiments.  The run of the driver is one without \<open>--debug\<close> and \<open>-v\<close>, where the
  arguments of the commentary are not evaluated: the instruments of \<^verbatim>\<open>Diag\<close> stand beside \<open>step\<close>, the
  passes of \<^verbatim>\<open>Report\<close> beside the driver's, and are shown to change nothing but the TLB and its counters.
  The socket calls behind the listener, the Windows variants and the idle nap of the console.  The scripts
  of the browser's page, which are not C.  Two names given for images are two files: the code opens the
  same file twice when they are the same name.

  \<^bold>\<open>Left open.\<close>  Block transfers with kernel data mapped through the kernel's tables, and the placement of
  the kernel as the kernel itself sees it.
\<close>

end
